(* ===== verification/Prelude.thy ===== *)
theory Prelude
  imports Main "HOL-Library.Word" "HOL-Library.Multiset"
begin

text \<open>
  What the component theories share: the names of the machine types, the model of
  \<open>std::to_string\<close> (decimal text of an unsigned value) with its round trip, the reachable
  states of a transition system with the locale that carries invariants to them, and the
  list, word and character lemmas used more than once.

  A \<open>std::string\<close> is a sequence of bytes, so it is a \<^typ>\<open>string\<close> (a list of 8-bit
  characters).  A w-bit unsigned integer is a word of that width; a signed one is the same
  word read with \<^const>\<open>sint\<close>.
\<close>

unbundle bit_operations_syntax

named_theorems ec_simps \<open>rewrite rules of the event collector's operations\<close>
named_theorems ec_inv \<open>preservation lemmas of the component invariants\<close>

section \<open>Machine types\<close>

type_synonym bytes = string
type_synonym u8 = "8 word"
type_synonym u16 = "16 word"
type_synonym i32 = "32 word"
type_synonym u32 = "32 word"
type_synonym i64 = "64 word"
type_synonym u64 = "64 word"

section \<open>Decimal text\<close>

text \<open>The digits that \<open>std::to_string\<close> and \<open>operator<<\<close> print for an unsigned value.\<close>

definition digit_char :: "nat \<Rightarrow> char" where
  "digit_char d = char_of (48 + d)"

definition is_digit :: "char \<Rightarrow> bool" where
  "is_digit c \<longleftrightarrow> 48 \<le> (of_char c :: nat) \<and> (of_char c :: nat) \<le> 57"

definition digit_val :: "char \<Rightarrow> nat" where
  "digit_val c = of_char c - 48"

fun show_nat :: "nat \<Rightarrow> string" where
  "show_nat n = (if n < 10 then [digit_char n] else show_nat (n div 10) @ [digit_char (n mod 10)])"

declare show_nat.simps [simp del]

definition digits_value :: "string \<Rightarrow> nat" where
  "digits_value ds = foldl (\<lambda>acc c. acc * 10 + digit_val c) 0 ds"

lemma of_char_digit_char [simp]: "d < 10 \<Longrightarrow> (of_char (digit_char d) :: nat) = 48 + d"
  by (simp add: digit_char_def)

lemma is_digit_digit_char [simp]: "d < 10 \<Longrightarrow> is_digit (digit_char d)"
  by (simp add: is_digit_def)

lemma digit_val_digit_char [simp]: "d < 10 \<Longrightarrow> digit_val (digit_char d) = d"
  by (simp add: digit_val_def)

lemma show_nat_nonempty [simp]: "show_nat n \<noteq> []"
  by (subst show_nat.simps) simp

lemma show_nat_digits: "list_all is_digit (show_nat n)"
proof (induction n rule: show_nat.induct)
  case (1 n)
  then show ?case
    by (cases "n < 10") (simp_all add: show_nat.simps [of n])
qed

lemma digits_value_append:
  "digits_value (xs @ [c]) = digits_value xs * 10 + digit_val c"
  by (simp add: digits_value_def)

lemma digits_value_show_nat [simp]: "digits_value (show_nat n) = n"
proof (induction n rule: show_nat.induct)
  case (1 n)
  show ?case
  proof (cases "n < 10")
    case True
    then show ?thesis by (simp add: show_nat.simps [of n] digits_value_def)
  next
    case False
    then have "digits_value (show_nat n) = digits_value (show_nat (n div 10)) * 10 + n mod 10"
      by (simp add: show_nat.simps [of n] digits_value_append)
    with False "1.IH" show ?thesis by simp
  qed
qed

lemma show_nat_inject [simp]: "show_nat m = show_nat n \<longleftrightarrow> m = n"
  by (metis digits_value_show_nat)

lemma digit_not_in_show_nat: "\<not> is_digit c \<Longrightarrow> c \<notin> set (show_nat n)"
  using show_nat_digits [of n] by (auto simp: list_all_iff)

text \<open>The line end of C++ literals, and the lines of a text.\<close>

definition newline :: char where
  "newline = CHR 0x0A"

fun text_lines :: "string \<Rightarrow> string list" where
  "text_lines [] = []"
| "text_lines (c # cs) =
     (if c = newline then [] # text_lines cs
      else (case text_lines cs of [] \<Rightarrow> [[c]] | l # ls \<Rightarrow> (c # l) # ls))"

lemma text_lines_append [simp]:
  "newline \<notin> set xs \<Longrightarrow> text_lines (xs @ newline # rest) = xs # text_lines rest"
  by (induction xs) auto

lemma newline_not_in_show_nat [simp]: "newline \<notin> set (show_nat n)"
  by (rule digit_not_in_show_nat) (simp add: is_digit_def newline_def)

section \<open>Reachable states\<close>

inductive reachable :: "('s \<Rightarrow> bool) \<Rightarrow> ('s \<Rightarrow> 's \<Rightarrow> bool) \<Rightarrow> 's \<Rightarrow> bool"
  for init :: "'s \<Rightarrow> bool" and step :: "'s \<Rightarrow> 's \<Rightarrow> bool" where
  reach_init: "init s \<Longrightarrow> reachable init step s"
| reach_step: "reachable init step s \<Longrightarrow> step s t \<Longrightarrow> reachable init step t"

lemma reachable_steps: "step\<^sup>*\<^sup>* s t \<Longrightarrow> reachable init step s \<Longrightarrow> reachable init step t"
  by (induction rule: rtranclp_induct) (blast intro: reach_step)+

text \<open>
  An inductive invariant of a step relation.  Each state machine of the development
  interprets this locale on its own initial states and steps.
\<close>

locale inductive_invariant =
  fixes init :: "'s \<Rightarrow> bool"
    and step :: "'s \<Rightarrow> 's \<Rightarrow> bool"
    and inv :: "'s \<Rightarrow> bool"
  assumes inv_init: "init s \<Longrightarrow> inv s"
    and inv_step: "inv s \<Longrightarrow> step s t \<Longrightarrow> inv t"
begin

lemma reachable_inv: "reachable init step s \<Longrightarrow> inv s"
  by (induction rule: reachable.induct) (auto intro: inv_init inv_step)

lemma steps_inv: "step\<^sup>*\<^sup>* s t \<Longrightarrow> inv s \<Longrightarrow> inv t"
  by (induction rule: rtranclp_induct) (auto intro: inv_step)

end

text \<open>
  A refinement: every step of the detailed machine is matched by no, one or several steps of
  the specification, so every state the machine can reach has a match the specification can
  reach.
\<close>

locale simulation =
  fixes init :: "'s \<Rightarrow> bool"
    and step :: "'s \<Rightarrow> 's \<Rightarrow> bool"
    and ainit :: "'a \<Rightarrow> bool"
    and astep :: "'a \<Rightarrow> 'a \<Rightarrow> bool"
    and match :: "'s \<Rightarrow> 'a \<Rightarrow> bool"
  assumes match_init: "init s \<Longrightarrow> \<exists>a. ainit a \<and> match s a"
    and match_step: "match s a \<Longrightarrow> step s t \<Longrightarrow> \<exists>b. astep\<^sup>*\<^sup>* a b \<and> match t b"
begin

lemma steps_match: "step\<^sup>*\<^sup>* s t \<Longrightarrow> match s a \<Longrightarrow> \<exists>b. astep\<^sup>*\<^sup>* a b \<and> match t b"
proof (induction rule: rtranclp_induct)
  case (step t u)
  then obtain b where "astep\<^sup>*\<^sup>* a b" "match t b" by blast
  moreover from match_step [OF this(2) step.hyps(2)] obtain c where "astep\<^sup>*\<^sup>* b c" "match u c" by blast
  ultimately show ?case by (meson rtranclp_trans)
qed blast

lemma reachable_match: "reachable init step s \<Longrightarrow> \<exists>a. reachable ainit astep a \<and> match s a"
proof (induction rule: reachable.induct)
  case (reach_init s)
  then show ?case using match_init by (blast intro: reachable.reach_init)
next
  case (reach_step s t)
  then obtain a b where a: "reachable ainit astep a" and b: "astep\<^sup>*\<^sup>* a b" "match t b"
    using match_step by blast
  from b(1) a have "reachable ainit astep b" by (rule reachable_steps)
  with b(2) show ?case by blast
qed

end

text \<open>
  Progress: every step costs some of a finite effort, idle steps cost nothing, and a state that
  is not finished has a step to take.  Then the machine can finish, and an infinite run takes only
  finitely many steps that are not idle.
\<close>

locale progress =
  fixes step :: "'s \<Rightarrow> 's \<Rightarrow> bool"
    and idle :: "'s \<Rightarrow> 's \<Rightarrow> bool"
    and inv :: "'s \<Rightarrow> bool"
    and effort :: "'s \<Rightarrow> nat"
    and finished :: "'s \<Rightarrow> bool"
  assumes step_inv: "inv s \<Longrightarrow> step s t \<Longrightarrow> inv t"
    and idle_inv: "inv s \<Longrightarrow> idle s t \<Longrightarrow> inv t"
    and step_effort: "inv s \<Longrightarrow> step s t \<Longrightarrow> effort t < effort s"
    and idle_effort: "inv s \<Longrightarrow> idle s t \<Longrightarrow> effort t \<le> effort s"
    and no_deadlock: "inv s \<Longrightarrow> \<not> finished s \<Longrightarrow> \<exists>t. step s t"
begin

lemma can_finish: "inv s \<Longrightarrow> \<exists>t. step\<^sup>*\<^sup>* s t \<and> inv t \<and> finished t"
proof (induction "effort s" arbitrary: s rule: less_induct)
  case less
  show ?case
  proof (cases "finished s")
    case False
    then obtain t where t: "step s t" using no_deadlock less.prems by blast
    with less.hyps [of t] less.prems obtain u where "step\<^sup>*\<^sup>* t u" "inv u" "finished u"
      by (blast intro: step_inv step_effort)
    with t show ?thesis by (blast intro: converse_rtranclp_into_rtranclp)
  qed (use less.prems in blast)
qed

lemma run_inv:
  "inv (f 0) \<Longrightarrow> (\<And>n. step (f n) (f (Suc n)) \<or> idle (f n) (f (Suc n))) \<Longrightarrow> inv (f n)"
  by (induction n) (blast intro: step_inv idle_inv)+

lemma steps_bounded:
  assumes "inv (f 0)" and run: "\<And>n. step (f n) (f (Suc n)) \<or> idle (f n) (f (Suc n))"
  shows "card {n. n < N \<and> step (f n) (f (Suc n))} + effort (f N) \<le> effort (f 0)"
proof (induction N)
  case (Suc N)
  let ?S = "\<lambda>N. {n. n < N \<and> step (f n) (f (Suc n))}"
  have i: "inv (f N)" by (rule run_inv [OF assms])
  have fin: "finite (?S N)" by simp
  show ?case
  proof (cases "step (f N) (f (Suc N))")
    case True
    then have "?S (Suc N) = insert N (?S N)" by auto
    moreover have "card (insert N (?S N)) = Suc (card (?S N))" using fin by simp
    ultimately show ?thesis using Suc step_effort [OF i True] by simp
  next
    case False
    then have same: "?S (Suc N) = ?S N" by (auto simp: less_Suc_eq)
    have "idle (f N) (f (Suc N))" using run False by blast
    from idle_effort [OF i this] Suc show ?thesis unfolding same by (rule add_left_mono [THEN order_trans])
  qed
qed simp

lemma finitely_many_steps:
  assumes "inv (f 0)" and "\<And>n. step (f n) (f (Suc n)) \<or> idle (f n) (f (Suc n))"
  shows "finite {n. step (f n) (f (Suc n))} \<and> card {n. step (f n) (f (Suc n))} \<le> effort (f 0)"
proof (rule finite_if_finite_subsets_card_bdd)
  fix G assume G: "G \<subseteq> {n. step (f n) (f (Suc n))}" "finite G"
  then obtain N where "\<forall>n\<in>G. n < N" by (auto simp: finite_nat_set_iff_bounded)
  with G(1) have "G \<subseteq> {n. n < N \<and> step (f n) (f (Suc n))}" by auto
  then have "card G \<le> card {n. n < N \<and> step (f n) (f (Suc n))}" by (intro card_mono) simp_all
  moreover have "card {n. n < N \<and> step (f n) (f (Suc n))} + effort (f N) \<le> effort (f 0)" by (rule steps_bounded [OF assms])
  ultimately show "card G \<le> effort (f 0)" by simp
qed

end

section \<open>Words and characters\<close>

lemma unat_of_char_u8 [simp]: "unat (of_char c :: u8) = of_char c"
proof -
  have "unat (of_nat (of_char c) :: u8) = of_char c mod 256"
    by (simp add: unat_of_nat)
  also have "\<dots> = of_char c"
    by (rule mod_less) (rule nat_of_char_less_256)
  finally show ?thesis by (simp only: of_nat_of_char)
qed

lemma length_filter_update:
  "i < length xs \<Longrightarrow>
     length (filter P (xs[i := y])) + (if P (xs ! i) then 1 else 0) = length (filter P xs) + (if P y then 1 else 0)"
proof (induction xs arbitrary: i)
  case (Cons x xs)
  show ?case
  proof (cases i)
    case (Suc k)
    with Cons.IH [of k] Cons.prems show ?thesis by (simp split: if_split_asm)
  qed simp
qed simp

lemma sum_list_map_update:
  fixes f :: "'a \<Rightarrow> 'b::comm_monoid_add"
  shows "i < length xs \<Longrightarrow> sum_list (map f (xs[i := y])) + f (xs ! i) = sum_list (map f xs) + f y"
proof (induction xs arbitrary: i)
  case (Cons x xs)
  show ?case
  proof (cases i)
    case (Suc k)
    with Cons.IH [of k] Cons.prems show ?thesis by (simp add: ac_simps)
  qed (simp add: ac_simps)
qed simp

lemma sint_word_of_int_id:
  assumes "- (2 ^ (LENGTH('a) - 1)) \<le> x" and "x < 2 ^ (LENGTH('a) - 1)"
  shows "sint (word_of_int x :: 'a::len word) = x"
  unfolding sint_sbintrunc' using assms by (rule signed_take_bit_int_eq_self)

lemma sint_shift:
  assumes "- (2 ^ (LENGTH('a) - 1)) \<le> sint w + k" and "sint w + k < 2 ^ (LENGTH('a) - 1)"
  shows "sint (w + word_of_int k :: 'a::len word) = sint w + k"
proof -
  have *: "w + word_of_int k = word_of_int (sint w + k)" by simp
  show ?thesis unfolding * by (rule sint_word_of_int_id [OF assms])
qed

lemma uint_eq_sint: "0 \<le> sint w \<Longrightarrow> uint w = sint (w :: 'a::len word)"
proof -
  assume *: "0 \<le> sint w"
  have "take_bit LENGTH('a) (sint w) = uint w"
    by transfer (simp add: take_bit_signed_take_bit)
  moreover have "take_bit LENGTH('a) (sint w) = sint w"
  proof (rule take_bit_int_eq_self [OF *])
    have "(2 :: int) ^ (LENGTH('a) - 1) \<le> 2 ^ LENGTH('a)" by (rule power_increasing) simp_all
    with sint_lt [of w] show "sint w < 2 ^ LENGTH('a)" by linarith
  qed
  ultimately show ?thesis by simp
qed

end
