(* ===== verification/Event_Queue.thy ===== *)
theory Event_Queue
  imports Prelude
begin

text \<open>
  \<open>include/queue.h\<close>: the bounded queue between the network threads and the workers.
  Every operation holds the mutex from its first access to its last, so each one is a
  function on the queue; \<open>try_pop_for\<close> releases the mutex while it waits, and the
  operations the other threads run in those gaps are its extra arguments.

  The locale \<open>bounded_fifo\<close> is the contract the collector and the processor rely on; it
  carries the first-in-first-out and the capacity results to any sequence of operations.
\<close>

section \<open>State and operations\<close>

record ts_queue =
  tsq_queue :: "bytes list"
  tsq_capacity :: u64

definition ThreadSafeQueue :: "u64 \<Rightarrow> ts_queue" where
  "ThreadSafeQueue cap = \<lparr>tsq_queue = [], tsq_capacity = cap\<rparr>"

text \<open>The overload that copies its argument, and the one that moves it.\<close>

definition try_push :: "bytes \<Rightarrow> ts_queue \<Rightarrow> bool \<times> ts_queue" where
  "try_push value q =
     (if length (tsq_queue q) \<ge> unat (tsq_capacity q) then (False, q)
      else (True, q\<lparr>tsq_queue := tsq_queue q @ [value]\<rparr>))"

definition try_push_move :: "bytes \<Rightarrow> ts_queue \<Rightarrow> bool \<times> ts_queue" where
  "try_push_move value q =
     (if length (tsq_queue q) \<ge> unat (tsq_capacity q) then (False, q)
      else (True, q\<lparr>tsq_queue := tsq_queue q @ [value]\<rparr>))"

text \<open>The reference argument \<open>data\<close> is returned: unchanged when the queue is empty.\<close>

definition try_pop :: "bytes \<Rightarrow> ts_queue \<Rightarrow> bool \<times> bytes \<times> ts_queue" where
  "try_pop data q =
     (case tsq_queue q of
        [] \<Rightarrow> (False, data, q)
      | x # xs \<Rightarrow> (True, x, q\<lparr>tsq_queue := xs\<rparr>))"

text \<open>What another thread can do to the queue in one critical section.\<close>

datatype 'a qop = Push 'a | Pop

fun run_qop :: "bytes qop \<Rightarrow> ts_queue \<Rightarrow> ts_queue" where
  "run_qop (Push v) q = snd (try_push_move v q)"
| "run_qop Pop q = snd (snd (try_pop [] q))"

definition run_qops :: "bytes qop list \<Rightarrow> ts_queue \<Rightarrow> ts_queue" where
  "run_qops ops q = fold run_qop ops q"

text \<open>
  \<open>condition_variable::wait_for\<close> with a predicate: test it, and while it fails wait, which
  gives the mutex up.  \<open>wakes\<close> holds, for each wake-up before the deadline (by
  \<open>notify_one\<close> or spurious), what the other threads did during that wait; \<open>final\<close> is what
  they did during the wait that ended at the deadline, after which the predicate is tested
  once more and its value returned.
\<close>

fun wait_for :: "(ts_queue \<Rightarrow> bool) \<Rightarrow> bytes qop list list \<Rightarrow> bytes qop list \<Rightarrow> ts_queue \<Rightarrow> bool \<times> ts_queue" where
  "wait_for pred wakes final q =
     (if pred q then (True, q)
      else (case wakes of
              [] \<Rightarrow> (let q' = run_qops final q in (pred q', q'))
            | w # ws \<Rightarrow> wait_for pred ws final (run_qops w q)))"

declare wait_for.simps [simp del]

definition try_pop_for :: "bytes qop list list \<Rightarrow> bytes qop list \<Rightarrow> ts_queue \<Rightarrow> bytes option \<times> ts_queue" where
  "try_pop_for wakes final q =
     (let (got, q') = wait_for (\<lambda>q. tsq_queue q \<noteq> []) wakes final q
      in if \<not> got then (None, q')
         else (case tsq_queue q' of
                 x # xs \<Rightarrow> (Some x, q'\<lparr>tsq_queue := xs\<rparr>)
               | [] \<Rightarrow> (None, q')))"

section \<open>Well-formed queues\<close>

definition wf_queue :: "ts_queue \<Rightarrow> bool" where
  "wf_queue q \<longleftrightarrow> length (tsq_queue q) \<le> unat (tsq_capacity q)"

section \<open>The contract of a bounded first-in-first-out buffer\<close>

text \<open>
  The history of a sequence of pushes and pops: the values that were accepted and those
  that came out, both in order, and the final buffer.
\<close>

fun history :: "('a \<Rightarrow> 'q \<Rightarrow> bool \<times> 'q) \<Rightarrow> ('q \<Rightarrow> 'a option \<times> 'q) \<Rightarrow> 'a qop list \<Rightarrow> 'q
    \<Rightarrow> 'a list \<times> 'a list \<times> 'q" where
  "history push pop [] q = ([], [], q)"
| "history push pop (Push v # ops) q =
     (let (ok, q1) = push v q; (acc, outs, q2) = history push pop ops q1
      in ((if ok then v # acc else acc), outs, q2))"
| "history push pop (Pop # ops) q =
     (let (r, q1) = pop q; (acc, outs, q2) = history push pop ops q1
      in (acc, (case r of None \<Rightarrow> outs | Some v \<Rightarrow> v # outs), q2))"

fun pushes :: "'a qop list \<Rightarrow> 'a list" where
  "pushes [] = []"
| "pushes (Push v # ops) = v # pushes ops"
| "pushes (Pop # ops) = pushes ops"

lemma pushes_shuffle: "zs \<in> shuffles xs ys \<Longrightarrow> pushes ys = [] \<Longrightarrow> pushes zs = pushes xs"
proof (induction xs ys arbitrary: zs rule: shuffles.induct)
  case (3 x xs y ys)
  then show ?case by (cases x; cases y) auto
qed auto

locale bounded_fifo =
  fixes push :: "'a \<Rightarrow> 'q \<Rightarrow> bool \<times> 'q"
    and pop :: "'q \<Rightarrow> 'a option \<times> 'q"
    and items :: "'q \<Rightarrow> 'a list"
    and cap :: "'q \<Rightarrow> nat"
  assumes push_items:
      "items (snd (push v q)) = (if length (items q) < cap q then items q @ [v] else items q)"
    and push_accepts: "fst (push v q) \<longleftrightarrow> length (items q) < cap q"
    and push_cap: "cap (snd (push v q)) = cap q"
    and pop_result: "fst (pop q) = (case items q of [] \<Rightarrow> None | x # _ \<Rightarrow> Some x)"
    and pop_items: "items (snd (pop q)) = tl (items q)"
    and pop_cap: "cap (snd (pop q)) = cap q"
begin

lemma history_fifo:
  "history push pop ops q = (acc, outs, q') \<Longrightarrow> items q @ acc = outs @ items q'"
proof (induction ops arbitrary: q acc outs)
  case (Cons x ops)
  show ?case
  proof (cases x)
    case (Push v)
    with Cons.prems obtain ok q1 acc1 where "push v q = (ok, q1)"
      and "history push pop ops q1 = (acc1, outs, q')" and "acc = (if ok then v # acc1 else acc1)"
      by (auto split: prod.splits)
    with Cons.IH [of q1 acc1 outs] push_items [of v q] push_accepts [of v q] show ?thesis
      by (auto split: if_splits)
  next
    case Pop
    with Cons.prems obtain r q1 outs1 where "pop q = (r, q1)"
      and "history push pop ops q1 = (acc, outs1, q')"
      and "outs = (case r of None \<Rightarrow> outs1 | Some v \<Rightarrow> v # outs1)"
      by (auto split: prod.splits)
    with Cons.IH [of q1 acc outs1] pop_items [of q] pop_result [of q] show ?thesis
      by (auto split: list.splits)
  qed
qed simp

text \<open>With room for all of them, no push is refused.\<close>

lemma history_accepts:
  "history push pop ops q = (acc, outs, q') \<Longrightarrow> length (items q) + length (pushes ops) \<le> cap q \<Longrightarrow> acc = pushes ops"
proof (induction ops arbitrary: q acc outs)
  case (Cons x ops)
  show ?case
  proof (cases x)
    case (Push v)
    with Cons.prems obtain ok q1 acc1 where "push v q = (ok, q1)"
      and "history push pop ops q1 = (acc1, outs, q')" and "acc = (if ok then v # acc1 else acc1)"
      by (auto split: prod.splits)
    with Cons.IH [of q1 acc1 outs] Cons.prems(2) Push push_items [of v q] push_accepts [of v q] push_cap [of v q]
    show ?thesis by auto
  next
    case Pop
    with Cons.prems obtain r q1 outs1 where "pop q = (r, q1)" "history push pop ops q1 = (acc, outs1, q')"
      by (auto split: prod.splits)
    with Cons.IH [of q1 acc outs1] Cons.prems(2) Pop pop_items [of q] pop_cap [of q] show ?thesis by auto
  qed
qed simp

lemma history_bounded:
  "history push pop ops q = (acc, outs, q') \<Longrightarrow> length (items q) \<le> cap q
    \<Longrightarrow> length (items q') \<le> cap q' \<and> cap q' = cap q"
proof (induction ops arbitrary: q acc outs)
  case (Cons x ops)
  show ?case
  proof (cases x)
    case (Push v)
    with Cons.prems obtain ok q1 acc1 where "push v q = (ok, q1)"
      and "history push pop ops q1 = (acc1, outs, q')"
      by (auto split: prod.splits)
    with Cons.IH [of q1 acc1 outs] Cons.prems(2) push_items [of v q] push_cap [of v q]
    show ?thesis by (auto split: if_splits)
  next
    case Pop
    with Cons.prems obtain r q1 outs1 where "pop q = (r, q1)"
      and "history push pop ops q1 = (acc, outs1, q')"
      by (auto split: prod.splits)
    moreover from this(1) have "length (items q1) \<le> cap q1" and "cap q1 = cap q"
      using Cons.prems(2) pop_items [of q] pop_cap [of q] by auto
    ultimately show ?thesis using Cons.IH [of q1 acc outs1] by simp
  qed
qed simp

end

section \<open>The queue keeps the contract\<close>

definition pop_item :: "ts_queue \<Rightarrow> bytes option \<times> ts_queue" where
  "pop_item q = (let (ok, x, q') = try_pop [] q in (if ok then Some x else None, q'))"

lemma try_push_move_eq [simp, ec_simps]: "try_push_move = try_push"
  by (simp add: fun_eq_iff try_push_move_def try_push_def)

lemma try_push_cases [ec_simps]:
  "fst (try_push v q) \<longleftrightarrow> length (tsq_queue q) < unat (tsq_capacity q)"
  "tsq_queue (snd (try_push v q)) =
     (if length (tsq_queue q) < unat (tsq_capacity q) then tsq_queue q @ [v] else tsq_queue q)"
  "tsq_capacity (snd (try_push v q)) = tsq_capacity q"
  by (auto simp: try_push_def)

interpretation tq: bounded_fifo try_push pop_item tsq_queue "\<lambda>q. unat (tsq_capacity q)"
  by unfold_locales
    (auto simp: try_push_def pop_item_def try_pop_def split: list.splits prod.splits)

lemma run_qop_wf [ec_inv]: "wf_queue q \<Longrightarrow> wf_queue (run_qop op q)"
  by (cases op) (auto simp: wf_queue_def try_push_def try_pop_def split: list.splits)

lemma run_qops_wf [ec_inv]: "wf_queue q \<Longrightarrow> wf_queue (run_qops ops q)"
  by (induction ops arbitrary: q) (auto simp: run_qops_def run_qop_wf)

lemma run_qops_append [simp]: "run_qops (xs @ ys) q = run_qops ys (run_qops xs q)"
  by (simp add: run_qops_def)

lemma run_qops_Nil [simp]: "run_qops [] q = q"
  by (simp add: run_qops_def)

text \<open>
  C8: the queue is first-in-first-out and bounded over every sequence of pushes and pops.
  Starting from the constructed queue, the values accepted are, in order, the values that
  came out followed by those still in the queue (nothing is lost, duplicated or reordered),
  and the queue never holds more than its capacity.
\<close>

theorem queue_fifo_bounded:
  assumes "history try_push pop_item ops (ThreadSafeQueue cap) = (accepted, popped, q)"
  shows "accepted = popped @ tsq_queue q \<and> length (tsq_queue q) \<le> unat cap"
  using tq.history_fifo [OF assms] tq.history_bounded [OF assms]
  by (simp add: ThreadSafeQueue_def)

theorem queue_fifo_bounded_witness:
  "history try_push pop_item [Push ''a'', Push ''b'', Push ''c'', Pop] (ThreadSafeQueue 2)
     = ([''a'', ''b''], [''a''], \<lparr>tsq_queue = [''b''], tsq_capacity = 2\<rparr>)
   \<and> [''a'', ''b''] = [''a''] @ tsq_queue \<lparr>tsq_queue = [''b''], tsq_capacity = 2\<rparr>
   \<and> length (tsq_queue \<lparr>tsq_queue = [''b''], tsq_capacity = 2\<rparr>) \<le> unat (2 :: u64)"
proof -
  have h: "history try_push pop_item [Push ''a'', Push ''b'', Push ''c'', Pop] (ThreadSafeQueue 2)
     = ([''a'', ''b''], [''a''], \<lparr>tsq_queue = [''b''], tsq_capacity = 2\<rparr>)"
    by (simp add: ThreadSafeQueue_def try_push_def pop_item_def try_pop_def)
  show ?thesis by (rule conjI [OF h queue_fifo_bounded [OF h]])
qed

section \<open>Waiting pops\<close>

text \<open>
  The wait ends after a prefix of the interference: the wake-ups up to the first one that
  finds the queue non-empty, or all of it when the deadline ends the wait.
\<close>

lemma wait_for_True: "pred q \<Longrightarrow> wait_for pred wakes final q = (True, q)"
  by (subst wait_for.simps) simp

lemma wait_for_deadline:
  "\<not> pred q \<Longrightarrow> wait_for pred [] final q = (pred (run_qops final q), run_qops final q)"
  by (subst wait_for.simps) (simp add: Let_def)

lemma wait_for_wake:
  "\<not> pred q \<Longrightarrow> wait_for pred (w # ws) final q = wait_for pred ws final (run_qops w q)"
  by (subst wait_for.simps) simp

lemmas wait_for_cases = wait_for_True wait_for_deadline wait_for_wake

lemma wait_for_prefix:
  "\<exists>done rest. concat wakes @ final = done @ rest \<and>
     wait_for pred wakes final q = (pred (run_qops done q), run_qops done q) \<and>
     (pred (run_qops done q) \<or> rest = [])"
proof (induction wakes arbitrary: q)
  case Nil
  show ?case
  proof (cases "pred q")
    case True
    then show ?thesis by (intro exI [of _ "[]"] exI [of _ final]) (simp add: wait_for_cases)
  next
    case False
    then show ?thesis by (intro exI [of _ final] exI [of _ "[]"]) (simp add: wait_for_cases)
  qed
next
  case (Cons w ws)
  show ?case
  proof (cases "pred q")
    case True
    then show ?thesis
      by (intro exI [of _ "[]"] exI [of _ "w @ concat ws @ final"]) (simp add: wait_for_cases)
  next
    case False
    from Cons.IH [of "run_qops w q"] obtain d rest where
      "concat ws @ final = d @ rest"
      "wait_for pred ws final (run_qops w q)
         = (pred (run_qops d (run_qops w q)), run_qops d (run_qops w q))"
      "pred (run_qops d (run_qops w q)) \<or> rest = []" by blast
    with False show ?thesis
      by (intro exI [of _ "w @ d"] exI [of _ rest]) (simp add: wait_for_cases)
  qed
qed

text \<open>
  C19: a waiting pop is an atomic pop at the moment its wait ends.  There is a prefix
  \<open>done\<close> of what the other threads do during the wait such that \<open>try_pop_for\<close> has the
  result and the effect of one non-blocking pop run right after it; it returns no value only
  when the whole wait went by and the queue is empty at the deadline.
\<close>

theorem try_pop_for_linearizes:
  "\<exists>done rest. concat wakes @ final = done @ rest \<and>
     try_pop_for wakes final q = pop_item (run_qops done q) \<and>
     (fst (try_pop_for wakes final q) = None \<longleftrightarrow>
        rest = [] \<and> tsq_queue (run_qops (concat wakes @ final) q) = [])"
proof -
  from wait_for_prefix [of wakes final "\<lambda>q. tsq_queue q \<noteq> []" q] obtain d rest where
    d: "concat wakes @ final = d @ rest"
    and w: "wait_for (\<lambda>q. tsq_queue q \<noteq> []) wakes final q
        = (tsq_queue (run_qops d q) \<noteq> [], run_qops d q)"
    and e: "tsq_queue (run_qops d q) \<noteq> [] \<or> rest = []" by blast
  from w have p: "try_pop_for wakes final q = pop_item (run_qops d q)"
    by (auto simp: try_pop_for_def pop_item_def try_pop_def split: list.splits)
  then have n: "fst (try_pop_for wakes final q) = None \<longleftrightarrow> tsq_queue (run_qops d q) = []"
    by (auto simp: pop_item_def try_pop_def split: list.splits)
  have r: "tsq_queue (run_qops d q) = [] \<longleftrightarrow>
      rest = [] \<and> tsq_queue (run_qops (concat wakes @ final) q) = []"
    using e unfolding d by (cases "rest = []") simp_all
  show ?thesis
    by (rule exI [of _ d], rule exI [of _ rest]) (intro conjI d p n [unfolded r])
qed

end
