(* ===== verification/Rate_Limiter.thy ===== *)
theory Rate_Limiter
  imports Prelude
begin

text \<open>
  \<open>include/rate_limiter.h\<close> and \<open>src/processor/rate_limiter.cpp\<close>: the per-user limit kept
  in Redis.  The Lua script of \<open>allow\<close> is source code of the program and is modelled; the
  Redis server that runs its two commands is not, so the commands and the server's state are
  arguments (\<open>redis_cmds\<close>), and so is what the connection does to one call (\<open>link\<close>).

  What the limiter relies on of Redis is stated by three predicates, each the documented
  behaviour of a command: \<open>incr_counts\<close> (INCR adds one to the key, a missing key counting
  as 0, and returns the new value), \<open>incr_keeps_ttl\<close> (INCR leaves times to live alone) and
  \<open>expire_sets\<close> (EXPIRE with a positive number of seconds, in decimal, on a key that exists
  returns 1, changes no value and sets the time to live of that key, and of no other, to that
  number).  Nothing is said of EXPIRE on a missing key, which sets nothing, with zero or fewer
  seconds, which deletes the key, or with any other argument, which fails.
\<close>

section \<open>The limiter\<close>

record rate_limiter =
  rl_host :: string
  rl_port :: int
  rl_password :: "string option"
  limit_per_min :: u64

definition WINDOW_SECS :: nat where
  "WINDOW_SECS = 60"

text \<open>The constructor; \<open>password\<close> is the value of \<open>EVENT_COLLECTOR_REDIS_PASSWORD\<close>, if set.\<close>

definition RateLimiter :: "string option \<Rightarrow> string \<Rightarrow> int \<Rightarrow> u64 \<Rightarrow> rate_limiter" where
  "RateLimiter password host port limit =
     \<lparr>rl_host = host, rl_port = port,
      rl_password = (case password of
         None \<Rightarrow> None
       | Some p \<Rightarrow> if p \<noteq> [] then Some p else None),
      limit_per_min = limit\<rparr>"

text \<open>The two Redis commands of the script, on a server state of any type.\<close>

record 'r redis_cmds =
  INCR :: "bytes \<Rightarrow> 'r \<Rightarrow> (string + int) \<times> 'r"
  EXPIRE :: "bytes \<Rightarrow> bytes \<Rightarrow> 'r \<Rightarrow> (string + int) \<times> 'r"

text \<open>The Lua script: count, and arm the window with the first count of it.\<close>

definition rate_script :: "'r redis_cmds \<Rightarrow> bytes \<Rightarrow> bytes \<Rightarrow> 'r \<Rightarrow> (string + int) \<times> 'r" where
  "rate_script cmds KEY ARGV r =
     (case INCR cmds KEY r of
        (Inl e, r1) \<Rightarrow> (Inl e, r1)
      | (Inr cnt, r1) \<Rightarrow>
          if cnt = 1
          then (case EXPIRE cmds KEY ARGV r1 of
                  (Inl e, r2) \<Rightarrow> (Inl e, r2)
                | (Inr _, r2) \<Rightarrow> (Inr cnt, r2))
          else (Inr cnt, r1))"

text \<open>
  One call of \<open>redis_->eval\<close>: the reply arrives, the server is not reached, or the script
  runs and its reply is lost; the last two raise an exception.
\<close>

datatype link = Link_ok | Link_down | Reply_lost

definition redis_eval :: "'r redis_cmds \<Rightarrow> link \<Rightarrow> bytes \<Rightarrow> bytes \<Rightarrow> 'r \<Rightarrow> (string + int) \<times> 'r" where
  "redis_eval cmds lk KEY ARGV r =
     (case lk of
        Link_ok \<Rightarrow> rate_script cmds KEY ARGV r
      | Link_down \<Rightarrow> (Inl ''connection'', r)
      | Reply_lost \<Rightarrow> (Inl ''timeout'', snd (rate_script cmds KEY ARGV r)))"

definition rate_key :: "bytes \<Rightarrow> bytes" where
  "rate_key user = ''rl:'' @ user"

text \<open>\<open>cnt\<close> is a \<open>long long\<close>, compared after a cast to \<open>uint64_t\<close>.\<close>

definition allow :: "'r redis_cmds \<Rightarrow> rate_limiter \<Rightarrow> link \<Rightarrow> bytes \<Rightarrow> 'r \<Rightarrow> bool \<times> 'r" where
  "allow cmds rl lk user r =
     (case redis_eval cmds lk (rate_key user) (show_nat WINDOW_SECS) r of
        (Inr cnt, r') \<Rightarrow> ((word_of_int cnt :: u64) \<le> limit_per_min rl, r')
      | (Inl _, r') \<Rightarrow> (True, r'))"

text \<open>The decisions on a sequence of events, each with the user it belongs to.\<close>

fun allow_all :: "'r redis_cmds \<Rightarrow> rate_limiter \<Rightarrow> bytes list \<Rightarrow> 'r \<Rightarrow> bool list \<times> 'r" where
  "allow_all cmds rl [] r = ([], r)"
| "allow_all cmds rl (u # us) r =
     (let (d, r1) = allow cmds rl Link_ok u r; (ds, r2) = allow_all cmds rl us r1 in (d # ds, r2))"

section \<open>What the limiter relies on\<close>

text \<open>\<open>val r k\<close> is the integer the server holds at \<open>k\<close> (0 when the key is missing).\<close>

definition incr_counts :: "'r redis_cmds \<Rightarrow> ('r \<Rightarrow> bytes \<Rightarrow> int) \<Rightarrow> bool" where
  "incr_counts cmds val \<longleftrightarrow>
     (\<forall>k r. val r k < 2 ^ 53 \<longrightarrow>
        fst (INCR cmds k r) = Inr (val r k + 1) \<and>
        val (snd (INCR cmds k r)) = (val r)(k := val r k + 1))"

text \<open>\<open>ttl r k\<close> is the time to live of \<open>k\<close> in seconds, if it has one.  10^9 seconds are within the range of EXPIRE.\<close>

definition incr_keeps_ttl :: "'r redis_cmds \<Rightarrow> ('r \<Rightarrow> bytes \<Rightarrow> nat option) \<Rightarrow> bool" where
  "incr_keeps_ttl cmds ttl \<longleftrightarrow> (\<forall>k r. ttl (snd (INCR cmds k r)) = ttl r)"

definition expire_sets :: "'r redis_cmds \<Rightarrow> ('r \<Rightarrow> bytes \<Rightarrow> int) \<Rightarrow> ('r \<Rightarrow> bytes \<Rightarrow> nat option) \<Rightarrow> bool" where
  "expire_sets cmds val ttl \<longleftrightarrow>
     (\<forall>k n r. 0 < n \<and> n \<le> 10 ^ 9 \<and> 0 < val r k \<longrightarrow>
        fst (EXPIRE cmds k (show_nat n) r) = Inr 1 \<and>
        val (snd (EXPIRE cmds k (show_nat n) r)) = val r \<and>
        ttl (snd (EXPIRE cmds k (show_nat n) r)) = (ttl r)(k \<mapsto> n))"

lemma rate_key_inject [simp]: "rate_key u = rate_key v \<longleftrightarrow> u = v"
  by (simp add: rate_key_def)

lemma rate_script_counts:
  assumes "incr_counts cmds val" and "incr_keeps_ttl cmds ttl" and "expire_sets cmds val ttl"
    and "0 < n" and "n \<le> 10 ^ 9" and "val r k < 2 ^ 53"
  shows "fst (rate_script cmds k (show_nat n) r) = Inr (val r k + 1)"
    and "val (snd (rate_script cmds k (show_nat n) r)) = (val r)(k := val r k + 1)"
    and "ttl (snd (rate_script cmds k (show_nat n) r)) = (if val r k = 0 then (ttl r)(k \<mapsto> n) else ttl r)"
proof -
  obtain r1 where i: "INCR cmds k r = (Inr (val r k + 1), r1)" and v: "val r1 = (val r)(k := val r k + 1)"
    using assms(1) [unfolded incr_counts_def, rule_format, OF assms(6)] by (metis prod.collapse)
  have t: "ttl r1 = ttl r" using assms(2) i unfolding incr_keeps_ttl_def by (metis snd_conv)
  have e: "fst (EXPIRE cmds k (show_nat n) r1) = Inr 1 \<and> val (snd (EXPIRE cmds k (show_nat n) r1)) = val r1 \<and>
      ttl (snd (EXPIRE cmds k (show_nat n) r1)) = (ttl r1)(k \<mapsto> n)" if "val r k = 0"
    using assms(3-5) v that by (simp add: expire_sets_def)
  show "fst (rate_script cmds k (show_nat n) r) = Inr (val r k + 1)"
    "val (snd (rate_script cmds k (show_nat n) r)) = (val r)(k := val r k + 1)"
    "ttl (snd (rate_script cmds k (show_nat n) r)) = (if val r k = 0 then (ttl r)(k \<mapsto> n) else ttl r)"
    using e by (auto simp: rate_script_def i v t split: prod.splits sum.splits)
qed

lemma window_in_range: "0 < WINDOW_SECS" "WINDOW_SECS \<le> 10 ^ 9"
  by (simp_all add: WINDOW_SECS_def)

lemma count_fits:
  assumes "0 \<le> x" and "x \<le> 2 ^ 53"
  shows "(word_of_int x :: u64) \<le> l \<longleftrightarrow> nat x \<le> unat l"
proof -
  have "uint (word_of_int x :: u64) = x"
    unfolding uint_word_of_int using assms by (intro mod_pos_pos_trivial) simp_all
  then have "(word_of_int x :: u64) \<le> l \<longleftrightarrow> x \<le> uint l"
    by (simp add: word_le_def)
  also have "\<dots> \<longleftrightarrow> nat x \<le> unat l"
    by (simp only: nat_le_iff uint_nat)
  finally show ?thesis .
qed

lemma allow_counts:
  assumes "incr_counts cmds val" and "incr_keeps_ttl cmds ttl" and "expire_sets cmds val ttl"
    and "0 \<le> val r (rate_key u)" and "val r (rate_key u) < 2 ^ 53"
  shows "fst (allow cmds rl Link_ok u r) \<longleftrightarrow> nat (val r (rate_key u)) < unat (limit_per_min rl)"
    and "val (snd (allow cmds rl Link_ok u r)) = (val r)(rate_key u := val r (rate_key u) + 1)"
    and "ttl (snd (allow cmds rl Link_ok u r)) =
      (if val r (rate_key u) = 0 then (ttl r)(rate_key u \<mapsto> WINDOW_SECS) else ttl r)"
proof -
  let ?c = "val r (rate_key u) + 1"
  note script = rate_script_counts [OF assms(1-3) window_in_range assms(5)]
  obtain r' where s: "rate_script cmds (rate_key u) (show_nat WINDOW_SECS) r = (Inr ?c, r')"
    using script(1) by (metis prod.collapse)
  have "nat ?c \<le> unat (limit_per_min rl) \<longleftrightarrow> nat (val r (rate_key u)) < unat (limit_per_min rl)"
    using assms(4) by linarith
  with s count_fits [of ?c "limit_per_min rl"] assms(4,5)
  show "fst (allow cmds rl Link_ok u r) \<longleftrightarrow> nat (val r (rate_key u)) < unat (limit_per_min rl)"
    by (simp add: allow_def redis_eval_def del: of_int_add)
  show "val (snd (allow cmds rl Link_ok u r)) = (val r)(rate_key u := ?c)"
    "ttl (snd (allow cmds rl Link_ok u r)) =
      (if val r (rate_key u) = 0 then (ttl r)(rate_key u \<mapsto> WINDOW_SECS) else ttl r)"
    using script(2,3) by (simp_all add: allow_def redis_eval_def s)
qed

section \<open>The limit per window\<close>

text \<open>
  The decisions of user \<open>u\<close> among those of all the events.
\<close>

definition passed :: "bytes \<Rightarrow> bytes list \<Rightarrow> bool list \<Rightarrow> nat" where
  "passed u us ds = length (filter (\<lambda>(v, d). v = u \<and> d) (zip us ds))"

lemma passed_Cons [simp]:
  "passed u (v # us) (d # ds) = (if v = u \<and> d then 1 else 0) + passed u us ds"
  by (simp add: passed_def)

lemma min_budget: "n < m \<Longrightarrow> Suc (min c (m - Suc n)) = min (Suc c) (m - n)" for n m c :: nat
  by (simp add: min_def) linarith

text \<open>A state in which \<open>n\<close> more events can be counted and every counted user's key has the window's time to live.\<close>

definition in_window :: "('r \<Rightarrow> bytes \<Rightarrow> int) \<Rightarrow> ('r \<Rightarrow> bytes \<Rightarrow> nat option) \<Rightarrow> nat \<Rightarrow> 'r \<Rightarrow> bool" where
  "in_window val ttl n r \<longleftrightarrow>
     (\<forall>v. 0 \<le> val r (rate_key v) \<and> val r (rate_key v) + int n \<le> 2 ^ 53 \<and>
        (0 < val r (rate_key v) \<longrightarrow> ttl r (rate_key v) = Some WINDOW_SECS))"

lemma allow_in_window:
  assumes "incr_counts cmds val" and "incr_keeps_ttl cmds ttl" and "expire_sets cmds val ttl"
    and w: "in_window val ttl (Suc n) r" and a: "allow cmds rl Link_ok u r = (d, r1)"
  shows "in_window val ttl n r1" and "d \<longleftrightarrow> nat (val r (rate_key u)) < unat (limit_per_min rl)"
    and "val r1 = (val r)(rate_key u := val r (rate_key u) + 1)"
proof -
  have k: "0 \<le> val r (rate_key v)" "val r (rate_key v) < 2 ^ 53" "val r (rate_key v) + 1 + int n \<le> 2 ^ 53"
    "0 < val r (rate_key v) \<Longrightarrow> ttl r (rate_key v) = Some WINDOW_SECS" for v
    using w [unfolded in_window_def, rule_format, of v] by simp_all
  note c = allow_counts [OF assms(1-3) k(1,2), of rl u, unfolded a fst_conv snd_conv]
  show "d \<longleftrightarrow> nat (val r (rate_key u)) < unat (limit_per_min rl)"
    and v: "val r1 = (val r)(rate_key u := val r (rate_key u) + 1)" by (rule c)+
  show "in_window val ttl n r1"
    unfolding in_window_def
  proof
    fix v
    show "0 \<le> val r1 (rate_key v) \<and> val r1 (rate_key v) + int n \<le> 2 ^ 53 \<and>
        (0 < val r1 (rate_key v) \<longrightarrow> ttl r1 (rate_key v) = Some WINDOW_SECS)"
      using k [of v] k(1,4) [of u] by (auto simp: c(2,3))
  qed
qed

lemma allow_all_passed:
  assumes "incr_counts cmds val" and "incr_keeps_ttl cmds ttl" and "expire_sets cmds val ttl"
    and "in_window val ttl (length us) r"
  shows "passed u us (fst (allow_all cmds rl us r)) =
      min (count_list us u) (unat (limit_per_min rl) - nat (val r (rate_key u))) \<and>
    (u \<in> set us \<or> 0 < val r (rate_key u) \<longrightarrow> ttl (snd (allow_all cmds rl us r)) (rate_key u) = Some WINDOW_SECS)"
  using assms(4)
proof (induction us arbitrary: r)
  case Nil
  then show ?case by (simp add: passed_def in_window_def)
next
  case (Cons v us)
  obtain d r1 where a: "allow cmds rl Link_ok v r = (d, r1)" by fastforce
  have "in_window val ttl (Suc (length us)) r" using Cons.prems by simp
  note c = allow_in_window [OF assms(1-3) this a]
  have k: "0 \<le> val r (rate_key v)" using Cons.prems by (simp add: in_window_def)
  note IH = Cons.IH [OF c(1)]
  have "passed u (v # us) (fst (allow_all cmds rl (v # us) r)) =
      min (count_list (v # us) u) (unat (limit_per_min rl) - nat (val r (rate_key u)))"
    using a c(2) k conjunct1 [OF IH] by (auto simp: c(3) Let_def nat_add_distrib min_budget split: prod.splits)
  moreover have "ttl (snd (allow_all cmds rl (v # us) r)) (rate_key u) = Some WINDOW_SECS"
    if "u \<in> set (v # us) \<or> 0 < val r (rate_key u)"
  proof -
    have "u \<in> set us \<or> 0 < val r1 (rate_key u)" using that k by (auto simp: c(3))
    with IH a show ?thesis by (auto simp: Let_def split: prod.splits)
  qed
  ultimately show ?case by blast
qed

text \<open>
  C12: within one window, exactly the first \<open>limit\<close> events of each user pass.  With a Redis
  whose INCR and EXPIRE do what is documented, from a state in which no user has been counted
  yet, any interleaving of the events of any number of users lets through, for each user,
  the smaller of that user's number of events and the limit; and the counter of every user who
  sent an event is left with the time to live the first of them gave it, 60 seconds, which is
  what ends the window.
\<close>

theorem limit_per_window:
  assumes "incr_counts cmds val" and "incr_keeps_ttl cmds ttl" and "expire_sets cmds val ttl"
    and "\<And>v. val r (rate_key v) = 0" and "int (length us) \<le> 2 ^ 53"
  shows "passed u us (fst (allow_all cmds rl us r)) = min (count_list us u) (unat (limit_per_min rl)) \<and>
    (u \<in> set us \<longrightarrow> ttl (snd (allow_all cmds rl us r)) (rate_key u) = Some 60)"
  using allow_all_passed [OF assms(1-3), of us r u rl] assms(4,5) by (simp add: in_window_def WINDOW_SECS_def)

text \<open>
  A server that holds one integer and one time to live per key; its EXPIRE also does what Redis
  does on a missing key, on zero seconds and on an argument that is no number.
\<close>

type_synonym mem_redis = "(bytes \<Rightarrow> int) \<times> (bytes \<Rightarrow> nat option)"

definition mem_cmds :: "mem_redis redis_cmds" where
  "mem_cmds = \<lparr>INCR = (\<lambda>k (v, a). (Inr (v k + 1), (v(k := v k + 1), a))),
     EXPIRE = (\<lambda>k t (v, a).
       if t = [] \<or> \<not> list_all is_digit t then (Inl ''ERR value is not an integer or out of range'', (v, a))
       else if v k = 0 then (Inr 0, (v, a))
       else if digits_value t = 0 then (Inr 1, (v(k := 0), a(k := None)))
       else (Inr 1, (v, a(k \<mapsto> digits_value t))))\<rparr>"

lemma mem_cmds_ok: "incr_counts mem_cmds fst" "incr_keeps_ttl mem_cmds snd" "expire_sets mem_cmds fst snd"
  by (auto simp: incr_counts_def incr_keeps_ttl_def expire_sets_def mem_cmds_def show_nat_digits)

theorem limit_per_window_witness:
  "let r = allow_all mem_cmds (RateLimiter None ''127.0.0.1'' 6379 2) [''a'', ''b'', ''a'', ''a''] (\<lambda>_. 0, \<lambda>_. None)
   in passed ''a'' [''a'', ''b'', ''a'', ''a''] (fst r) = 2 \<and> snd (snd r) (rate_key ''a'') = Some 60"
  using limit_per_window [OF mem_cmds_ok, of "(\<lambda>_. 0, \<lambda>_. None)"
      "[''a'', ''b'', ''a'', ''a'']" "''a''" "RateLimiter None ''127.0.0.1'' 6379 2"]
  by (simp add: RateLimiter_def Let_def)

section \<open>Failing open\<close>

text \<open>
  C34: the limiter never rejects on a failure.  A rejection means that the call reached the
  server, that both commands of the script succeeded and that the count, as an unsigned
  64-bit number, is above the limit; every exception lets the event through.
\<close>

theorem reject_only_on_count:
  assumes "\<not> fst (allow cmds rl lk u r)"
  shows "lk = Link_ok \<and>
    (\<exists>cnt. fst (rate_script cmds (rate_key u) ''60'' r) = Inr cnt \<and>
       limit_per_min rl < word_of_int cnt)"
proof -
  have "show_nat WINDOW_SECS = ''60''"
    by code_simp
  with assms show ?thesis
    by (cases lk; cases "rate_script cmds (rate_key u) ''60'' r")
       (auto simp: allow_def redis_eval_def split: sum.splits)
qed

theorem reject_only_on_count_witness:
  "\<not> fst (allow mem_cmds (RateLimiter None ''h'' 6379 0) Link_ok ''u'' (\<lambda>_. 0, \<lambda>_. None)) \<and>
   (\<exists>cnt. fst (rate_script mem_cmds (rate_key ''u'') ''60'' (\<lambda>_. 0, \<lambda>_. None)) = Inr cnt)"
proof -
  have n: "\<not> fst (allow mem_cmds (RateLimiter None ''h'' 6379 0) Link_ok ''u'' (\<lambda>_. 0, \<lambda>_. None))"
    by (simp add: allow_def redis_eval_def rate_script_def mem_cmds_def RateLimiter_def show_nat_digits)
  from n reject_only_on_count [OF n] show ?thesis by blast
qed

section \<open>Every window ends\<close>

text \<open>
  C35: no counter is left without an expiry.  If every counted key has a time to live of at most
  the window of 60 seconds, then this still holds after any call of \<open>allow\<close>, whatever its
  connection does, and a key the call counts for the first time has the whole window; so a user
  who has reached the limit is not shut out for ever.
\<close>

theorem counters_expire:
  assumes "incr_counts cmds val" and "incr_keeps_ttl cmds ttl" and "expire_sets cmds val ttl"
    and "\<And>k. 0 \<le> val r k" and "val r (rate_key u) < 2 ^ 53"
    and "\<And>k. 0 < val r k \<Longrightarrow> \<exists>t. ttl r k = Some t \<and> 0 < t \<and> t \<le> 60"
    and "0 < val (snd (allow cmds rl lk u r)) k"
  shows "(\<exists>t. ttl (snd (allow cmds rl lk u r)) k = Some t \<and> 0 < t \<and> t \<le> 60) \<and>
    (val r k = 0 \<longrightarrow> ttl (snd (allow cmds rl lk u r)) k = Some 60)"
proof -
  let ?k = "rate_key u" and ?t = "show_nat WINDOW_SECS"
  note script = rate_script_counts [OF assms(1-3) window_in_range assms(5)]
  have "snd (allow cmds rl lk u r) \<in> {r, snd (rate_script cmds ?k ?t r)}"
    by (cases lk) (auto simp: allow_def redis_eval_def split: prod.splits sum.splits)
  with assms(4) [of ?k] assms(6) [of k] assms(6) [of ?k] assms(7) show ?thesis
    by (auto simp: script(2,3) split: if_splits) (simp_all add: WINDOW_SECS_def)
qed

theorem counters_expire_witness:
  "snd (snd (allow mem_cmds (RateLimiter None ''h'' 6379 2) Reply_lost ''u'' (\<lambda>_. 0, \<lambda>_. None))) (rate_key ''u'') = Some 60"
proof -
  let ?r = "(\<lambda>_. 0, \<lambda>_. None) :: mem_redis"
  have "0 < fst (snd (allow mem_cmds (RateLimiter None ''h'' 6379 2) Reply_lost ''u'' ?r)) (rate_key ''u'')"
    by (simp add: allow_def redis_eval_def rate_script_def mem_cmds_def show_nat_digits WINDOW_SECS_def)
  from counters_expire [OF mem_cmds_ok _ _ _ this] show ?thesis by simp
qed

end
