(* ===== verification/Validation.thy ===== *)
theory Validation
  imports Prelude
begin

text \<open>
  \<open>proto/event.proto\<close> and \<open>src/processor/validation.cpp\<close>: the event message and the check
  of its fields.  \<open>ts\<close> is an \<open>int64\<close> in milliseconds.  The clock is an argument: the value
  \<open>std::time(nullptr)\<close> returns, a signed 64-bit number of seconds, on which the code computes
  at that width.  The check is compared with a specification over the integers.
\<close>

section \<open>The event message\<close>

record event =
  event_id :: bytes
  user_id :: bytes
  platform :: bytes
  event_type :: bytes
  ts :: i64
  payload :: bytes

section \<open>The check\<close>

definition validate_event :: "i64 \<Rightarrow> event \<Rightarrow> bool" where
  "validate_event time evt =
     (if user_id evt = [] \<or> length (user_id evt) > 256 then False
      else if event_type evt = [] \<or> length (event_type evt) > 256 then False
      else if length (platform evt) > 64 then False
      else if length (payload evt) > 65536 then False
      else if sint (ts evt) \<le> 0 then False
      else let now = time * 1000
           in if sint (ts evt) < sint (now - 86400000 * 30) then False
              else if sint (ts evt) > sint (now + 86400000 * 1) then False
              else True)"

section \<open>What it decides\<close>

text \<open>
  The specification: identifiers of 1 to 256 bytes, a
  platform of at most 64, a payload of at most 64 KiB, a positive time stamp no older than
  30 days and no more than one day ahead.
\<close>

definition fields_in_range :: "event \<Rightarrow> bool" where
  "fields_in_range evt \<longleftrightarrow>
     length (user_id evt) \<in> {1..256} \<and> length (event_type evt) \<in> {1..256} \<and>
     length (platform evt) \<le> 64 \<and> length (payload evt) \<le> 65536"

definition ts_in_window :: "int \<Rightarrow> int \<Rightarrow> bool" where
  "ts_in_window now_ms t \<longleftrightarrow> 0 < t \<and> now_ms - 30 * 86400000 \<le> t \<and> t \<le> now_ms + 86400000"

text \<open>The clock values on which the signed arithmetic of the check does not overflow.\<close>

definition clock_ok :: "i64 \<Rightarrow> bool" where
  "clock_ok time \<longleftrightarrow>
     - (2 ^ 63) \<le> sint time * 1000 - 2592000000 \<and> sint time * 1000 + 86400000 < 2 ^ 63"

lemma window_bounds:
  assumes "clock_ok time"
  shows "sint (time * 1000 - 2592000000) = sint time * 1000 - 2592000000"
    and "sint (time * 1000 + 86400000) = sint time * 1000 + 86400000"
proof -
  have w: "time * 1000 - 2592000000 = word_of_int (sint time * 1000 - 2592000000)"
    "time * 1000 + 86400000 = word_of_int (sint time * 1000 + 86400000)"
    by simp_all
  from assms show "sint (time * 1000 - 2592000000) = sint time * 1000 - 2592000000"
    unfolding w(1) clock_ok_def by (intro sint_word_of_int_id) simp_all
  from assms show "sint (time * 1000 + 86400000) = sint time * 1000 + 86400000"
    unfolding w(2) clock_ok_def by (intro sint_word_of_int_id) simp_all
qed

text \<open>
  C20: the check decides the field limits and the time window.  For every clock value on
  which the 64-bit arithmetic does not overflow, an event is accepted exactly when its
  fields are within their limits and its time stamp is positive and lies, over the integers,
  between 30 days before and one day after the clock, both ends included.
\<close>

theorem validate_event_iff:
  assumes "clock_ok time"
  shows "validate_event time evt \<longleftrightarrow>
    fields_in_range evt \<and> ts_in_window (sint time * 1000) (sint (ts evt))"
  using window_bounds [OF assms]
  by (auto simp: validate_event_def fields_in_range_def ts_in_window_def Let_def Suc_le_eq)

definition sample_event :: event where
  "sample_event = \<lparr>event_id = ''evt_001'', user_id = ''user_42'', platform = ''web'',
     event_type = ''click'', ts = 1779000000000, payload = ''page''\<rparr>"

theorem validate_event_iff_witness:
  "clock_ok 1779000000 \<and> validate_event 1779000000 sample_event \<and>
   \<not> validate_event 1779000000 (sample_event\<lparr>ts := 1779086400001\<rparr>)"
proof -
  have c: "clock_ok 1779000000" by (simp add: clock_ok_def)
  from c validate_event_iff [OF c, of sample_event]
    validate_event_iff [OF c, of "sample_event\<lparr>ts := 1779086400001\<rparr>"]
  show ?thesis
    by (simp add: fields_in_range_def ts_in_window_def sample_event_def)
qed

text \<open>
  An accepted event has a positive time stamp, so the unsigned column it is stored in
  holds the same number.
\<close>

lemma valid_ts_unsigned:
  assumes "validate_event time evt"
  shows "uint (ts evt) = sint (ts evt)" and "0 < sint (ts evt)"
  using assms by (auto simp: validate_event_def intro: uint_eq_sint split: if_splits)

lemma valid_user_nonempty: "validate_event time evt \<Longrightarrow> user_id evt \<noteq> []"
  by (auto simp: validate_event_def)

end
