(* ===== verification/Metrics.thy ===== *)
theory Metrics
  imports Prelude
begin

text \<open>
  \<open>include/metrics.h\<close>: the twelve atomic 64-bit counters that every component shares.
  A counter is addressed by its member name; \<open>fetch_add\<close> and \<open>load\<close> are the two atomic
  operations the code performs on it (\<open>fetch_add\<close> wraps modulo \<open>2^64\<close>).

  The interface the other components rely on is the locale \<open>counter_bank\<close>: what a load
  returns after an addition, and that the counters are all there is to the structure.
\<close>

section \<open>The structure\<close>

datatype counter =
    Total_received | Total_parsed | Total_valid | Total_invalid | Total_parse_fail
  | Total_rate_limited | Total_kafka_ok | Total_kafka_fail | Total_stored
  | Total_store_fail | Total_store_dead | Total_queue_drop

record metrics =
  total_received :: u64
  total_parsed :: u64
  total_valid :: u64
  total_invalid :: u64
  total_parse_fail :: u64
  total_rate_limited :: u64
  total_kafka_ok :: u64
  total_kafka_fail :: u64
  total_stored :: u64
  total_store_fail :: u64
  total_store_dead :: u64
  total_queue_drop :: u64

definition Metrics_init :: metrics where
  "Metrics_init = \<lparr>total_received = 0, total_parsed = 0, total_valid = 0, total_invalid = 0,
     total_parse_fail = 0, total_rate_limited = 0, total_kafka_ok = 0, total_kafka_fail = 0,
     total_stored = 0, total_store_fail = 0, total_store_dead = 0, total_queue_drop = 0\<rparr>"

fun load :: "counter \<Rightarrow> metrics \<Rightarrow> u64" where
  "load Total_received m = total_received m"
| "load Total_parsed m = total_parsed m"
| "load Total_valid m = total_valid m"
| "load Total_invalid m = total_invalid m"
| "load Total_parse_fail m = total_parse_fail m"
| "load Total_rate_limited m = total_rate_limited m"
| "load Total_kafka_ok m = total_kafka_ok m"
| "load Total_kafka_fail m = total_kafka_fail m"
| "load Total_stored m = total_stored m"
| "load Total_store_fail m = total_store_fail m"
| "load Total_store_dead m = total_store_dead m"
| "load Total_queue_drop m = total_queue_drop m"

fun fetch_add :: "counter \<Rightarrow> u64 \<Rightarrow> metrics \<Rightarrow> metrics" where
  "fetch_add Total_received n m = m\<lparr>total_received := total_received m + n\<rparr>"
| "fetch_add Total_parsed n m = m\<lparr>total_parsed := total_parsed m + n\<rparr>"
| "fetch_add Total_valid n m = m\<lparr>total_valid := total_valid m + n\<rparr>"
| "fetch_add Total_invalid n m = m\<lparr>total_invalid := total_invalid m + n\<rparr>"
| "fetch_add Total_parse_fail n m = m\<lparr>total_parse_fail := total_parse_fail m + n\<rparr>"
| "fetch_add Total_rate_limited n m = m\<lparr>total_rate_limited := total_rate_limited m + n\<rparr>"
| "fetch_add Total_kafka_ok n m = m\<lparr>total_kafka_ok := total_kafka_ok m + n\<rparr>"
| "fetch_add Total_kafka_fail n m = m\<lparr>total_kafka_fail := total_kafka_fail m + n\<rparr>"
| "fetch_add Total_stored n m = m\<lparr>total_stored := total_stored m + n\<rparr>"
| "fetch_add Total_store_fail n m = m\<lparr>total_store_fail := total_store_fail m + n\<rparr>"
| "fetch_add Total_store_dead n m = m\<lparr>total_store_dead := total_store_dead m + n\<rparr>"
| "fetch_add Total_queue_drop n m = m\<lparr>total_queue_drop := total_queue_drop m + n\<rparr>"

text \<open>A thread's accesses to the counters, in the order the thread makes them.\<close>

type_synonym add_op = "counter \<times> u64"

definition run_adds :: "add_op list \<Rightarrow> metrics \<Rightarrow> metrics" where
  "run_adds ops m = fold (\<lambda>(c, n). fetch_add c n) ops m"

section \<open>The counters as a finite type\<close>

instantiation counter :: enum
begin

definition enum_counter :: "counter list" where
  "enum_counter = [Total_received, Total_parsed, Total_valid, Total_invalid, Total_parse_fail,
     Total_rate_limited, Total_kafka_ok, Total_kafka_fail, Total_stored, Total_store_fail,
     Total_store_dead, Total_queue_drop]"

definition enum_all_counter :: "(counter \<Rightarrow> bool) \<Rightarrow> bool" where
  "enum_all_counter P \<longleftrightarrow> list_all P enum_class.enum"

definition enum_ex_counter :: "(counter \<Rightarrow> bool) \<Rightarrow> bool" where
  "enum_ex_counter P \<longleftrightarrow> list_ex P enum_class.enum"

instance proof
  show *: "(UNIV :: counter set) = set enum_class.enum"
    by (auto simp: enum_counter_def intro: counter.exhaust)
  show "distinct (enum_class.enum :: counter list)"
    by (simp add: enum_counter_def)
  show "enum_class.enum_all P \<longleftrightarrow> Ball UNIV P" for P :: "counter \<Rightarrow> bool"
    by (simp add: * enum_all_counter_def list_all_iff)
  show "enum_class.enum_ex P \<longleftrightarrow> Bex UNIV P" for P :: "counter \<Rightarrow> bool"
    by (simp add: * enum_ex_counter_def list_ex_iff)
qed

end

section \<open>The interface of a bank of counters\<close>

locale counter_bank =
  fixes ld :: "'c \<Rightarrow> 'm \<Rightarrow> u64"
    and add :: "'c \<Rightarrow> u64 \<Rightarrow> 'm \<Rightarrow> 'm"
  assumes ld_add: "ld c (add d n m) = (if c = d then ld c m + n else ld c m)"
    and bank_ext: "(\<And>c. ld c m = ld c m') \<Longrightarrow> m = m'"
begin

lemma add_commute: "add c n (add d k m) = add d k (add c n m)"
  by (rule bank_ext) (simp add: ld_add add_ac)

lemma ld_fold_adds:
  "ld c (fold (\<lambda>(d, n). add d n) ops m) = ld c m + (\<Sum>(d, n) \<leftarrow> ops. if d = c then n else 0)"
  by (induction ops arbitrary: m) (auto simp: ld_add add_ac)

lemma fold_adds_perm:
  assumes "mset xs = mset ys"
  shows "fold (\<lambda>(d, n). add d n) xs m = fold (\<lambda>(d, n). add d n) ys m"
proof (rule bank_ext)
  fix c
  have "(\<Sum>(d, n) \<leftarrow> xs. if d = c then n else 0) = (\<Sum>(d, n) \<leftarrow> ys. if d = c then n else 0)"
    by (simp only: sum_mset_sum_list [symmetric] mset_map assms)
  then show "ld c (fold (\<lambda>(d, n). add d n) xs m) = ld c (fold (\<lambda>(d, n). add d n) ys m)"
    by (simp add: ld_fold_adds)
qed

end

lemma load_fetch_add [simp, ec_simps]:
  "load c (fetch_add d n m) = (if c = d then load c m + n else load c m)"
  by (cases d; cases c) simp_all

declare load.simps [simp del] fetch_add.simps [simp del]

lemma metrics_eq_load:
  assumes "\<And>c. load c m = load c m'"
  shows "m = m'"
proof (rule metrics.equality)
  note load.simps [simp]
  show "total_received m = total_received m'" using assms [of Total_received] by simp
  show "total_parsed m = total_parsed m'" using assms [of Total_parsed] by simp
  show "total_valid m = total_valid m'" using assms [of Total_valid] by simp
  show "total_invalid m = total_invalid m'" using assms [of Total_invalid] by simp
  show "total_parse_fail m = total_parse_fail m'" using assms [of Total_parse_fail] by simp
  show "total_rate_limited m = total_rate_limited m'" using assms [of Total_rate_limited] by simp
  show "total_kafka_ok m = total_kafka_ok m'" using assms [of Total_kafka_ok] by simp
  show "total_kafka_fail m = total_kafka_fail m'" using assms [of Total_kafka_fail] by simp
  show "total_stored m = total_stored m'" using assms [of Total_stored] by simp
  show "total_store_fail m = total_store_fail m'" using assms [of Total_store_fail] by simp
  show "total_store_dead m = total_store_dead m'" using assms [of Total_store_dead] by simp
  show "total_queue_drop m = total_queue_drop m'" using assms [of Total_queue_drop] by simp
qed simp

interpretation mb: counter_bank load fetch_add
  by unfold_locales (auto intro: metrics_eq_load)

lemma load_Metrics_init [simp, ec_simps]: "load c Metrics_init = 0"
  by (cases c) (simp_all add: Metrics_init_def load.simps)

lemma load_run_adds:
  "load c (run_adds ops m) = load c m + (\<Sum>(d, n) \<leftarrow> ops. if d = c then n else 0)"
  unfolding run_adds_def by (rule mb.ld_fold_adds)

lemma run_adds_append [simp]: "run_adds (xs @ ys) m = run_adds ys (run_adds xs m)"
  by (simp add: run_adds_def)

end
