(* ===== verification/Cpp_Numbers.thy ===== *)
theory Cpp_Numbers
  imports Prelude
begin

text \<open>
  The number conversions of the C++ standard library that the program applies to environment
  variables: \<open>std::stoi\<close> and \<open>std::stoull\<close> (base 10), with their two exceptions, and the
  decimal text of a signed value.  Both conversions skip leading white space, accept a sign,
  read the longest run of digits and ignore what follows.
\<close>

datatype std_exn = Invalid_argument | Out_of_range

definition is_space :: "char \<Rightarrow> bool" where
  "is_space c \<longleftrightarrow> of_char c = (32 :: nat) \<or> (9 \<le> (of_char c :: nat) \<and> (of_char c :: nat) \<le> 13)"

definition minus_char :: char where
  "minus_char = CHR 0x2D"

definition plus_char :: char where
  "plus_char = CHR 0x2B"

text \<open>The sign and the digits that \<open>strtol\<close> and \<open>strtoull\<close> read.\<close>

fun split_sign :: "string \<Rightarrow> bool \<times> string" where
  "split_sign [] = (False, [])"
| "split_sign (c # cs) =
     (if c = minus_char then (True, cs) else if c = plus_char then (False, cs) else (False, c # cs))"

definition read_digits :: "string \<Rightarrow> bool \<times> string" where
  "read_digits s = (let (neg, r) = split_sign (dropWhile is_space s) in (neg, takeWhile is_digit r))"

definition stoi :: "string \<Rightarrow> std_exn + int" where
  "stoi s =
     (let (neg, ds) = read_digits s
      in if ds = [] then Inl Invalid_argument
         else let x = (if neg then - int (digits_value ds) else int (digits_value ds))
              in if x < - (2 ^ 31) \<or> 2 ^ 31 \<le> x then Inl Out_of_range else Inr x)"

text \<open>\<open>strtoull\<close> negates modulo \<open>2^64\<close> when it reads a minus sign.\<close>

definition stoull :: "string \<Rightarrow> std_exn + u64" where
  "stoull s =
     (let (neg, ds) = read_digits s
      in if ds = [] then Inl Invalid_argument
         else if 2 ^ 64 \<le> digits_value ds then Inl Out_of_range
         else Inr (if neg then - of_nat (digits_value ds) else of_nat (digits_value ds)))"

definition show_int :: "int \<Rightarrow> string" where
  "show_int x = (if x < 0 then minus_char # show_nat (nat (- x)) else show_nat (nat x))"

section \<open>Reading back what was printed\<close>

lemma digit_not_space [simp]: "is_digit c \<Longrightarrow> \<not> is_space c"
  by (auto simp: is_digit_def is_space_def)

lemma digit_not_sign [simp]: "is_digit c \<Longrightarrow> c \<noteq> minus_char \<and> c \<noteq> plus_char"
  by (auto simp: is_digit_def minus_char_def plus_char_def)

lemma minus_not_space [simp]: "\<not> is_space minus_char"
  by (simp add: is_space_def minus_char_def)

lemma takeWhile_digits:
  assumes "list_all is_digit ds" and "rest = [] \<or> \<not> is_digit (hd rest)"
  shows "takeWhile is_digit (ds @ rest) = ds"
  using assms by (cases rest) (auto simp: list_all_iff takeWhile_append)

lemma read_digits_nat:
  assumes "rest = [] \<or> \<not> is_digit (hd rest)"
  shows "read_digits (show_nat n @ rest) = (False, show_nat n)"
proof -
  obtain c cs where s: "show_nat n = c # cs" by (cases "show_nat n") auto
  have "is_digit c" using show_nat_digits [of n] s by simp
  then have "split_sign (dropWhile is_space (show_nat n @ rest)) = (False, show_nat n @ rest)"
    using s by simp
  then show ?thesis
    using takeWhile_digits [OF show_nat_digits assms, of n] by (simp add: read_digits_def)
qed

lemma read_digits_neg:
  assumes "rest = [] \<or> \<not> is_digit (hd rest)"
  shows "read_digits (minus_char # show_nat n @ rest) = (True, show_nat n)"
  using takeWhile_digits [OF show_nat_digits assms, of n] by (simp add: read_digits_def)

lemma stoi_show_int:
  assumes "- (2 ^ 31) \<le> x" and "x < 2 ^ 31" and "rest = [] \<or> \<not> is_digit (hd rest)"
  shows "stoi (show_int x @ rest) = Inr x"
  using assms(1,2) read_digits_nat [OF assms(3), of "nat x"] read_digits_neg [OF assms(3), of "nat (- x)"]
  by (auto simp: stoi_def show_int_def Let_def)

lemma stoull_show_nat:
  assumes "n < 2 ^ 64" and "rest = [] \<or> \<not> is_digit (hd rest)"
  shows "stoull (show_nat n @ rest) = Inr (of_nat n)"
  using assms(1) read_digits_nat [OF assms(2), of n] by (simp add: stoull_def)

lemma stoi_range: "stoi s = Inr x \<Longrightarrow> - (2 ^ 31) \<le> x \<and> x < 2 ^ 31"
  by (auto simp: stoi_def Let_def split: prod.splits if_splits)

end
