(* ===== verification/Dead_Letter.thy ===== *)
theory Dead_Letter
  imports Metrics Cpp_Numbers
begin

text \<open>
  \<open>Storage::write_dead_letter\<close> of \<open>src/processor/storage.cpp\<close>: the file that takes a batch
  ClickHouse refused.  The calls it makes (\<open>stat\<close>, \<open>rename\<close>, an appending \<open>ofstream\<close>) act
  on a file system from names to contents.  What the machine does to one call of the function
  is the argument \<open>dl_env\<close>: the clock, whether the rename and the open succeed, and how many
  bytes the device still takes (the code does not look at the state of the stream, so bytes
  beyond that are dropped silently).
\<close>

section \<open>Files and the function\<close>

type_synonym file_sys = "string \<Rightarrow> bytes option"

record dl_env =
  dl_time :: int
  dl_rename :: bool
  dl_open :: bool
  dl_room :: nat

text \<open>The separator written after each event: newline, three dashes, newline.\<close>

definition dl_sep :: bytes where
  "dl_sep = [newline] @ ''---'' @ [newline]"

definition log_path :: string where
  "log_path = ''dead_letter.log''"

definition fs_rename :: "string \<Rightarrow> string \<Rightarrow> file_sys \<Rightarrow> file_sys" where
  "fs_rename a b fs = (fs(b := fs a))(a := None)"

definition rotated_path :: "int \<Rightarrow> string" where
  "rotated_path t = log_path @ ''.'' @ show_int t"

text \<open>The rotation: a log above 100 MiB is renamed; the result of the rename is ignored.\<close>

definition rotate_log :: "dl_env \<Rightarrow> file_sys \<Rightarrow> file_sys" where
  "rotate_log env fs =
     (case fs log_path of
        None \<Rightarrow> fs
      | Some content \<Rightarrow>
          if length content > 100 * 1024 * 1024
          then (if dl_rename env then fs_rename log_path (rotated_path (dl_time env)) fs else fs)
          else fs)"

text \<open>What the loop over the batch sends to the stream.\<close>

fun dl_text :: "bytes list \<Rightarrow> bytes" where
  "dl_text [] = []"
| "dl_text (d # ds) = d @ dl_sep @ dl_text ds"

definition append_log :: "dl_env \<Rightarrow> bytes \<Rightarrow> file_sys \<Rightarrow> file_sys" where
  "append_log env text fs =
     fs(log_path \<mapsto> (case fs log_path of None \<Rightarrow> [] | Some content \<Rightarrow> content) @ take (dl_room env) text)"

definition write_dead_letter :: "dl_env \<Rightarrow> bytes list \<Rightarrow> file_sys \<times> metrics \<Rightarrow> file_sys \<times> metrics" where
  "write_dead_letter env batch w =
     (let fs = rotate_log env (fst w)
      in if \<not> dl_open env then (fs, snd w)
         else (append_log env (dl_text batch) fs,
               fetch_add Total_store_dead (of_nat (length batch)) (snd w)))"

section \<open>What ends up in the files\<close>

lemma log_path_not_rotated [simp]: "rotated_path t \<noteq> log_path" "log_path \<noteq> rotated_path t"
  by (simp_all add: rotated_path_def)

lemma dl_text_append [simp]: "dl_text (xs @ ys) = dl_text xs @ dl_text ys"
  by (induction xs) simp_all

lemma dl_text_concat: "dl_text ds = concat (map (\<lambda>d. d @ [newline] @ ''---'' @ [newline]) ds)"
  by (induction ds) (simp_all add: dl_sep_def)

text \<open>When the log is moved away.\<close>

definition moves_log :: "dl_env \<Rightarrow> file_sys \<Rightarrow> bool" where
  "moves_log env fs \<longleftrightarrow> dl_rename env \<and> (\<exists>old. fs log_path = Some old \<and> 100 * 1024 * 1024 < length old)"

lemma rotate_log_moves:
  "rotate_log env fs = (if moves_log env fs then fs(rotated_path (dl_time env) := fs log_path, log_path := None) else fs)"
  by (auto simp: rotate_log_def moves_log_def fs_rename_def split: option.splits)

text \<open>
  C36: a refused batch reaches the log, and nothing else is touched.  When the file opens and the
  device has room, \<open>dead_letter.log\<close> ends with every event of the batch in order, each followed by
  a line of three dashes, after what it held before; unless it held more than 104857600 bytes
  and the rename worked: then all of that is in \<open>dead_letter.log.\<close> followed by the time, and the
  log holds the batch alone.  Every other file keeps its content, and the dead-letter counter
  grows by the size of the batch.
\<close>

theorem write_dead_letter_appends:
  assumes "dl_open env" and "length (concat (map (\<lambda>d. d @ [newline] @ ''---'' @ [newline]) batch)) \<le> dl_room env"
  shows "let log = ''dead_letter.log''; archive = ''dead_letter.log.'' @ show_int (dl_time env);
           old = (case fs log of None \<Rightarrow> [] | Some content \<Rightarrow> content);
           moved = (104857600 < length old \<and> dl_rename env);
           w = write_dead_letter env batch (fs, m)
    in fst w log = Some ((if moved then [] else old) @ concat (map (\<lambda>d. d @ [newline] @ ''---'' @ [newline]) batch)) \<and>
       (moved \<longrightarrow> fst w archive = Some old) \<and>
       (\<forall>path. path = log \<or> moved \<and> path = archive \<or> fst w path = fs path) \<and>
       snd w = fetch_add Total_store_dead (of_nat (length batch)) m"
proof -
  have p: "''dead_letter.log'' = log_path" "''dead_letter.log.'' @ show_int t = rotated_path t" for t
    by (simp_all add: log_path_def rotated_path_def)
  have "take (dl_room env) (dl_text batch) = dl_text batch" using assms(2) by (simp add: dl_text_concat)
  with assms(1) show ?thesis
    unfolding Let_def p dl_text_concat [symmetric]
    by (auto simp: write_dead_letter_def append_log_def rotate_log_moves moves_log_def split: option.splits)
qed

theorem write_dead_letter_appends_witness:
  "\<exists>old. length old = 104857601 \<and>
     (let w = write_dead_letter \<lparr>dl_time = 7, dl_rename = True, dl_open = True, dl_room = 100\<rparr>
        [''a'', ''b''] ([''dead_letter.log'' \<mapsto> old], Metrics_init)
      in fst w ''dead_letter.log'' = Some (''a'' @ dl_sep @ ''b'' @ dl_sep) \<and> fst w ''dead_letter.log.7'' = Some old)"
proof -
  let ?env = "\<lparr>dl_time = 7, dl_rename = True, dl_open = True, dl_room = 100\<rparr>"
  obtain old :: bytes where old: "length old = 104857601" using Ex_list_of_length by blast
  have t: "show_int (dl_time ?env) = ''7''" by code_simp
  have r: "dl_open ?env" "length (concat (map (\<lambda>d. d @ [newline] @ ''---'' @ [newline]) [''a'', ''b''])) \<le> dl_room ?env"
    by simp_all
  from write_dead_letter_appends [OF r, of "[''dead_letter.log'' \<mapsto> old]" Metrics_init] old show ?thesis
    unfolding t by (intro exI [of _ old]) (simp add: Let_def dl_sep_def)
qed

section \<open>Reading the log back\<close>

text \<open>A reader that cuts the text after each separator; \<open>acc\<close> is what it has of the current event.\<close>

function read_log :: "bytes \<Rightarrow> bytes \<Rightarrow> bytes list" where
  "read_log acc [] = (if acc = [] then [] else [acc])"
| "read_log acc (c # cs) =
     (if take 5 (c # cs) = dl_sep then acc # read_log [] (drop 4 cs) else read_log (acc @ [c]) cs)"
  by pat_completeness auto
termination
  by (relation "measure (\<lambda>(acc, text). length text)") auto

text \<open>No separator begins inside the event, the one that follows it included.\<close>

definition readable :: "bytes \<Rightarrow> bool" where
  "readable d \<longleftrightarrow> list_all (\<lambda>k. take 5 (drop k (d @ dl_sep)) \<noteq> dl_sep) [0..<length d]"

lemma dl_sep_length [simp]: "length dl_sep = 5"
  by (simp add: dl_sep_def)

lemma readable_Cons: "readable (c # d) \<longleftrightarrow> take 5 (c # d @ dl_sep) \<noteq> dl_sep \<and> readable d"
proof -
  have "[0..<length (c # d)] = 0 # map Suc [0..<length d]" by (simp add: upt_conv_Cons map_Suc_upt del: upt_Suc)
  then show ?thesis unfolding readable_def by (simp add: list.pred_map o_def)
qed

lemma read_log_sep: "read_log acc (dl_sep @ rest) = acc # read_log [] rest"
  by (simp add: dl_sep_def)

lemma read_log_event: "readable d \<Longrightarrow> read_log acc (d @ dl_sep @ rest) = (acc @ d) # read_log [] rest"
proof (induction d arbitrary: acc)
  case Nil
  then show ?case by (simp add: read_log_sep)
next
  case (Cons c d)
  have "take 5 (c # d @ dl_sep @ rest) = take 5 (c # d @ dl_sep)" by simp
  with Cons show ?case by (simp add: readable_Cons)
qed

lemma read_log_cut:
  "\<not> readable d \<Longrightarrow> \<exists>e es. read_log acc (d @ dl_sep @ rest) = e # es \<and> length e < length acc + length d"
proof (induction d arbitrary: acc)
  case Nil
  then show ?case by (simp add: readable_def)
next
  case (Cons c d)
  have t: "take 5 (c # d @ dl_sep @ rest) = take 5 (c # d @ dl_sep)" by simp
  show ?case
  proof (cases "take 5 (c # d @ dl_sep) = dl_sep")
    case True
    with t show ?thesis by simp
  next
    case False
    with Cons.prems have "\<not> readable d" by (simp add: readable_Cons)
    from Cons.IH [OF this, of "acc @ [c]"] False t show ?thesis by simp
  qed
qed

lemma read_log_text: "read_log [] (dl_text ds) = ds \<longleftrightarrow> list_all readable ds"
proof (induction ds)
  case (Cons d ds)
  show ?case
  proof (cases "readable d")
    case True
    with Cons.IH show ?thesis by (simp add: read_log_event)
  next
    case False
    from read_log_cut [OF this, of "[]" "dl_text ds"] False show ?thesis by auto
  qed
qed simp

text \<open>Two events and one that contains the separator leave the same bytes in the log.\<close>

lemma dead_letter_ambiguous:
  "let w1 = write_dead_letter (env\<lparr>dl_open := True\<rparr>) [a @ dl_sep @ b] (fs, m);
       w2 = write_dead_letter (env\<lparr>dl_open := True\<rparr>) [a, b] (fs, m)
   in fst w1 = fst w2 \<and> load Total_store_dead (snd w1) \<noteq> load Total_store_dead (snd w2)"
  by (simp add: write_dead_letter_def Let_def rotate_log_def append_log_def)

text \<open>
  C39: which batches the log gives back.  A batch is appended to a log of earlier events, with
  room on the device and no rotation.  Cutting the log at its separators then gives back exactly
  the earlier events and the batch if and only if none of them, followed by its separator, holds
  an earlier separator: the format does not escape, so an event with such bytes, which any client
  can send, makes the log unreadable.
\<close>

theorem dead_letter_reads_back:
  assumes "dl_open env" and "fs log_path = Some (dl_text old)" and "length (dl_text old) \<le> 100 * 1024 * 1024"
    and "length (dl_text batch) \<le> dl_room env"
  shows "\<exists>text. fst (write_dead_letter env batch (fs, m)) log_path = Some text \<and>
    (read_log [] text = old @ batch \<longleftrightarrow> list_all readable (old @ batch))"
  using assms read_log_text [of "old @ batch"]
  by (simp add: write_dead_letter_def append_log_def rotate_log_def Let_def)

theorem dead_letter_reads_back_witness:
  "\<exists>text. fst (write_dead_letter \<lparr>dl_time = 0, dl_rename = True, dl_open = True, dl_room = 100\<rparr> [''a'', ''b'']
       ([log_path \<mapsto> dl_text [''x'']], Metrics_init)) log_path = Some text \<and> read_log [] text = [''x'', ''a'', ''b'']"
proof -
  let ?env = "\<lparr>dl_time = 0, dl_rename = True, dl_open = True, dl_room = 100\<rparr>"
  have "list_all readable [''x'', ''a'', ''b'']" by (simp add: readable_def dl_sep_def newline_def)
  then show ?thesis
    using dead_letter_reads_back [of ?env "[log_path \<mapsto> dl_text [''x'']]" "[''x'']" "[''a'', ''b'']" Metrics_init]
    by (simp add: dl_sep_def)
qed

section \<open>A full device\<close>

text \<open>How many events of a batch the device takes whole when it has room for \<open>r\<close> bytes.\<close>

fun whole_events :: "nat \<Rightarrow> bytes list \<Rightarrow> nat" where
  "whole_events r [] = 0"
| "whole_events r (d # ds) = (if length d + 5 \<le> r then Suc (whole_events (r - (length d + 5)) ds) else 0)"

lemma whole_events_all: "whole_events r ds = length ds \<longleftrightarrow> length (dl_text ds) \<le> r"
  by (induction r ds rule: whole_events.induct) auto

lemma take_dl_text:
  "\<exists>part. take r (dl_text ds) = dl_text (take (whole_events r ds) ds) @ part \<and>
     (if whole_events r ds = length ds then part = [] else length part < length (ds ! whole_events r ds) + 5)"
proof (induction r ds rule: whole_events.induct)
  case (2 r d ds)
  show ?case
  proof (cases "length d + 5 \<le> r")
    case True
    then have "take r (dl_text (d # ds)) = d @ dl_sep @ take (r - (length d + 5)) (dl_text ds)" by simp
    with 2 [OF True] True show ?thesis by auto
  next
    case False
    then show ?thesis by simp
  qed
qed simp

text \<open>
  C40: the counter counts what was not written.  When the file opens, the counter grows by the
  size of the batch however much the device took: the log gains the events that fit, then a part
  of the next one, less than its text; all events are there exactly when there was room for all,
  so on a full disk the counter claims more events than the log holds.  When the file cannot be
  opened, the events are lost and nothing is counted.
\<close>

theorem dead_letter_count_unchecked:
  "let k = whole_events (dl_room env) batch; w = write_dead_letter env batch (fs, m)
   in (dl_open env \<longrightarrow>
        load Total_store_dead (snd w) = load Total_store_dead m + of_nat (length batch) \<and>
        (\<exists>part. fst w log_path =
            Some ((case rotate_log env fs log_path of None \<Rightarrow> [] | Some old \<Rightarrow> old) @ dl_text (take k batch) @ part) \<and>
          (if k = length batch then part = [] else length part < length (batch ! k) + 5)) \<and>
        (k = length batch \<longleftrightarrow> length (dl_text batch) \<le> dl_room env)) \<and>
      (\<not> dl_open env \<longrightarrow> w = (rotate_log env fs, m))"
  using take_dl_text [of "dl_room env" batch] whole_events_all [of "dl_room env" batch]
  by (auto simp: write_dead_letter_def append_log_def Let_def)

theorem dead_letter_count_unchecked_witness:
  "\<exists>part. fst (write_dead_letter \<lparr>dl_time = 0, dl_rename = True, dl_open = True, dl_room = 8\<rparr> [''a'', ''bc'']
       (Map.empty, Metrics_init)) log_path = Some (''a'' @ dl_sep @ part) \<and> length part < 7 \<and>
     load Total_store_dead (snd (write_dead_letter \<lparr>dl_time = 0, dl_rename = True, dl_open = True, dl_room = 8\<rparr>
       [''a'', ''bc''] (Map.empty, Metrics_init))) = 2"
  using dead_letter_count_unchecked [of "\<lparr>dl_time = 0, dl_rename = True, dl_open = True, dl_room = 8\<rparr>" "[''a'', ''bc'']"
      Map.empty Metrics_init]
  by (auto simp: rotate_log_def Let_def)

text \<open>The events are in the content one after the other, each followed by its separator.\<close>

fun file_holds :: "bytes list \<Rightarrow> bytes \<Rightarrow> bool" where
  "file_holds [] content \<longleftrightarrow> True"
| "file_holds (d # ds) content \<longleftrightarrow> (\<exists>before rest. content = before @ d @ dl_sep @ rest \<and> file_holds ds rest)"

lemma file_holds_text: "file_holds ds (dl_text ds @ rest)"
proof (induction ds)
  case (Cons d ds)
  then show ?case by (simp, intro exI [of _ "[]"] exI [of _ "dl_text ds @ rest"]) simp
qed simp

lemma file_holds_before: "file_holds ds content \<Longrightarrow> file_holds ds (before @ content)"
  by (cases ds) (auto intro: append_assoc [symmetric])

lemma file_holds_append: "file_holds ds content \<Longrightarrow> file_holds (ds @ es) (content @ dl_text es @ part)"
proof (induction ds arbitrary: content)
  case Nil
  then show ?case by (simp add: file_holds_before file_holds_text)
next
  case (Cons d ds)
  then obtain before rest where c: "content = before @ d @ dl_sep @ rest" "file_holds ds rest" by auto
  with Cons.IH [OF c(2)] show ?case by (simp, intro exI [of _ before] exI [of _ "rest @ dl_text es @ part"]) simp
qed

definition content_of :: "string \<Rightarrow> file_sys \<Rightarrow> bytes" where
  "content_of path fs = (case fs path of None \<Rightarrow> [] | Some content \<Rightarrow> content)"

text \<open>A write with the log moved away or in place.\<close>

lemma write_dead_letter_files:
  assumes "file_holds ds (content_of log_path fs)"
  shows "moves_log env fs \<Longrightarrow> file_holds ds (content_of (rotated_path (dl_time env)) (fst (write_dead_letter env batch (fs, m))))"
    and "dl_open env \<Longrightarrow> file_holds ((if moves_log env fs then [] else ds) @ take (whole_events (dl_room env) batch) batch)
           (content_of log_path (fst (write_dead_letter env batch (fs, m))))"
    and "\<not> dl_open env \<Longrightarrow> file_holds (if moves_log env fs then [] else ds)
           (content_of log_path (fst (write_dead_letter env batch (fs, m))))"
    and "path \<noteq> log_path \<Longrightarrow> moves_log env fs \<longrightarrow> path \<noteq> rotated_path (dl_time env)
           \<Longrightarrow> content_of path (fst (write_dead_letter env batch (fs, m))) = content_of path fs"
proof -
  obtain part where part: "take (dl_room env) (dl_text batch) = dl_text (take (whole_events (dl_room env) batch) batch) @ part"
    using take_dl_text by blast
  show "dl_open env \<Longrightarrow> file_holds ((if moves_log env fs then [] else ds) @ take (whole_events (dl_room env) batch) batch)
      (content_of log_path (fst (write_dead_letter env batch (fs, m))))"
    using assms file_holds_append [of ds "content_of log_path fs" "take (whole_events (dl_room env) batch) batch" part]
      file_holds_text [of "take (whole_events (dl_room env) batch) batch" part]
    by (auto simp: write_dead_letter_def append_log_def rotate_log_moves content_of_def part Let_def split: option.splits)
qed (use assms in \<open>auto simp: write_dead_letter_def append_log_def rotate_log_moves content_of_def moves_log_def Let_def\<close>)

lemma write_dead_letter_frame [ec_simps]:
  "c \<noteq> Total_store_dead \<Longrightarrow> load c (snd (write_dead_letter env batch (fs, m))) = load c m"
  by (simp add: write_dead_letter_def Let_def)

end
