(* ===== verification/Storage.thy ===== *)
theory Storage
  imports Validation Dead_Letter
begin

text \<open>
  \<open>include/storage.h\<close> and \<open>src/processor/storage.cpp\<close>: the buffer in front of ClickHouse.
  An operation first takes the buffer's mutex and decides whether there is a batch to write
  (\<open>save_locked\<close>, \<open>swap_locked\<close>), then writes that batch without the mutex (\<open>do_flush\<close>).

  The ClickHouse client and the Protobuf parser are not part of the program: they are the
  arguments \<open>ch_insert\<close> (\<open>Client::Insert\<close>: did it return, or raise) and \<open>parse_event\<close>
  (\<open>Event::ParseFromString\<close>).
\<close>

section \<open>State\<close>

record storage =
  st_buffer :: "bytes list"
  st_running :: bool

definition BATCH_SIZE :: nat where
  "BATCH_SIZE = 1000"

datatype column = ColumnString "bytes list" | ColumnUInt64 "u64 list"

type_synonym block = "(string \<times> column) list"

record 'c store_ext =
  parse_event :: "bytes \<Rightarrow> event option"
  ch_insert :: "string \<Rightarrow> block \<Rightarrow> 'c \<Rightarrow> bool \<times> 'c"

text \<open>What a flush acts on: the client's state, the files and the counters.\<close>

record 'c store_world =
  sw_client :: 'c
  sw_files :: file_sys
  sw_metrics :: metrics

section \<open>The block of a batch\<close>

record columns =
  event_id_col :: "bytes list"
  user_id_col :: "bytes list"
  event_type_col :: "bytes list"
  platform_col :: "bytes list"
  ts_col :: "u64 list"
  payload_col :: "bytes list"

definition no_columns :: columns where
  "no_columns = \<lparr>event_id_col = [], user_id_col = [], event_type_col = [], platform_col = [],
     ts_col = [], payload_col = []\<rparr>"

text \<open>
  One round of the loop over the batch.  The cast of \<open>ts\<close> to \<open>uint64_t\<close> keeps its bits.
\<close>

definition append_row :: "(bytes \<Rightarrow> event option) \<Rightarrow> bytes \<Rightarrow> columns \<Rightarrow> columns" where
  "append_row parse d cols =
     (case parse d of
        Some evt \<Rightarrow>
          \<lparr>event_id_col = event_id_col cols @ [event_id evt],
           user_id_col = user_id_col cols @ [user_id evt],
           event_type_col = event_type_col cols @ [event_type evt],
           platform_col = platform_col cols @ [platform evt],
           ts_col = ts_col cols @ [ts evt],
           payload_col = payload_col cols @ [payload evt]\<rparr>
      | None \<Rightarrow>
          \<lparr>event_id_col = event_id_col cols @ [[]],
           user_id_col = user_id_col cols @ [[]],
           event_type_col = event_type_col cols @ [[]],
           platform_col = platform_col cols @ [[]],
           ts_col = ts_col cols @ [0],
           payload_col = payload_col cols @ [d]\<rparr>)"

definition build_columns :: "(bytes \<Rightarrow> event option) \<Rightarrow> bytes list \<Rightarrow> columns" where
  "build_columns parse batch = fold (append_row parse) batch no_columns"

definition make_block :: "columns \<Rightarrow> block" where
  "make_block cols =
     [(''event_id'', ColumnString (event_id_col cols)),
      (''user_id'', ColumnString (user_id_col cols)),
      (''event_type'', ColumnString (event_type_col cols)),
      (''platform'', ColumnString (platform_col cols)),
      (''ts'', ColumnUInt64 (ts_col cols)),
      (''payload'', ColumnString (payload_col cols))]"

section \<open>Flushing\<close>

text \<open>The retry loop: up to \<open>n\<close> attempts, ended by the first that returns.\<close>

fun insert_retry :: "'c store_ext \<Rightarrow> block \<Rightarrow> nat \<Rightarrow> 'c \<Rightarrow> bool \<times> 'c" where
  "insert_retry ext block 0 c = (False, c)"
| "insert_retry ext block (Suc n) c =
     (case ch_insert ext ''events'' block c of
        (True, c') \<Rightarrow> (True, c')
      | (False, c') \<Rightarrow> insert_retry ext block n c')"

definition do_flush :: "'c store_ext \<Rightarrow> dl_env \<Rightarrow> bytes list \<Rightarrow> 'c store_world \<Rightarrow> 'c store_world" where
  "do_flush ext env batch w =
     (if batch = [] then w
      else let block = make_block (build_columns (parse_event ext) batch)
           in case insert_retry ext block 3 (sw_client w) of
                (True, c) \<Rightarrow>
                  w\<lparr>sw_client := c,
                    sw_metrics := fetch_add Total_stored (of_nat (length batch)) (sw_metrics w)\<rparr>
              | (False, c) \<Rightarrow>
                  (let (fs, m) = write_dead_letter env batch (sw_files w, sw_metrics w)
                   in w\<lparr>sw_client := c, sw_files := fs, sw_metrics := m\<rparr>))"

section \<open>The operations\<close>

text \<open>The constructor's buffer, and the two critical sections.\<close>

definition Storage_init :: storage where
  "Storage_init = \<lparr>st_buffer = [], st_running = True\<rparr>"

definition save_locked :: "bytes \<Rightarrow> storage \<Rightarrow> bytes list option \<times> storage" where
  "save_locked d st =
     (let b = st_buffer st @ [d]
      in if length b < BATCH_SIZE then (None, st\<lparr>st_buffer := b\<rparr>)
         else (Some b, st\<lparr>st_buffer := []\<rparr>))"

definition swap_locked :: "storage \<Rightarrow> bytes list option \<times> storage" where
  "swap_locked st =
     (if st_buffer st = [] then (None, st)
      else (Some (st_buffer st), st\<lparr>st_buffer := []\<rparr>))"

definition flush_opt :: "'c store_ext \<Rightarrow> dl_env \<Rightarrow> bytes list option \<Rightarrow> 'c store_world \<Rightarrow> 'c store_world" where
  "flush_opt ext env b w = (case b of None \<Rightarrow> w | Some batch \<Rightarrow> do_flush ext env batch w)"

definition save :: "'c store_ext \<Rightarrow> dl_env \<Rightarrow> bytes \<Rightarrow> storage \<times> 'c store_world
    \<Rightarrow> bool \<times> storage \<times> 'c store_world" where
  "save ext env d s =
     (let (b, st) = save_locked d (fst s) in (True, st, flush_opt ext env b (snd s)))"

definition flush_and_stop :: "'c store_ext \<Rightarrow> dl_env \<Rightarrow> storage \<times> 'c store_world
    \<Rightarrow> storage \<times> 'c store_world" where
  "flush_and_stop ext env s =
     (let (b, st) = swap_locked (fst s) in (st, flush_opt ext env b (snd s)))"

section \<open>The block describes the batch\<close>

text \<open>The row a message becomes.\<close>

definition row_of :: "(bytes \<Rightarrow> event option) \<Rightarrow> bytes \<Rightarrow> event" where
  "row_of parse d =
     (case parse d of
        Some evt \<Rightarrow> evt
      | None \<Rightarrow> \<lparr>event_id = [], user_id = [], platform = [], event_type = [], ts = 0, payload = d\<rparr>)"

lemma append_row_row_of:
  "append_row parse d cols =
     \<lparr>event_id_col = event_id_col cols @ [event_id (row_of parse d)],
      user_id_col = user_id_col cols @ [user_id (row_of parse d)],
      event_type_col = event_type_col cols @ [event_type (row_of parse d)],
      platform_col = platform_col cols @ [platform (row_of parse d)],
      ts_col = ts_col cols @ [ts (row_of parse d)],
      payload_col = payload_col cols @ [payload (row_of parse d)]\<rparr>"
  by (simp add: append_row_def row_of_def split: option.splits)

lemma fold_append_row:
  "fold (append_row parse) batch cols =
     (let rows = map (row_of parse) batch in
      \<lparr>event_id_col = event_id_col cols @ map event_id rows,
       user_id_col = user_id_col cols @ map user_id rows,
       event_type_col = event_type_col cols @ map event_type rows,
       platform_col = platform_col cols @ map platform rows,
       ts_col = ts_col cols @ map ts rows,
       payload_col = payload_col cols @ map payload rows\<rparr>)"
  by (induction batch arbitrary: cols) (simp_all add: append_row_row_of Let_def)

section \<open>What a flush does with its batch\<close>

lemma insert_retry_iff:
  "fst (insert_retry ext block n c) \<longleftrightarrow>
     (\<exists>i<n. fst (ch_insert ext ''events'' block
        (((\<lambda>c. snd (ch_insert ext ''events'' block c)) ^^ i) c)))"
proof (induction n arbitrary: c)
  case (Suc n)
  let ?next = "\<lambda>c. snd (ch_insert ext ''events'' block c)"
  let ?ok = "\<lambda>c. fst (ch_insert ext ''events'' block c)"
  have "(\<exists>i<Suc n. ?ok ((?next ^^ i) c)) \<longleftrightarrow> ?ok c \<or> (\<exists>i<n. ?ok ((?next ^^ i) (?next c)))"
    by (simp add: Ex_less_Suc2 funpow_Suc_right del: funpow.simps(2))
  with Suc.IH [of "?next c"] show ?case
    by (auto split: prod.splits bool.splits)
qed simp

text \<open>Whether the batch of a flush is inserted, and the counters it leaves.\<close>

definition inserted :: "'c store_ext \<Rightarrow> bytes list \<Rightarrow> 'c \<Rightarrow> bool" where
  "inserted ext batch c \<longleftrightarrow>
     fst (insert_retry ext (make_block (build_columns (parse_event ext) batch)) 3 c)"

lemma do_flush_load [ec_simps]:
  assumes "batch \<noteq> []"
  shows "load c (sw_metrics (do_flush ext env batch w)) =
    load c (sw_metrics w) +
      (if inserted ext batch (sw_client w) then (if c = Total_stored then of_nat (length batch) else 0)
       else if dl_open env \<and> c = Total_store_dead then of_nat (length batch) else 0)"
  using assms
  by (auto simp: do_flush_def inserted_def write_dead_letter_def Let_def split: prod.splits bool.splits)

lemma do_flush_files:
  "batch \<noteq> [] \<Longrightarrow> sw_files (do_flush ext env batch w) =
     (if inserted ext batch (sw_client w) then sw_files w
      else fst (write_dead_letter env batch (sw_files w, sw_metrics w)))"
  by (auto simp: do_flush_def inserted_def Let_def split: prod.splits bool.splits)

text \<open>
  C17: a batch is stored or handed to the dead-letter log, never both.  A flush of a
  non-empty batch counts it as stored exactly when one of at most three attempts to insert
  its block returns, and then leaves the files alone; otherwise it writes the whole batch to
  the dead-letter log.  No other counter changes.
\<close>

theorem flush_stores_or_logs:
  assumes "batch \<noteq> []"
  shows "let blk = make_block (build_columns (parse_event ext) batch);
             attempt = (\<lambda>c. ch_insert ext ''events'' blk c);
             ok = (\<exists>i<3. fst (attempt (((\<lambda>c. snd (attempt c)) ^^ i) (sw_client w))));
             w' = do_flush ext env batch w
         in load Total_stored (sw_metrics w') =
              load Total_stored (sw_metrics w) + (if ok then of_nat (length batch) else 0) \<and>
            load Total_store_dead (sw_metrics w') =
              load Total_store_dead (sw_metrics w) +
                (if \<not> ok \<and> dl_open env then of_nat (length batch) else 0) \<and>
            sw_files w' =
              (if ok then sw_files w
               else fst (write_dead_letter env batch (sw_files w, sw_metrics w))) \<and>
            (\<forall>c. c = Total_stored \<or> c = Total_store_dead \<or> load c (sw_metrics w') = load c (sw_metrics w))"
  using do_flush_load [OF assms, of _ ext env w] do_flush_files [OF assms, of ext env w]
  unfolding Let_def insert_retry_iff [symmetric] inserted_def [symmetric]
  by simp

text \<open>A client that refuses the first \<open>n\<close> inserts; the parser never succeeds.\<close>

definition refusing :: "nat store_ext" where
  "refusing = \<lparr>parse_event = (\<lambda>_. None), ch_insert = (\<lambda>_ _ n. (n = 0, n - 1))\<rparr>"

theorem flush_stores_or_logs_witness:
  "load Total_stored (sw_metrics (do_flush refusing
      \<lparr>dl_time = 0, dl_rename = True, dl_open = True, dl_room = 100\<rparr> [''a'', ''b'']
      \<lparr>sw_client = 2, sw_files = Map.empty, sw_metrics = Metrics_init\<rparr>)) = 2"
proof -
  have "(\<exists>i<3. ((\<lambda>c. c - 1) ^^ i) 2 = (0 :: nat))"
    by (rule exI [of _ 2]) (simp add: numeral_2_eq_2)
  then show ?thesis
    using flush_stores_or_logs [of "[''a'', ''b'']" refusing
        "\<lparr>sw_client = 2, sw_files = Map.empty, sw_metrics = Metrics_init\<rparr>"
        "\<lparr>dl_time = 0, dl_rename = True, dl_open = True, dl_room = 100\<rparr>"]
    by (simp add: Let_def refusing_def)
qed

section \<open>Several threads on one buffer\<close>

text \<open>
  The workers and the flush thread share the buffer.  Between its critical section and the
  end of its flush a batch belongs to the thread that took it; \<open>ss_flushing\<close> holds those
  batches.  The other fields record the history, the files included: what was ever saved and what
  was inserted; which events are whole in the present log, and which in each file a rotation left,
  by its name; and which are in no file although the flush has ended: the archive they were in
  was replaced by a later rotation within the same second, the device did not take them whole
  (the code counts them all the same), or the log could not be opened.
\<close>

record 'c store_sys =
  ss_storage :: storage
  ss_world :: "'c store_world"
  ss_flushing :: "bytes list multiset"
  ss_saved :: "bytes multiset"
  ss_inserted :: "bytes multiset"
  ss_log :: "bytes list"
  ss_archives :: "(string \<times> bytes list) list"
  ss_replaced :: "bytes multiset"
  ss_cut :: "bytes multiset"
  ss_lost :: "bytes multiset"

definition store_init :: "'c store_sys \<Rightarrow> bool" where
  "store_init s \<longleftrightarrow> ss_storage s = Storage_init \<and> sw_metrics (ss_world s) = Metrics_init \<and>
     ss_flushing s = {#} \<and> ss_saved s = {#} \<and> ss_inserted s = {#} \<and> ss_log s = [] \<and> ss_archives s = [] \<and>
     ss_replaced s = {#} \<and> ss_cut s = {#} \<and> ss_lost s = {#}"

definition take_batch :: "bytes list option \<Rightarrow> bytes list multiset \<Rightarrow> bytes list multiset" where
  "take_batch b F = (case b of None \<Rightarrow> F | Some batch \<Rightarrow> add_mset batch F)"

definition archived :: "(string \<times> bytes list) list \<Rightarrow> bytes multiset" where
  "archived A = sum_list (map (\<lambda>(path, ds). mset ds) A)"

text \<open>
  The history of a rotation, of the events a device with room takes whole, and of a flush: the
  thread's \<open>do_flush\<close>, all at once.  (\<open>Flush_Steps\<close> takes it apart; the mutex of the dead letter
  file makes the writes atomic.)
\<close>

definition note_rotation :: "string \<Rightarrow> 'c store_sys \<Rightarrow> 'c store_sys" where
  "note_rotation path s =
     s\<lparr>ss_log := [], ss_archives := (path, ss_log s) # filter (\<lambda>(q, ds). q \<noteq> path) (ss_archives s),
       ss_replaced := ss_replaced s + archived (filter (\<lambda>(q, ds). q = path) (ss_archives s))\<rparr>"

definition note_dead :: "dl_env \<Rightarrow> bytes list \<Rightarrow> 'c store_sys \<Rightarrow> 'c store_sys" where
  "note_dead env batch s =
     (if dl_open env
      then s\<lparr>ss_log := ss_log s @ take (whole_events (dl_room env) batch) batch,
             ss_cut := ss_cut s + mset (drop (whole_events (dl_room env) batch) batch)\<rparr>
      else s\<lparr>ss_lost := ss_lost s + mset batch\<rparr>)"

definition finish_flush :: "'c store_ext \<Rightarrow> dl_env \<Rightarrow> bytes list \<Rightarrow> 'c store_sys \<Rightarrow> 'c store_sys" where
  "finish_flush ext env batch s =
     (let t = s\<lparr>ss_world := do_flush ext env batch (ss_world s), ss_flushing := ss_flushing s - {#batch#}\<rparr>
      in if inserted ext batch (sw_client (ss_world s)) then t\<lparr>ss_inserted := ss_inserted t + mset batch\<rparr>
         else note_dead env batch
           (if moves_log env (sw_files (ss_world s)) then note_rotation (rotated_path (dl_time env)) t else t))"

inductive store_step :: "'c store_ext \<Rightarrow> 'c store_sys \<Rightarrow> 'c store_sys \<Rightarrow> bool" for ext where
  store_save: "save_locked d (ss_storage s) = (b, st) \<Longrightarrow>
    store_step ext s (s\<lparr>ss_storage := st, ss_flushing := take_batch b (ss_flushing s),
      ss_saved := add_mset d (ss_saved s)\<rparr>)"
| store_swap: "swap_locked (ss_storage s) = (b, st) \<Longrightarrow>
    store_step ext s (s\<lparr>ss_storage := st, ss_flushing := take_batch b (ss_flushing s)\<rparr>)"
| store_flush: "batch \<in># ss_flushing s \<Longrightarrow> store_step ext s (finish_flush ext env batch s)"

inductive_cases store_stepE: "store_step ext s t"

definition in_flight :: "bytes list multiset \<Rightarrow> bytes multiset" where
  "in_flight F = (\<Sum>b\<in>#F. mset b)"

text \<open>What the files hold of the events.\<close>

definition files_inv :: "'c store_sys \<Rightarrow> bool" where
  "files_inv s \<longleftrightarrow>
     file_holds (ss_log s) (content_of log_path (sw_files (ss_world s))) \<and>
     list_all (\<lambda>(path, ds). path \<noteq> log_path \<and> file_holds ds (content_of path (sw_files (ss_world s)))) (ss_archives s) \<and>
     distinct (map fst (ss_archives s))"

definition on_disk :: "'c store_sys \<Rightarrow> bytes multiset" where
  "on_disk s = mset (ss_log s) + archived (ss_archives s)"

definition store_inv :: "'c store_sys \<Rightarrow> bool" where
  "store_inv s \<longleftrightarrow>
     length (st_buffer (ss_storage s)) < BATCH_SIZE \<and>
     (\<forall>b \<in># ss_flushing s. b \<noteq> [] \<and> length b \<le> BATCH_SIZE) \<and>
     ss_saved s = mset (st_buffer (ss_storage s)) + in_flight (ss_flushing s)
       + ss_inserted s + on_disk s + ss_replaced s + ss_cut s + ss_lost s \<and>
     load Total_stored (sw_metrics (ss_world s)) = of_nat (size (ss_inserted s)) \<and>
     load Total_store_dead (sw_metrics (ss_world s)) = of_nat (size (on_disk s + ss_replaced s + ss_cut s)) \<and>
     files_inv s"

lemma in_flight_simps [simp]:
  "in_flight {#} = {#}" "in_flight (add_mset b F) = mset b + in_flight F"
  by (simp_all add: in_flight_def)

lemma in_flight_remove: "b \<in># F \<Longrightarrow> in_flight F = mset b + in_flight (F - {#b#})"
  by (metis in_flight_simps(2) insert_DiffM)

lemma archived_simps [simp]: "archived [] = {#}" "archived ((path, ds) # A) = mset ds + archived A"
  by (simp_all add: archived_def)

lemma archived_split: "archived (filter P A) + archived (filter (\<lambda>x. \<not> P x) A) = archived A"
  by (induction A) (auto simp: archived_def)

lemma store_inv_init: "store_init s \<Longrightarrow> store_inv s"
  by (simp add: store_init_def store_inv_def Storage_init_def BATCH_SIZE_def files_inv_def on_disk_def)

text \<open>The histories move the events and keep their sum.\<close>

lemma note_rotation_sum: "on_disk (note_rotation path s) + ss_replaced (note_rotation path s) = on_disk s + ss_replaced s"
  using archived_split [of "\<lambda>(q, ds). q = path" "ss_archives s"]
  by (simp add: on_disk_def note_rotation_def case_prod_beta' ac_simps)

lemma note_rotation_fields [simp]:
  "ss_storage (note_rotation path s) = ss_storage s" "ss_world (note_rotation path s) = ss_world s"
  "ss_flushing (note_rotation path s) = ss_flushing s" "ss_saved (note_rotation path s) = ss_saved s"
  "ss_inserted (note_rotation path s) = ss_inserted s" "ss_cut (note_rotation path s) = ss_cut s"
  "ss_lost (note_rotation path s) = ss_lost s" "ss_log (note_rotation path s) = []"
  by (simp_all add: note_rotation_def)

lemma note_dead_fields [simp]:
  "ss_storage (note_dead env batch s) = ss_storage s" "ss_world (note_dead env batch s) = ss_world s"
  "ss_flushing (note_dead env batch s) = ss_flushing s" "ss_saved (note_dead env batch s) = ss_saved s"
  "ss_inserted (note_dead env batch s) = ss_inserted s" "ss_replaced (note_dead env batch s) = ss_replaced s"
  "ss_archives (note_dead env batch s) = ss_archives s"
  by (simp_all add: note_dead_def)

lemma mset_take_drop: "mset (take n xs) + mset (drop n xs) = mset xs"
  by (metis append_take_drop_id mset_append)

lemma note_dead_sum:
  "on_disk (note_dead env batch s) + ss_cut (note_dead env batch s) + ss_lost (note_dead env batch s) =
     on_disk s + ss_cut s + ss_lost s + mset batch"
  "on_disk (note_dead env batch s) + ss_cut (note_dead env batch s) =
     on_disk s + ss_cut s + (if dl_open env then mset batch else {#})"
  using mset_take_drop [of "whole_events (dl_room env) batch" batch]
  by (simp_all add: note_dead_def on_disk_def ac_simps)

lemma files_inv_dead:
  assumes inv: "files_inv s" and ne: "batch \<noteq> []" and no: "\<not> inserted ext batch (sw_client (ss_world s))"
  shows "files_inv (finish_flush ext env batch s)"
proof -
  let ?fs = "sw_files (ss_world s)" and ?p = "rotated_path (dl_time env)"
  let ?t = "finish_flush ext env batch s"
  have new: "sw_files (ss_world ?t) = fst (write_dead_letter env batch (?fs, sw_metrics (ss_world s)))"
    using no by (simp add: finish_flush_def Let_def do_flush_files [OF ne])
  have log: "file_holds (ss_log s) (content_of log_path ?fs)" using inv by (simp add: files_inv_def)
  note w = write_dead_letter_files [OF log, where env = env and batch = batch and m = "sw_metrics (ss_world s)", folded new]
  have "ss_log ?t = (if moves_log env ?fs then [] else ss_log s)
      @ (if dl_open env then take (whole_events (dl_room env) batch) batch else [])"
    using no by (simp add: finish_flush_def note_dead_def Let_def)
  with w(2,3) have "file_holds (ss_log ?t) (content_of log_path (sw_files (ss_world ?t)))" by (simp split: if_split_asm)
  moreover have "list_all (\<lambda>(path, ds). path \<noteq> log_path \<and> file_holds ds (content_of path (sw_files (ss_world ?t)))) (ss_archives ?t)
      \<and> distinct (map fst (ss_archives ?t))"
  proof (cases "moves_log env ?fs")
    case True
    then have A: "ss_archives ?t = (?p, ss_log s) # filter (\<lambda>(q, ds). q \<noteq> ?p) (ss_archives s)"
      using no by (simp add: finish_flush_def note_rotation_def Let_def)
    have "distinct (map fst (filter (\<lambda>(q, ds). q \<noteq> ?p) (ss_archives s)))"
      using inv by (auto simp: files_inv_def intro: distinct_map_filter)
    with inv w(1) [OF True] w(4) show ?thesis
      by (auto simp: A files_inv_def list_all_iff)
  next
    case False
    then have A: "ss_archives ?t = ss_archives s" using no by (simp add: finish_flush_def Let_def)
    with inv w(4) False show ?thesis by (auto simp: files_inv_def list_all_iff)
  qed
  ultimately show ?thesis by (simp add: files_inv_def)
qed

lemma store_inv_flush:
  assumes inv: "store_inv s" and b: "batch \<in># ss_flushing s"
  shows "store_inv (finish_flush ext env batch s)"
proof -
  have ne: "batch \<noteq> []" using assms by (auto simp: store_inv_def)
  have F: "\<forall>b \<in># ss_flushing s - {#batch#}. b \<noteq> [] \<and> length b \<le> BATCH_SIZE"
    using inv by (auto simp: store_inv_def dest: in_diffD)
  show ?thesis
  proof (cases "inserted ext batch (sw_client (ss_world s))")
    case True
    with inv F show ?thesis
      by (auto simp: store_inv_def files_inv_def on_disk_def finish_flush_def Let_def do_flush_load [OF ne] do_flush_files [OF ne]
          in_flight_remove [OF b] ac_simps)
  next
    case False
    let ?t = "finish_flush ext env batch s"
    have t: "ss_storage ?t = ss_storage s" "ss_flushing ?t = ss_flushing s - {#batch#}" "ss_saved ?t = ss_saved s"
      "ss_inserted ?t = ss_inserted s" "ss_world ?t = do_flush ext env batch (ss_world s)"
      using False by (simp_all add: finish_flush_def Let_def)
    define u where "u = (if moves_log env (sw_files (ss_world s))
      then note_rotation (rotated_path (dl_time env)) (s\<lparr>ss_world := ss_world ?t, ss_flushing := ss_flushing ?t\<rparr>)
      else s\<lparr>ss_world := ss_world ?t, ss_flushing := ss_flushing ?t\<rparr>)"
    have tu: "?t = note_dead env batch u" using False t by (simp add: u_def finish_flush_def Let_def)
    have u: "on_disk u + ss_replaced u = on_disk s + ss_replaced s" "ss_cut u = ss_cut s" "ss_lost u = ss_lost s"
      unfolding u_def by (auto simp: note_rotation_sum) (simp_all add: on_disk_def)
    have r: "ss_replaced ?t = ss_replaced u" by (simp add: tu)
    have sum1: "on_disk ?t + ss_replaced ?t + ss_cut ?t + ss_lost ?t =
        on_disk s + ss_replaced s + ss_cut s + ss_lost s + mset batch"
      using note_dead_sum(1) [of env batch u, folded tu] u unfolding r by (metis (no_types) add.assoc add.commute)
    have sum2: "on_disk ?t + ss_replaced ?t + ss_cut ?t =
        on_disk s + ss_replaced s + ss_cut s + (if dl_open env then mset batch else {#})"
      using note_dead_sum(2) [of env batch u, folded tu] u unfolding r by (metis (no_types) add.assoc add.commute)
    have "ss_saved s = mset (st_buffer (ss_storage s)) + in_flight (ss_flushing s - {#batch#}) + ss_inserted s
        + (on_disk s + ss_replaced s + ss_cut s + ss_lost s + mset batch)"
      using inv in_flight_remove [OF b] by (simp add: store_inv_def ac_simps)
    then have saved: "ss_saved ?t = mset (st_buffer (ss_storage ?t)) + in_flight (ss_flushing ?t) + ss_inserted ?t
        + on_disk ?t + ss_replaced ?t + ss_cut ?t + ss_lost ?t"
      unfolding sum1 [symmetric] t by (simp add: add.assoc)
    have "load Total_store_dead (sw_metrics (ss_world ?t)) = of_nat (size (on_disk s + ss_replaced s + ss_cut s))
        + (if dl_open env then of_nat (length batch) else 0)"
      using inv False unfolding t by (simp add: store_inv_def do_flush_load [OF ne])
    also have "\<dots> = of_nat (size (on_disk s + ss_replaced s + ss_cut s + (if dl_open env then mset batch else {#})))" by simp
    also have "\<dots> = of_nat (size (on_disk ?t + ss_replaced ?t + ss_cut ?t))" by (simp only: sum2)
    finally have dead: "load Total_store_dead (sw_metrics (ss_world ?t)) = of_nat (size (on_disk ?t + ss_replaced ?t + ss_cut ?t))" .
    have stored: "load Total_stored (sw_metrics (ss_world ?t)) = of_nat (size (ss_inserted ?t))"
      using inv False unfolding t by (simp add: store_inv_def do_flush_load [OF ne])
    have files: "files_inv ?t" by (rule files_inv_dead [OF _ ne False]) (use inv in \<open>simp add: store_inv_def\<close>)
    have "length (st_buffer (ss_storage ?t)) < BATCH_SIZE" "\<forall>b \<in># ss_flushing ?t. b \<noteq> [] \<and> length b \<le> BATCH_SIZE"
      using inv F unfolding t by (simp_all add: store_inv_def)
    with saved dead stored files show ?thesis unfolding store_inv_def by blast
  qed
qed

lemma store_inv_step [ec_inv]:
  assumes "store_inv s" and "store_step ext s t"
  shows "store_inv t"
  using assms(2)
proof (rule store_stepE)
  fix d b st
  assume t: "t = s\<lparr>ss_storage := st, ss_flushing := take_batch b (ss_flushing s),
      ss_saved := add_mset d (ss_saved s)\<rparr>" and l: "save_locked d (ss_storage s) = (b, st)"
  with assms(1) show ?thesis
    by (auto simp: store_inv_def files_inv_def on_disk_def save_locked_def take_batch_def Let_def BATCH_SIZE_def split: if_splits)
next
  fix b st
  assume "t = s\<lparr>ss_storage := st, ss_flushing := take_batch b (ss_flushing s)\<rparr>"
    and "swap_locked (ss_storage s) = (b, st)"
  with assms(1) show ?thesis
    by (auto simp: store_inv_def files_inv_def on_disk_def swap_locked_def take_batch_def BATCH_SIZE_def split: if_splits)
next
  fix batch env
  assume "t = finish_flush ext env batch s" and "batch \<in># ss_flushing s"
  with assms(1) show ?thesis by (simp add: store_inv_flush)
qed

interpretation sti: inductive_invariant store_init "store_step ext" store_inv for ext :: "'c store_ext"
  by unfold_locales (auto intro: store_inv_init store_inv_step)

text \<open>
  C7: no saved event disappears without a trace.  However the workers, the flush thread and the
  shutdown interleave, every event ever passed to \<open>save\<close> is, with its multiplicity, in the buffer,
  in a batch some thread is flushing, inserted into ClickHouse, in a dead letter file, or in one of
  three cases in which it is gone: its archive was replaced by a rotation with the same name, the
  device did not take it whole, or the log could not be opened.  The events in files really are
  there: the content of \<open>dead_letter.log\<close>, and of each archive under its name, has them one after
  the other, each whole and followed by its separator.  The counter of stored events is the number
  of inserted ones; the counter of dead letters is the number in files plus those replaced and
  those a full device did not take.  The buffer stays below the batch size.
\<close>

theorem saved_events_conserved:
  assumes "reachable store_init (store_step ext) s"
  shows "ss_saved s = mset (st_buffer (ss_storage s)) + in_flight (ss_flushing s) + ss_inserted s
       + (mset (ss_log s) + archived (ss_archives s)) + ss_replaced s + ss_cut s + ss_lost s \<and>
     file_holds (ss_log s) (content_of log_path (sw_files (ss_world s))) \<and>
     list_all (\<lambda>(path, ds). path \<noteq> log_path \<and> file_holds ds (content_of path (sw_files (ss_world s)))) (ss_archives s) \<and>
     distinct (map fst (ss_archives s)) \<and>
     load Total_stored (sw_metrics (ss_world s)) = of_nat (size (ss_inserted s)) \<and>
     load Total_store_dead (sw_metrics (ss_world s)) =
       of_nat (size (mset (ss_log s) + archived (ss_archives s) + ss_replaced s + ss_cut s)) \<and>
     length (st_buffer (ss_storage s)) < BATCH_SIZE"
  using sti.reachable_inv [OF assms] unfolding store_inv_def files_inv_def on_disk_def by simp

text \<open>ClickHouse refuses a batch of two events three times; the device takes the first.\<close>

theorem saved_events_conserved_witness:
  "\<exists>s :: nat store_sys. reachable store_init (store_step refusing) s \<and> ss_log s = [''a''] \<and> ss_cut s = {#''b''#} \<and>
     file_holds [''a''] (content_of log_path (sw_files (ss_world s))) \<and>
     load Total_store_dead (sw_metrics (ss_world s)) = 2"
proof -
  define w where "w = \<lparr>sw_client = (3 :: nat), sw_files = Map.empty, sw_metrics = Metrics_init\<rparr>"
  define e where "e = \<lparr>dl_time = 0, dl_rename = True, dl_open = True, dl_room = 8\<rparr>"
  define s0 where "s0 = \<lparr>ss_storage = Storage_init, ss_world = w, ss_flushing = {#}, ss_saved = {#},
    ss_inserted = {#}, ss_log = [], ss_archives = [], ss_replaced = {#}, ss_cut = {#}, ss_lost = {#}\<rparr>"
  define s1 where "s1 = s0\<lparr>ss_storage := Storage_init\<lparr>st_buffer := [''a'']\<rparr>,
    ss_flushing := take_batch None (ss_flushing s0), ss_saved := add_mset ''a'' (ss_saved s0)\<rparr>"
  define s2 where "s2 = s1\<lparr>ss_storage := Storage_init\<lparr>st_buffer := [''a'', ''b'']\<rparr>,
    ss_flushing := take_batch None (ss_flushing s1), ss_saved := add_mset ''b'' (ss_saved s1)\<rparr>"
  define s3 where "s3 = s2\<lparr>ss_storage := Storage_init, ss_flushing := take_batch (Some [''a'', ''b'']) (ss_flushing s2)\<rparr>"
  have r0: "reachable store_init (store_step refusing) s0"
    by (rule reach_init) (simp add: store_init_def s0_def w_def)
  have "store_step refusing s0 s1" unfolding s1_def
    by (rule store_save) (simp add: s0_def save_locked_def Storage_init_def BATCH_SIZE_def)
  with r0 have r1: "reachable store_init (store_step refusing) s1" by (rule reach_step)
  have "store_step refusing s1 s2" unfolding s2_def
    by (rule store_save) (simp add: s1_def save_locked_def Storage_init_def BATCH_SIZE_def)
  with r1 have r2: "reachable store_init (store_step refusing) s2" by (rule reach_step)
  have "store_step refusing s2 s3" unfolding s3_def
    by (rule store_swap) (simp add: s2_def swap_locked_def Storage_init_def)
  with r2 have r3: "reachable store_init (store_step refusing) s3" by (rule reach_step)
  let ?s = "finish_flush refusing e [''a'', ''b''] s3"
  have "store_step refusing s3 ?s"
    by (rule store_flush) (simp add: s3_def s2_def s1_def s0_def take_batch_def)
  with r3 have r: "reachable store_init (store_step refusing) ?s" by (rule reach_step)
  have h: "ss_log ?s = [''a'']" "ss_archives ?s = []" "ss_replaced ?s = {#}" "ss_cut ?s = {#''b''#}"
    by (simp_all add: finish_flush_def note_dead_def moves_log_def Let_def inserted_def s3_def s2_def s1_def s0_def w_def e_def
        refusing_def numeral_3_eq_3)
  have "load Total_store_dead (sw_metrics (ss_world ?s)) = of_nat (size ({#''a''#} + {#''b''#}))"
    "file_holds [''a''] (content_of log_path (sw_files (ss_world ?s)))"
    using saved_events_conserved [OF r] by (simp_all only: h archived_simps) simp_all
  with r h show ?thesis by (intro exI [of _ ?s]) simp
qed

section \<open>The interface the processor uses\<close>

text \<open>
  An operation that owns some of the counters: it changes no other.  The processor's
  bookkeeping is proved once against this contract.
\<close>

locale counter_frame =
  fixes op :: "'a \<Rightarrow> 's \<Rightarrow> 's"
    and cnt :: "counter \<Rightarrow> 's \<Rightarrow> u64"
    and owned :: "counter set"
  assumes frame: "c \<notin> owned \<Longrightarrow> cnt c (op x s) = cnt c s"
begin

lemma fold_frame: "c \<notin> owned \<Longrightarrow> cnt c (fold op xs s) = cnt c s"
  by (induction xs arbitrary: s) (simp_all add: frame)

end

lemma flush_opt_frame:
  "c \<noteq> Total_stored \<Longrightarrow> c \<noteq> Total_store_dead \<Longrightarrow>
     load c (sw_metrics (flush_opt ext env b w)) = load c (sw_metrics w)"
proof (cases b)
  case (Some batch)
  assume "c \<noteq> Total_stored" and "c \<noteq> Total_store_dead"
  with Some show ?thesis
    by (cases "batch = []") (simp_all add: flush_opt_def do_flush_load, simp add: do_flush_def)
qed (simp add: flush_opt_def)

interpretation save_op: counter_frame
  "\<lambda>d s. snd (save ext env d s)" "\<lambda>c s. load c (sw_metrics (snd s))" "{Total_stored, Total_store_dead}"
  for ext :: "'c store_ext" and env
  by unfold_locales (auto simp: save_def flush_opt_frame Let_def split: prod.splits)

interpretation flush_op: counter_frame
  "\<lambda>env s. flush_and_stop ext env s" "\<lambda>c s. load c (sw_metrics (snd s))" "{Total_stored, Total_store_dead}"
  for ext :: "'c store_ext"
  by unfold_locales (auto simp: flush_and_stop_def flush_opt_frame Let_def split: prod.splits)

end
