(* ===== verification/Kafka_Producer.thy ===== *)
theory Kafka_Producer
  imports Metrics
begin

text \<open>
  The Kafka side of \<open>src/processor/processor.cpp\<close>: the producer the constructor sets up,
  \<open>produce_to_kafka\<close>, the delivery report callback \<open>dr_msg_cb\<close> and the round of the poll
  thread.

  librdkafka is not part of the program.  Its functions are the argument \<open>kafka_lib\<close>, over a
  library state of any type: \<open>rd_produce\<close> (\<open>rd_kafka_produce\<close>, its return value), \<open>rd_poll\<close>
  (the delivery reports \<open>rd_kafka_poll\<close> serves, each with its error flag), \<open>rd_flush\<close> (the
  returned code and the reports served meanwhile) and \<open>rd_purge\<close>.  Which pointer the library
  passes to the callback as \<open>opaque\<close> depends on the calls made on the configuration object.
\<close>

section \<open>Setting up the producer\<close>

text \<open>The calls the program can make on a configuration object.\<close>

datatype opaque = Opaque_null | Opaque_metrics

datatype conf_call = Set_dr_msg_cb | Set_opaque opaque | Conf_set string string

record producer =
  pr_conf :: "conf_call list"
  pr_topic :: "string option"

text \<open>
  What the library answers during the set-up: to each \<open>rd_kafka_conf_set\<close>, to \<open>rd_kafka_new\<close>
  and to \<open>rd_kafka_topic_new\<close>.
\<close>

record kafka_setup_env =
  ks_conf_set :: "string \<Rightarrow> string \<Rightarrow> bool"
  ks_new :: bool
  ks_topic_new :: "string \<Rightarrow> bool"

definition kafka_settings :: "string \<Rightarrow> (string \<times> string) list" where
  "kafka_settings bootstrap =
     [(''bootstrap.servers'', bootstrap), (''acks'', ''1''), (''compression.codec'', ''snappy''),
      (''linger.ms'', ''5''), (''batch.num.messages'', ''1000'')]"

text \<open>The chain of \<open>else if\<close>: the first setting that is refused ends it.\<close>

fun conf_set_all :: "kafka_setup_env \<Rightarrow> (string \<times> string) list \<Rightarrow> conf_call list option" where
  "conf_set_all env [] = Some []"
| "conf_set_all env ((k, v) # kvs) =
     (if ks_conf_set env k v
      then (case conf_set_all env kvs of None \<Rightarrow> None | Some cs \<Rightarrow> Some (Conf_set k v # cs))
      else None)"

definition kafka_setup :: "kafka_setup_env \<Rightarrow> string option \<Rightarrow> string option \<Rightarrow> producer option" where
  "kafka_setup env kafka_bootstrap kafka_topic_name =
     (case kafka_bootstrap of
        None \<Rightarrow> None
      | Some b \<Rightarrow>
          if b = [] then None
          else (case conf_set_all env (kafka_settings b) of
                  None \<Rightarrow> None
                | Some calls \<Rightarrow>
                    if \<not> ks_new env then None
                    else let topic_name =
                           (case kafka_topic_name of
                              Some t \<Rightarrow> if t \<noteq> [] then t else ''event_stream''
                            | None \<Rightarrow> ''event_stream'')
                         in Some \<lparr>pr_conf = Set_dr_msg_cb # calls,
                                  pr_topic = (if ks_topic_new env topic_name then Some topic_name else None)\<rparr>))"

section \<open>Producing and reporting\<close>

record 'k kafka_lib =
  rd_produce :: "string \<Rightarrow> bytes \<Rightarrow> bytes \<Rightarrow> 'k \<Rightarrow> int \<times> 'k"
  rd_poll :: "'k \<Rightarrow> bool list \<times> 'k"
  rd_flush :: "'k \<Rightarrow> int \<times> bool list \<times> 'k"
  rd_purge :: "'k \<Rightarrow> 'k"

datatype crash = Null_dereference

text \<open>The callback; \<open>ok\<close> is \<open>rkmsg->err == RD_KAFKA_RESP_ERR_NO_ERROR\<close>.\<close>

definition dr_msg_cb :: "opaque \<Rightarrow> bool \<Rightarrow> metrics \<Rightarrow> crash + metrics" where
  "dr_msg_cb op ok m =
     (case op of
        Opaque_null \<Rightarrow> Inl Null_dereference
      | Opaque_metrics \<Rightarrow>
          Inr (if ok then fetch_add Total_kafka_ok 1 m else fetch_add Total_kafka_fail 1 m))"

fun serve_reports :: "opaque \<Rightarrow> bool list \<Rightarrow> metrics \<Rightarrow> crash + metrics" where
  "serve_reports op [] m = Inr m"
| "serve_reports op (ok # oks) m =
     (case dr_msg_cb op ok m of Inl e \<Rightarrow> Inl e | Inr m' \<Rightarrow> serve_reports op oks m')"

text \<open>One \<open>rd_kafka_poll\<close>: in the poll thread, and in the retry of a full local queue.\<close>

definition kafka_poll :: "'k kafka_lib \<Rightarrow> opaque \<Rightarrow> 'k \<times> metrics \<Rightarrow> crash + 'k \<times> metrics" where
  "kafka_poll lib op s =
     (let (oks, k) = rd_poll lib (fst s)
      in case serve_reports op oks (snd s) of Inl e \<Rightarrow> Inl e | Inr m \<Rightarrow> Inr (k, m))"

definition produce_to_kafka :: "'k kafka_lib \<Rightarrow> opaque \<Rightarrow> producer option \<Rightarrow> bytes \<Rightarrow> bytes
    \<Rightarrow> 'k \<times> metrics \<Rightarrow> crash + 'k \<times> metrics" where
  "produce_to_kafka lib op pr key data s =
     (case pr of
        None \<Rightarrow> Inr s
      | Some p \<Rightarrow>
        (case pr_topic p of
           None \<Rightarrow> Inr s
         | Some topic \<Rightarrow>
             let (err, k1) = rd_produce lib topic key data (fst s)
             in if err \<noteq> 0
                then (case kafka_poll lib op (k1, snd s) of
                        Inl e \<Rightarrow> Inl e
                      | Inr (k2, m2) \<Rightarrow>
                          let (err', k3) = rd_produce lib topic key data k2
                          in Inr (k3, if err' \<noteq> 0 then fetch_add Total_kafka_fail 1 m2 else m2))
                else Inr (k1, snd s)))"

section \<open>Which counters change\<close>

lemma serve_reports_counts:
  "serve_reports Opaque_metrics oks m =
     Inr (fetch_add Total_kafka_ok (of_nat (count_list oks True))
           (fetch_add Total_kafka_fail (of_nat (count_list oks False)) m))"
proof (induction oks arbitrary: m)
  case Nil
  show ?case by (auto intro: metrics_eq_load)
next
  case (Cons ok oks)
  then show ?case
    by (cases ok) (auto simp: dr_msg_cb_def intro!: metrics_eq_load)
qed

lemma serve_reports_null: "serve_reports Opaque_null oks m = (if oks = [] then Inr m else Inl Null_dereference)"
  by (cases oks) (simp_all add: dr_msg_cb_def)

lemma serve_reports_frame:
  assumes "serve_reports op oks m = Inr m'" and "c \<noteq> Total_kafka_ok" and "c \<noteq> Total_kafka_fail"
  shows "load c m' = load c m"
  using assms by (cases op) (auto simp: serve_reports_counts serve_reports_null split: if_splits)

lemma kafka_poll_frame:
  assumes "kafka_poll lib op s = Inr s'" and "c \<noteq> Total_kafka_ok" and "c \<noteq> Total_kafka_fail"
  shows "load c (snd s') = load c (snd s)"
  using assms by (auto simp: kafka_poll_def Let_def serve_reports_frame split: prod.splits sum.splits)

lemma produce_to_kafka_frame [ec_simps]:
  assumes "produce_to_kafka lib op pr key data s = Inr s'"
    and "c \<noteq> Total_kafka_ok" and "c \<noteq> Total_kafka_fail"
  shows "load c (snd s') = load c (snd s)"
  using assms
  by (auto simp: produce_to_kafka_def Let_def split: option.splits prod.splits if_splits sum.splits
      dest: kafka_poll_frame)

text \<open>
  A message the producer takes is not counted when it is handed over.  With the metrics as the
  callback's \<open>opaque\<close>, one call counts nothing when the library takes the message at the first
  attempt; otherwise the reports the poll served, and one failure more exactly when the second
  attempt is refused too.
\<close>

lemma produce_counts:
  assumes "pr = Some \<lparr>pr_conf = calls, pr_topic = Some topic\<rparr>"
    and "rd_produce lib topic key data k = (err, k1)"
    and "rd_poll lib k1 = (oks, k2)" and "rd_produce lib topic key data k2 = (err', k3)"
  shows "produce_to_kafka lib Opaque_metrics pr key data (k, m) =
    (if err = 0 then Inr (k1, m)
     else Inr (k3, fetch_add Total_kafka_ok (of_nat (count_list oks True))
       (fetch_add Total_kafka_fail (of_nat (count_list oks False) + (if err' \<noteq> 0 then 1 else 0)) m)))"
  using assms
  by (auto simp: produce_to_kafka_def kafka_poll_def serve_reports_counts Let_def
      intro!: metrics_eq_load)

text \<open>A library with a local queue of one message, which a poll delivers.\<close>

definition one_slot :: "nat kafka_lib" where
  "one_slot = \<lparr>rd_produce = (\<lambda>_ _ _ n. if n = 0 then (0, 1) else (- 1, n)),
     rd_poll = (\<lambda>n. (replicate n True, 0)), rd_flush = (\<lambda>n. (0, replicate n True, 0)), rd_purge = (\<lambda>_. 0)\<rparr>"

section \<open>The callback's pointer\<close>

text \<open>
  librdkafka documents the third argument of a delivery report callback as the pointer set
  with \<open>rd_kafka_conf_set_opaque\<close>, null when it was not set; the pointer given to
  \<open>rd_kafka_produce\<close> is found in the message instead.
\<close>

definition opaque_from_conf :: "(conf_call list \<Rightarrow> opaque) \<Rightarrow> bool" where
  "opaque_from_conf cb_opaque \<longleftrightarrow>
     (\<forall>calls. (\<forall>p. Set_opaque p \<notin> set calls) \<longrightarrow> cb_opaque calls = Opaque_null)"

lemma conf_set_all_calls: "conf_set_all env kvs = Some calls \<Longrightarrow> calls = map (\<lambda>(k, v). Conf_set k v) kvs"
  by (induction env kvs arbitrary: calls rule: conf_set_all.induct) (auto split: if_splits option.splits)

lemma kafka_setup_conf:
  "kafka_setup env b t = Some p \<Longrightarrow>
     \<exists>bs. b = Some bs \<and> pr_conf p = Set_dr_msg_cb # map (\<lambda>(k, v). Conf_set k v) (kafka_settings bs)"
  by (auto simp: kafka_setup_def Let_def split: option.splits if_splits dest!: conf_set_all_calls)

text \<open>
  C31: the first delivery report crashes the program.  The configuration the constructor
  builds never sets the opaque pointer, so with a library that passes the configuration's
  opaque to the callback, every producer the constructor can create has its callback
  dereference a null pointer at its first delivery report, whether the delivery succeeded
  or not.
\<close>

theorem delivery_report_crashes:
  assumes "opaque_from_conf cb_opaque" and "kafka_setup env bootstrap topic = Some p"
    and "rd_poll lib k = (ok # oks, k')"
  shows "kafka_poll lib (cb_opaque (pr_conf p)) (k, m) = Inl Null_dereference"
proof -
  from kafka_setup_conf [OF assms(2)] have "\<forall>q. Set_opaque q \<notin> set (pr_conf p)" by auto
  with assms(1) have "cb_opaque (pr_conf p) = Opaque_null" by (simp add: opaque_from_conf_def)
  with assms(3) show ?thesis by (simp add: kafka_poll_def dr_msg_cb_def)
qed

text \<open>The documented choice of the pointer, as a function of the calls.\<close>

fun last_opaque :: "conf_call list \<Rightarrow> opaque" where
  "last_opaque [] = Opaque_null"
| "last_opaque (c # cs) =
     (case c of
        Set_opaque p \<Rightarrow> if \<exists>q \<in> set cs. (case q of Set_opaque _ \<Rightarrow> True | _ \<Rightarrow> False) then last_opaque cs else p
      | _ \<Rightarrow> last_opaque cs)"

lemma last_opaque_documented: "opaque_from_conf last_opaque"
  unfolding opaque_from_conf_def
proof
  fix calls
  show "(\<forall>p. Set_opaque p \<notin> set calls) \<longrightarrow> last_opaque calls = Opaque_null"
    by (induction calls) (auto split: conf_call.splits)
qed

definition accepting_setup :: kafka_setup_env where
  "accepting_setup = \<lparr>ks_conf_set = (\<lambda>_ _. True), ks_new = True, ks_topic_new = (\<lambda>_. True)\<rparr>"

theorem delivery_report_crashes_witness:
  "\<exists>p. kafka_setup accepting_setup (Some ''localhost:9092'') None = Some p \<and>
     kafka_poll one_slot (last_opaque (pr_conf p)) (1, Metrics_init) = Inl Null_dereference"
proof -
  obtain p where p: "kafka_setup accepting_setup (Some ''localhost:9092'') None = Some p"
    by (simp add: kafka_setup_def accepting_setup_def kafka_settings_def Let_def)
  have "rd_poll one_slot 1 = (True # [], 0)" by (simp add: one_slot_def)
  from p delivery_report_crashes [OF last_opaque_documented p this] show ?thesis by blast
qed

end
