(* ===== verification/Processor.thy ===== *)
theory Processor
  imports Event_Queue Rate_Limiter Storage Kafka_Producer
begin

text \<open>
  \<open>include/processor.h\<close> and \<open>src/processor/processor.cpp\<close>: the workers that take events
  from the queue and pass them through parsing, validation, the rate limit, Kafka and
  ClickHouse, and the shutdown that empties the queue.

  \<open>processor\<close> is the object's state together with the state of the services it talks to;
  \<open>proc_ext\<close> holds those services and the Protobuf parser.  What the clock, the Redis
  connection and the disk do to one round of a loop is its \<open>iter_env\<close>.  A round that ends
  in a crash is \<open>Inl\<close>.
\<close>

section \<open>State\<close>

record ('r, 'k, 'c) processor =
  p_queue :: ts_queue
  p_metrics :: metrics
  p_running :: bool
  p_producer :: "producer option"
  p_storage :: "storage option"
  p_limiter :: "rate_limiter option"
  p_redis :: 'r
  p_kafka :: 'k
  p_client :: 'c
  p_files :: file_sys

record ('r, 'k, 'c) proc_ext =
  px_redis :: "'r redis_cmds"
  px_kafka :: "'k kafka_lib"
  px_store :: "'c store_ext"
  px_opaque :: opaque

record iter_env =
  it_time :: i64
  it_link :: link
  it_dl :: dl_env

section \<open>The steps of a round\<close>

definition bump :: "counter \<Rightarrow> ('r, 'k, 'c) processor \<Rightarrow> ('r, 'k, 'c) processor" where
  "bump c p = p\<lparr>p_metrics := fetch_add c 1 (p_metrics p)\<rparr>"

text \<open>\<open>rate_limiter_ && !rate_limiter_->allow(evt.user_id())\<close>, negated.\<close>

definition check_limit :: "('r, 'k, 'c) proc_ext \<Rightarrow> iter_env \<Rightarrow> event \<Rightarrow> ('r, 'k, 'c) processor
    \<Rightarrow> bool \<times> ('r, 'k, 'c) processor" where
  "check_limit ext env evt p =
     (case p_limiter p of
        None \<Rightarrow> (True, p)
      | Some rl \<Rightarrow>
          let (ok, r) = allow (px_redis ext) rl (it_link env) (user_id evt) (p_redis p)
          in (ok, p\<lparr>p_redis := r\<rparr>))"

definition kafka_event :: "('r, 'k, 'c) proc_ext \<Rightarrow> event \<Rightarrow> bytes \<Rightarrow> ('r, 'k, 'c) processor
    \<Rightarrow> crash + ('r, 'k, 'c) processor" where
  "kafka_event ext evt d p =
     (case produce_to_kafka (px_kafka ext) (px_opaque ext) (p_producer p) (user_id evt) d
             (p_kafka p, p_metrics p) of
        Inl e \<Rightarrow> Inl e
      | Inr (k, m) \<Rightarrow> Inr (p\<lparr>p_kafka := k, p_metrics := m\<rparr>))"

definition store_world_of :: "('r, 'k, 'c) processor \<Rightarrow> 'c store_world" where
  "store_world_of p = \<lparr>sw_client = p_client p, sw_files = p_files p, sw_metrics = p_metrics p\<rparr>"

definition put_store :: "storage \<times> 'c store_world \<Rightarrow> ('r, 'k, 'c) processor \<Rightarrow> ('r, 'k, 'c) processor" where
  "put_store s p = p\<lparr>p_storage := Some (fst s), p_client := sw_client (snd s),
     p_files := sw_files (snd s), p_metrics := sw_metrics (snd s)\<rparr>"

definition save_event :: "('r, 'k, 'c) proc_ext \<Rightarrow> iter_env \<Rightarrow> bytes \<Rightarrow> ('r, 'k, 'c) processor
    \<Rightarrow> ('r, 'k, 'c) processor" where
  "save_event ext env d p =
     (case p_storage p of
        None \<Rightarrow> p
      | Some st \<Rightarrow> put_store (snd (save (px_store ext) (it_dl env) d (st, store_world_of p))) p)"

definition deliver :: "('r, 'k, 'c) proc_ext \<Rightarrow> iter_env \<Rightarrow> event \<Rightarrow> bytes \<Rightarrow> ('r, 'k, 'c) processor
    \<Rightarrow> crash + ('r, 'k, 'c) processor" where
  "deliver ext env evt d p =
     (case kafka_event ext evt d p of Inl e \<Rightarrow> Inl e | Inr p' \<Rightarrow> Inr (save_event ext env d p'))"

section \<open>The worker\<close>

text \<open>\<open>Processor::validate\<close> is \<open>validate_event\<close> on the clock's value.\<close>

definition validate :: "i64 \<Rightarrow> event \<Rightarrow> bool" where
  "validate time evt = validate_event time evt"

text \<open>What the loop of \<open>worker\<close> does with the event it took from the queue.\<close>

definition work_event :: "('r, 'k, 'c) proc_ext \<Rightarrow> iter_env \<Rightarrow> bytes \<Rightarrow> ('r, 'k, 'c) processor
    \<Rightarrow> crash + ('r, 'k, 'c) processor" where
  "work_event ext env d p0 =
     (let p = bump Total_received p0
      in case parse_event (px_store ext) d of
           None \<Rightarrow> Inr (bump Total_parse_fail p)
         | Some evt \<Rightarrow>
             let p = bump Total_parsed p
             in if \<not> validate (it_time env) evt then Inr (bump Total_invalid p)
                else let p = bump Total_valid p;
                         (ok, p) = check_limit ext env evt p
                     in if \<not> ok then Inr (bump Total_rate_limited p)
                        else deliver ext env evt d p)"

text \<open>
  One round: the flag was seen true, then a pop that waits up to half a second.  \<open>wakes\<close> and
  \<open>final\<close> are what the other threads do to the queue during the wait.
\<close>

definition worker_round :: "('r, 'k, 'c) proc_ext \<Rightarrow> bytes qop list list \<Rightarrow> bytes qop list \<Rightarrow> iter_env
    \<Rightarrow> ('r, 'k, 'c) processor \<Rightarrow> crash + ('r, 'k, 'c) processor" where
  "worker_round ext wakes final env p =
     (let (data, q) = try_pop_for wakes final (p_queue p); p' = p\<lparr>p_queue := q\<rparr>
      in case data of None \<Rightarrow> Inr p' | Some d \<Rightarrow> work_event ext env d p')"

text \<open>The loop, one list element per round, as long as the flag is seen true at its head.\<close>

fun worker :: "('r, 'k, 'c) proc_ext \<Rightarrow> (bytes qop list list \<times> bytes qop list \<times> iter_env) list
    \<Rightarrow> ('r, 'k, 'c) processor \<Rightarrow> crash + ('r, 'k, 'c) processor" where
  "worker ext [] p = Inr p"
| "worker ext ((wakes, final, env) # rounds) p =
     (if \<not> p_running p then Inr p
      else case worker_round ext wakes final env p of
             Inl e \<Rightarrow> Inl e
           | Inr p' \<Rightarrow> worker ext rounds p')"

section \<open>The shutdown\<close>

text \<open>What \<open>stop\<close> does with an event left in the queue: no rate limit.\<close>

definition drain_event :: "('r, 'k, 'c) proc_ext \<Rightarrow> iter_env \<Rightarrow> bytes \<Rightarrow> ('r, 'k, 'c) processor
    \<Rightarrow> crash + ('r, 'k, 'c) processor" where
  "drain_event ext env d p0 =
     (let p = bump Total_received p0
      in case parse_event (px_store ext) d of
           Some evt \<Rightarrow>
             let p = bump Total_parsed p
             in if validate (it_time env) evt
                then deliver ext env evt d (bump Total_valid p)
                else Inr (bump Total_invalid p)
         | None \<Rightarrow> Inr (bump Total_parse_fail p))"

text \<open>The steps of a round leave the queue alone.\<close>

lemma bump_simps [simp]:
  "p_queue (bump c p) = p_queue p" "p_running (bump c p) = p_running p"
  "p_producer (bump c p) = p_producer p" "p_storage (bump c p) = p_storage p"
  "p_limiter (bump c p) = p_limiter p" "p_redis (bump c p) = p_redis p"
  "p_kafka (bump c p) = p_kafka p" "p_client (bump c p) = p_client p" "p_files (bump c p) = p_files p"
  "p_metrics (bump c p) = fetch_add c 1 (p_metrics p)"
  by (simp_all add: bump_def)

lemma check_limit_keeps:
  assumes "check_limit ext env evt p = (ok, p')"
  shows "p_queue p' = p_queue p" "p_metrics p' = p_metrics p" "p_storage p' = p_storage p"
    "p_producer p' = p_producer p" "p_running p' = p_running p" "p_limiter p' = p_limiter p"
    "p_kafka p' = p_kafka p" "p_client p' = p_client p" "p_files p' = p_files p"
  using assms by (auto simp: check_limit_def Let_def split: option.splits prod.splits)

lemma kafka_event_keeps:
  assumes "kafka_event ext evt d p = Inr p'"
  shows "p_queue p' = p_queue p" "p_running p' = p_running p" "p_producer p' = p_producer p"
    "p_storage p' = p_storage p" "p_limiter p' = p_limiter p" "p_redis p' = p_redis p"
    "p_client p' = p_client p" "p_files p' = p_files p"
  using assms by (auto simp: kafka_event_def split: sum.splits)

lemma save_event_keeps:
  "p_queue (save_event ext env d p) = p_queue p" "p_running (save_event ext env d p) = p_running p"
  "p_producer (save_event ext env d p) = p_producer p" "p_limiter (save_event ext env d p) = p_limiter p"
  "p_redis (save_event ext env d p) = p_redis p" "p_kafka (save_event ext env d p) = p_kafka p"
  "p_storage (save_event ext env d p) = None \<longleftrightarrow> p_storage p = None"
  by (auto simp: save_event_def put_store_def split: option.splits)

lemma deliver_keeps:
  assumes "deliver ext env evt d p = Inr p'"
  shows "p_queue p' = p_queue p" "p_running p' = p_running p" "p_producer p' = p_producer p"
    "p_limiter p' = p_limiter p" "p_redis p' = p_redis p" "p_storage p' = None \<longleftrightarrow> p_storage p = None"
  using assms by (auto simp: deliver_def save_event_keeps split: sum.splits dest: kafka_event_keeps)

lemma drain_event_keeps:
  assumes "drain_event ext env d p = Inr p'"
  shows "p_queue p' = p_queue p" "p_running p' = p_running p" "p_producer p' = p_producer p"
    "p_limiter p' = p_limiter p" "p_redis p' = p_redis p" "p_storage p' = None \<longleftrightarrow> p_storage p = None"
  using assms
  by (auto simp: drain_event_def Let_def deliver_keeps split: option.splits if_splits dest: deliver_keeps)

text \<open>
  \<open>while (queue_.try_pop(data))\<close>; by then no other thread uses the queue, and each round
  takes one element from it.  \<open>envs n\<close> is the environment of round \<open>n\<close>.
\<close>

function drain :: "('r, 'k, 'c) proc_ext \<Rightarrow> (nat \<Rightarrow> iter_env) \<Rightarrow> nat \<Rightarrow> ('r, 'k, 'c) processor
    \<Rightarrow> crash + ('r, 'k, 'c) processor" where
  "drain ext envs n p =
     (case try_pop [] (p_queue p) of
        (False, _, q) \<Rightarrow> Inr (p\<lparr>p_queue := q\<rparr>)
      | (True, d, q) \<Rightarrow>
          (case drain_event ext (envs n) d (p\<lparr>p_queue := q\<rparr>) of
             Inl e \<Rightarrow> Inl e
           | Inr p' \<Rightarrow> drain ext envs (Suc n) p'))"
  by pat_completeness auto
termination
  by (relation "measure (\<lambda>(ext, envs, n, p). length (tsq_queue (p_queue p)))")
    (auto simp: try_pop_def drain_event_keeps split: list.splits)

declare drain.simps [simp del]

text \<open>
  \<open>stop\<close>, after the worker threads have been joined: drain the queue, flush the storage,
  flush Kafka and purge what did not leave in time.
\<close>

definition stop_storage :: "('r, 'k, 'c) proc_ext \<Rightarrow> iter_env \<Rightarrow> ('r, 'k, 'c) processor
    \<Rightarrow> ('r, 'k, 'c) processor" where
  "stop_storage ext env p =
     (case p_storage p of
        None \<Rightarrow> p
      | Some st \<Rightarrow> put_store (flush_and_stop (px_store ext) (it_dl env) (st, store_world_of p)) p)"

definition stop_kafka :: "('r, 'k, 'c) proc_ext \<Rightarrow> ('r, 'k, 'c) processor
    \<Rightarrow> crash + ('r, 'k, 'c) processor" where
  "stop_kafka ext p =
     (case p_producer p of
        None \<Rightarrow> Inr p
      | Some _ \<Rightarrow>
          let (remaining, oks, k) = rd_flush (px_kafka ext) (p_kafka p)
          in case serve_reports (px_opaque ext) oks (p_metrics p) of
               Inl e \<Rightarrow> Inl e
             | Inr m \<Rightarrow>
                 Inr (p\<lparr>p_kafka := (if remaining \<noteq> 0 then rd_purge (px_kafka ext) k else k),
                        p_metrics := m\<rparr>))"

definition stop :: "('r, 'k, 'c) proc_ext \<Rightarrow> (nat \<Rightarrow> iter_env) \<Rightarrow> iter_env \<Rightarrow> ('r, 'k, 'c) processor
    \<Rightarrow> crash + ('r, 'k, 'c) processor" where
  "stop ext envs env p0 =
     (let p = p0\<lparr>p_running := False\<rparr>
      in case drain ext envs 0 p of
           Inl e \<Rightarrow> Inl e
         | Inr p' \<Rightarrow> stop_kafka ext (stop_storage ext env p'))"

section \<open>What a round counts\<close>

datatype outcome = Parse_failed | Invalid | Rate_limited | Delivered

definition work_outcome :: "('r, 'k, 'c) proc_ext \<Rightarrow> iter_env \<Rightarrow> bytes \<Rightarrow> ('r, 'k, 'c) processor \<Rightarrow> outcome" where
  "work_outcome ext env d p =
     (case parse_event (px_store ext) d of
        None \<Rightarrow> Parse_failed
      | Some evt \<Rightarrow>
          if \<not> validate (it_time env) evt then Invalid
          else if fst (check_limit ext env evt p) then Delivered else Rate_limited)"

fun outcome_counters :: "outcome \<Rightarrow> counter set" where
  "outcome_counters Parse_failed = {Total_received, Total_parse_fail}"
| "outcome_counters Invalid = {Total_received, Total_parsed, Total_invalid}"
| "outcome_counters Rate_limited = {Total_received, Total_parsed, Total_valid, Total_rate_limited}"
| "outcome_counters Delivered = {Total_received, Total_parsed, Total_valid}"

definition sink_counters :: "counter set" where
  "sink_counters = {Total_kafka_ok, Total_kafka_fail, Total_stored, Total_store_dead}"

text \<open>The limiter's answer does not depend on the counters.\<close>

lemma check_limit_bump [simp]:
  "check_limit ext env evt (bump c p) = (fst (check_limit ext env evt p), bump c (snd (check_limit ext env evt p)))"
  by (simp add: check_limit_def bump_def Let_def split: option.splits prod.splits)

lemma kafka_event_frame:
  "kafka_event ext evt d p = Inr p' \<Longrightarrow> c \<notin> sink_counters \<Longrightarrow> load c (p_metrics p') = load c (p_metrics p)"
  by (auto simp: kafka_event_def sink_counters_def split: sum.splits dest: produce_to_kafka_frame)

lemma save_event_frame:
  assumes "c \<notin> sink_counters"
  shows "load c (p_metrics (save_event ext env d p)) = load c (p_metrics p)"
  using save_op.frame [of c "px_store ext" "it_dl env" d "(the (p_storage p), store_world_of p)"] assms
  by (auto simp: save_event_def put_store_def sink_counters_def store_world_of_def split: option.splits)

lemma deliver_frame:
  "deliver ext env evt d p = Inr p' \<Longrightarrow> c \<notin> sink_counters \<Longrightarrow> load c (p_metrics p') = load c (p_metrics p)"
  by (auto simp: deliver_def save_event_frame kafka_event_frame split: sum.splits)

lemma work_event_counters:
  assumes "work_event ext env d p = Inr p'" and "c \<notin> sink_counters"
  shows "load c (p_metrics p') =
    load c (p_metrics p) + (if c \<in> outcome_counters (work_outcome ext env d p) then 1 else 0)"
proof (cases "parse_event (px_store ext) d")
  case None
  with assms show ?thesis by (auto simp: work_event_def work_outcome_def)
next
  case (Some evt)
  obtain ok q where l: "check_limit ext env evt p = (ok, q)" by fastforce
  have q: "p_metrics q = p_metrics p" using check_limit_keeps(2) [OF l] .
  show ?thesis
  proof (cases "validate (it_time env) evt \<and> ok")
    case True
    with assms(1) Some l
    have "deliver ext env evt d (bump Total_valid (bump Total_parsed (bump Total_received q))) = Inr p'"
      by (simp add: work_event_def Let_def)
    from deliver_frame [OF this assms(2)] True Some l q show ?thesis
      by (auto simp: work_outcome_def)
  next
    case False
    with assms Some l q show ?thesis
      by (auto simp: work_event_def work_outcome_def Let_def split: if_splits)
  qed
qed

text \<open>
  C13: every event is counted along exactly one path.  A round that handles an event adds one
  to \<open>received\<close> and then to exactly the counters of one of four outcomes: the parse failed,
  the fields are invalid, the user is over the limit, or the event went on to Kafka and
  ClickHouse; no other counter outside those two services' own changes.
\<close>

theorem work_event_outcome:
  assumes "work_event ext env d p = Inr p'" and "c \<notin> sink_counters"
  shows "load c (p_metrics p') = load c (p_metrics p) +
    (if c \<in> outcome_counters (work_outcome ext env d p) then 1 else 0)"
  using assms by (rule work_event_counters)

text \<open>A program with every service switched off, whose parser accepts only one message.\<close>

definition bare_ext :: "(unit, unit, unit) proc_ext" where
  "bare_ext = \<lparr>px_redis = \<lparr>INCR = (\<lambda>_ _. (Inr 1, ())), EXPIRE = (\<lambda>_ _ _. (Inr 1, ()))\<rparr>,
     px_kafka = \<lparr>rd_produce = (\<lambda>_ _ _ _. (0, ())), rd_poll = (\<lambda>_. ([], ())), rd_flush = (\<lambda>_. (0, [], ())),
       rd_purge = (\<lambda>_. ())\<rparr>,
     px_store = \<lparr>parse_event = (\<lambda>d. if d = ''ev'' then Some sample_event else None),
       ch_insert = (\<lambda>_ _ _. (True, ()))\<rparr>,
     px_opaque = Opaque_metrics\<rparr>"

definition bare_processor :: "bytes list \<Rightarrow> (unit, unit, unit) processor" where
  "bare_processor xs = \<lparr>p_queue = \<lparr>tsq_queue = xs, tsq_capacity = 10000\<rparr>, p_metrics = Metrics_init,
     p_running = True, p_producer = None, p_storage = None, p_limiter = None, p_redis = (), p_kafka = (),
     p_client = (), p_files = Map.empty\<rparr>"

definition sample_env :: iter_env where
  "sample_env = \<lparr>it_time = 1779000000, it_link = Link_ok,
     it_dl = \<lparr>dl_time = 0, dl_rename = True, dl_open = True, dl_room = 100\<rparr>\<rparr>"

lemma sample_valid: "validate (it_time sample_env) sample_event"
  by (simp add: validate_def validate_event_def sample_env_def sample_event_def Let_def)

theorem work_event_outcome_witness:
  "\<exists>p'. work_event bare_ext sample_env ''ev'' (bare_processor []) = Inr p' \<and>
     load Total_valid (p_metrics p') = 1"
proof -
  have e: "parse_event (px_store bare_ext) ''ev'' = Some sample_event" by (simp add: bare_ext_def)
  then obtain p' where p': "work_event bare_ext sample_env ''ev'' (bare_processor []) = Inr p'"
    using sample_valid
    by (simp add: work_event_def Let_def check_limit_def deliver_def kafka_event_def
        produce_to_kafka_def bare_processor_def)
  have "work_outcome bare_ext sample_env ''ev'' (bare_processor []) = Delivered"
    using e sample_valid by (simp add: work_outcome_def check_limit_def bare_processor_def)
  with p' work_event_outcome [OF p', of Total_valid] show ?thesis
    by (simp add: sink_counters_def bare_processor_def)
qed

section \<open>The services see only valid, admitted events\<close>

text \<open>
  C30: an event that does not parse, is invalid or is over its user's limit never reaches
  Kafka or ClickHouse.  Unless the outcome of the round is a delivery, the round leaves the
  Kafka library, the ClickHouse client, the storage buffer and the files as they were.
\<close>

theorem rejected_event_stays_out:
  assumes "work_outcome ext env d p \<noteq> Delivered"
  shows "\<exists>p'. work_event ext env d p = Inr p' \<and> p_kafka p' = p_kafka p \<and> p_client p' = p_client p \<and>
    p_storage p' = p_storage p \<and> p_files p' = p_files p"
proof (cases "parse_event (px_store ext) d")
  case None
  then show ?thesis by (simp add: work_event_def)
next
  case (Some evt)
  obtain ok q where l: "check_limit ext env evt p = (ok, q)" by fastforce
  with Some assms check_limit_keeps [OF l] show ?thesis
    by (auto simp: work_event_def work_outcome_def Let_def split: if_splits)
qed

theorem rejected_event_stays_out_witness:
  "work_outcome bare_ext sample_env ''junk'' (bare_processor []) = Parse_failed \<and>
   (\<exists>p'. work_event bare_ext sample_env ''junk'' (bare_processor []) = Inr p' \<and>
      p_storage p' = p_storage (bare_processor []))"
proof -
  have o: "work_outcome bare_ext sample_env ''junk'' (bare_processor []) = Parse_failed"
    by (simp add: work_outcome_def bare_ext_def)
  then have "work_outcome bare_ext sample_env ''junk'' (bare_processor []) \<noteq> Delivered" by simp
  from o rejected_event_stays_out [OF this] show ?thesis by blast
qed

section \<open>The counters stay balanced\<close>

text \<open>The two equations that hold between the counters when no round is under way.\<close>

definition balanced :: "metrics \<Rightarrow> bool" where
  "balanced m \<longleftrightarrow>
     load Total_received m = load Total_parsed m + load Total_parse_fail m \<and>
     load Total_parsed m = load Total_valid m + load Total_invalid m"

lemma pipeline_counters [simp]:
  "Total_received \<notin> sink_counters" "Total_parsed \<notin> sink_counters" "Total_valid \<notin> sink_counters"
  "Total_invalid \<notin> sink_counters" "Total_parse_fail \<notin> sink_counters" "Total_rate_limited \<notin> sink_counters"
  "Total_queue_drop \<notin> sink_counters" "Total_store_fail \<notin> sink_counters"
  by (simp_all add: sink_counters_def)

lemma balanced_work_event [ec_inv]:
  "balanced (p_metrics p) \<Longrightarrow> work_event ext env d p = Inr p' \<Longrightarrow> balanced (p_metrics p')"
  by (cases "work_outcome ext env d p") (auto simp: balanced_def work_event_counters)

lemma balanced_worker_round [ec_inv]:
  "balanced (p_metrics p) \<Longrightarrow> worker_round ext wakes final env p = Inr p' \<Longrightarrow> balanced (p_metrics p')"
  by (auto simp: worker_round_def Let_def split: prod.splits option.splits intro: balanced_work_event [rotated])

lemma balanced_worker [ec_inv]:
  "balanced (p_metrics p) \<Longrightarrow> worker ext rounds p = Inr p' \<Longrightarrow> balanced (p_metrics p')"
  by (induction ext rounds p rule: worker.induct)
    (auto split: if_splits sum.splits intro: balanced_worker_round)

section \<open>Draining is working without the limit\<close>

lemma drain_event_work:
  "drain_event ext env d p =
     map_sum id (\<lambda>p'. p'\<lparr>p_limiter := p_limiter p\<rparr>) (work_event ext env d (p\<lparr>p_limiter := None\<rparr>))"
proof -
  have bl: "bump c (p\<lparr>p_limiter := x\<rparr>) = (bump c p)\<lparr>p_limiter := x\<rparr>" for c x and p :: "('a, 'b, 'c) processor"
    by (simp add: bump_def)
  have dl: "map_sum id (\<lambda>p'. p'\<lparr>p_limiter := l\<rparr>) (deliver ext env evt d (q\<lparr>p_limiter := None\<rparr>))
      = deliver ext env evt d q" if "p_limiter q = l" for l evt and q :: "('a, 'b, 'c) processor"
    using that
    by (auto simp: deliver_def kafka_event_def save_event_def put_store_def store_world_of_def
        split: sum.splits option.splits)
  show ?thesis
    by (simp add: drain_event_def work_event_def Let_def check_limit_def bl dl split: option.splits)
qed

text \<open>
  C33: the shutdown treats an event as a worker without a rate limiter would.  The separate
  code of \<open>stop\<close> for the events left in the queue has the result of the worker's code on the
  same processor with the limiter switched off, so every event still queued at shutdown
  skips the rate limit.
\<close>

theorem drain_is_unlimited_work:
  "drain_event ext env d p =
     map_sum id (\<lambda>p'. p'\<lparr>p_limiter := p_limiter p\<rparr>) (work_event ext env d (p\<lparr>p_limiter := None\<rparr>))"
  by (rule drain_event_work)

section \<open>The shutdown empties the queue\<close>

text \<open>The configurations in which no delivery report can crash the process.\<close>

definition reports_safe :: "('r, 'k, 'c) proc_ext \<Rightarrow> ('r, 'k, 'c) processor \<Rightarrow> bool" where
  "reports_safe ext p \<longleftrightarrow> px_opaque ext = Opaque_metrics \<or> p_producer p = None"

lemma deliver_safe: "reports_safe ext p \<Longrightarrow> \<exists>p'. deliver ext env evt d p = Inr p'"
  by (auto simp: reports_safe_def deliver_def kafka_event_def produce_to_kafka_def kafka_poll_def
      serve_reports_counts Let_def split: option.splits prod.splits sum.splits)

lemma reports_safe_bump [simp]: "reports_safe ext (bump c p) = reports_safe ext p"
  by (simp add: reports_safe_def)

lemma drain_event_safe: "reports_safe ext p \<Longrightarrow> \<exists>p'. drain_event ext env d p = Inr p'"
  by (auto simp: drain_event_def Let_def deliver_safe split: option.splits)

lemma drain_event_counters:
  assumes "drain_event ext env d p = Inr p'"
  shows "load Total_received (p_metrics p') = load Total_received (p_metrics p) + 1"
    and "balanced (p_metrics p) \<Longrightarrow> balanced (p_metrics p')"
proof -
  from assms obtain p1 where w: "work_event ext env d (p\<lparr>p_limiter := None\<rparr>) = Inr p1"
    and m: "p_metrics p' = p_metrics p1"
    unfolding drain_event_work by (cases "work_event ext env d (p\<lparr>p_limiter := None\<rparr>)") auto
  show "load Total_received (p_metrics p') = load Total_received (p_metrics p) + 1"
    using work_event_counters [OF w, of Total_received] m
    by (cases "work_outcome ext env d (p\<lparr>p_limiter := None\<rparr>)") simp_all
  show "balanced (p_metrics p')" if "balanced (p_metrics p)"
    using balanced_work_event [OF _ w] that m by simp
qed

lemma drain_result:
  assumes "drain ext envs n p = Inr p'" and "balanced (p_metrics p)"
  shows "tsq_queue (p_queue p') = [] \<and> p_running p' = p_running p \<and> balanced (p_metrics p') \<and>
    load Total_received (p_metrics p') = load Total_received (p_metrics p) + of_nat (length (tsq_queue (p_queue p)))"
  using assms
proof (induction "tsq_queue (p_queue p)" arbitrary: n p)
  case Nil
  then show ?case by (simp add: drain.simps [of ext envs n p] try_pop_def)
next
  case (Cons d ds)
  let ?p = "p\<lparr>p_queue := p_queue p\<lparr>tsq_queue := ds\<rparr>\<rparr>"
  from Cons.prems(1) Cons.hyps(2) [symmetric] obtain p1 where
    p1: "drain_event ext (envs n) d ?p = Inr p1" "drain ext envs (Suc n) p1 = Inr p'"
    by (auto simp: drain.simps [of ext envs n p] try_pop_def split: sum.splits)
  note k = drain_event_keeps [OF p1(1)] drain_event_counters [OF p1(1)]
  have "ds = tsq_queue (p_queue p1)" "balanced (p_metrics p1)" using k Cons.prems(2) by simp_all
  from Cons.hyps(1) [OF this(1) p1(2) this(2)] k Cons.hyps(2) [symmetric] show ?case by simp
qed

lemma drain_keeps_producer:
  assumes "drain ext envs n p = Inr p'"
  shows "p_producer p' = p_producer p"
  using assms
proof (induction "tsq_queue (p_queue p)" arbitrary: n p)
  case Nil
  then show ?case by (simp add: drain.simps [of ext envs n p] try_pop_def)
next
  case (Cons d ds)
  let ?p = "p\<lparr>p_queue := p_queue p\<lparr>tsq_queue := ds\<rparr>\<rparr>"
  from Cons.prems Cons.hyps(2) [symmetric] obtain p1 where
    p1: "drain_event ext (envs n) d ?p = Inr p1" "drain ext envs (Suc n) p1 = Inr p'"
    by (auto simp: drain.simps [of ext envs n p] try_pop_def split: sum.splits)
  have "ds = tsq_queue (p_queue p1)" using drain_event_keeps [OF p1(1)] by simp
  from Cons.hyps(1) [OF this p1(2)] drain_event_keeps [OF p1(1)] show ?case by simp
qed

lemma drain_returns: "reports_safe ext p \<Longrightarrow> \<exists>p'. drain ext envs n p = Inr p'"
proof (induction "tsq_queue (p_queue p)" arbitrary: n p)
  case Nil
  then show ?case by (simp add: drain.simps [of ext envs n p] try_pop_def)
next
  case (Cons d ds)
  let ?p = "p\<lparr>p_queue := p_queue p\<lparr>tsq_queue := ds\<rparr>\<rparr>"
  have "reports_safe ext ?p" using Cons.prems by (simp add: reports_safe_def)
  then obtain p1 where p1: "drain_event ext (envs n) d ?p = Inr p1" using drain_event_safe by blast
  have "reports_safe ext p1" "ds = tsq_queue (p_queue p1)"
    using Cons.prems drain_event_keeps [OF p1] by (simp_all add: reports_safe_def)
  from Cons.hyps(1) [OF this(2,1), of "Suc n"] p1 Cons.hyps(2) [symmetric] show ?case
    by (auto simp: drain.simps [of ext envs n p] try_pop_def)
qed

lemma stop_storage_frame:
  assumes "c \<notin> sink_counters"
  shows "load c (p_metrics (stop_storage ext env p)) = load c (p_metrics p)"
  using flush_op.frame [of c "px_store ext" "it_dl env" "(the (p_storage p), store_world_of p)"] assms
  by (auto simp: stop_storage_def put_store_def sink_counters_def store_world_of_def split: option.splits)

lemma stop_storage_keeps:
  "p_queue (stop_storage ext env p) = p_queue p" "p_running (stop_storage ext env p) = p_running p"
  "p_producer (stop_storage ext env p) = p_producer p"
  "p_storage (stop_storage ext env p) = Some st \<Longrightarrow> st_buffer st = []"
  by (auto simp: stop_storage_def put_store_def flush_and_stop_def swap_locked_def Let_def
      split: option.splits if_splits)

lemma stop_kafka_keeps:
  assumes "stop_kafka ext p = Inr p'"
  shows "p_queue p' = p_queue p" "p_running p' = p_running p" "p_storage p' = p_storage p"
    "c \<notin> sink_counters \<Longrightarrow> load c (p_metrics p') = load c (p_metrics p)"
  using assms
  by (auto simp: stop_kafka_def Let_def sink_counters_def split: option.splits prod.splits sum.splits
      dest: serve_reports_frame)

lemma stop_kafka_safe: "reports_safe ext p \<Longrightarrow> \<exists>p'. stop_kafka ext p = Inr p'"
  by (auto simp: reports_safe_def stop_kafka_def Let_def serve_reports_counts split: option.splits prod.splits)

lemma balanced_cong:
  "(\<And>c. c \<notin> sink_counters \<Longrightarrow> load c m' = load c m) \<Longrightarrow> balanced m' = balanced m"
  by (simp add: balanced_def)

text \<open>What \<open>stop\<close> leaves whenever it returns, and where it cannot crash.\<close>

lemma stop_done:
  assumes "stop ext envs env p = Inr p'" and "balanced (p_metrics p)"
  shows "tsq_queue (p_queue p') = [] \<and> \<not> p_running p' \<and>
    (\<forall>st. p_storage p' = Some st \<longrightarrow> st_buffer st = []) \<and> balanced (p_metrics p') \<and>
    load Total_received (p_metrics p') =
      load Total_received (p_metrics p) + of_nat (length (tsq_queue (p_queue p)))"
proof -
  obtain p1 where p1: "drain ext envs 0 (p\<lparr>p_running := False\<rparr>) = Inr p1"
    and p3: "stop_kafka ext (stop_storage ext env p1) = Inr p'"
    using assms(1) by (auto simp: stop_def split: sum.splits)
  note d = drain_result [OF p1]
  note k2 = stop_storage_keeps [of ext env p1] and k3 = stop_kafka_keeps [OF p3]
  have f: "load c (p_metrics p') = load c (p_metrics p1)" if "c \<notin> sink_counters" for c
    using that k3(4) stop_storage_frame by metis
  have "balanced (p_metrics p')" using balanced_cong [OF f] d assms(2) by simp
  with d k2 k3(1-3) f [of Total_received] assms(2) show ?thesis by simp
qed

lemma stop_returns:
  assumes "reports_safe ext p"
  shows "\<exists>p'. stop ext envs env p = Inr p'"
proof -
  have "reports_safe ext (p\<lparr>p_running := False\<rparr>)" using assms by (simp add: reports_safe_def)
  then obtain p1 where p1: "drain ext envs 0 (p\<lparr>p_running := False\<rparr>) = Inr p1" using drain_returns by blast
  have "p_producer p1 = p_producer p" using drain_keeps_producer [OF p1] by simp
  with assms have "reports_safe ext (stop_storage ext env p1)"
    using stop_storage_keeps(3) [of ext env p1] by (simp add: reports_safe_def)
  with p1 stop_kafka_safe show ?thesis by (fastforce simp: stop_def)
qed

lemma stop_result:
  assumes "reports_safe ext p" and "balanced (p_metrics p)"
  shows "\<exists>p'. stop ext envs env p = Inr p' \<and> tsq_queue (p_queue p') = []"
  using stop_returns [OF assms(1), of envs env] stop_done [OF _ assms(2), of ext envs env] by blast

end
