(* ===== verification/Framing.thy ===== *)
theory Framing
  imports Prelude
begin

text \<open>
  The wire format between the clients and the collector: a 4-byte little-endian length and
  that many bytes of Protobuf.  The clients (\<open>bench_client.py\<close>, \<open>test_client.py\<close>) write it
  with \<open>struct.pack("<I", len(data)) + data\<close>; \<open>Session::do_read_header\<close> of
  \<open>src/collector/collector.cpp\<close> puts the four bytes together with shifts.
\<close>

section \<open>Both ends\<close>

text \<open>The length a session computes from the four bytes of \<open>header_\<close>, as a 32-bit value.\<close>

definition header_byte :: "bytes \<Rightarrow> nat \<Rightarrow> u32" where
  "header_byte h i = ucast (of_char (h ! i) :: u8)"

definition header_len :: "bytes \<Rightarrow> u32" where
  "header_len h =
     ((header_byte h 0 OR push_bit 8 (header_byte h 1))
       OR push_bit 16 (header_byte h 2)) OR push_bit 24 (header_byte h 3)"

text \<open>\<open>struct.pack("<I", n)\<close>, which raises an error when \<open>n\<close> does not fit.\<close>

definition pack_le32 :: "nat \<Rightarrow> bytes option" where
  "pack_le32 n =
     (if n < 2 ^ 32
      then Some [char_of (n mod 256), char_of (n div 256 mod 256), char_of (n div 65536 mod 256),
                 char_of (n div 16777216 mod 256)]
      else None)"

definition frame :: "bytes \<Rightarrow> bytes option" where
  "frame data = (case pack_le32 (length data) of None \<Rightarrow> None | Some h \<Rightarrow> Some (h @ data))"

section \<open>The shifts compute the little-endian value\<close>

lemma unat_header_byte: "unat (header_byte h i) = of_char (h ! i)"
proof -
  have "of_char (h ! i) < (2 :: nat) ^ 32"
    by (rule less_trans [OF nat_of_char_less_256]) simp
  then show ?thesis by (simp add: header_byte_def unsigned_ucast_eq take_bit_nat_eq_self)
qed

lemma unat_or_push_bit:
  fixes w :: u32
  assumes w: "unat w < 2 ^ k" and b: "unat b < 256" and k: "k + 8 \<le> 32"
  shows "unat (w OR push_bit k b) = unat w + 2 ^ k * unat b"
proof -
  have p: "2 ^ k * unat b < 2 ^ (k + 8)" using b by (simp add: power_add)
  also have "\<dots> \<le> (2 :: nat) ^ 32" using k by (intro power_increasing) simp_all
  finally have "2 ^ k * unat b < 2 ^ 32" .
  then have "take_bit 32 (push_bit k (unat b)) = 2 ^ k * unat b"
    by (simp add: take_bit_nat_eq_self push_bit_eq_mult mult.commute)
  then have s: "unat (push_bit k b) = 2 ^ k * unat b"
    unfolding unsigned_push_bit_eq by simp
  have "w = take_bit k w"
    using w by (metis take_bit_nat_eq_self_iff unsigned_take_bit_eq word_unat_eq_iff)
  then have "w AND push_bit k b = 0"
    by (intro bit_eqI) (metis bit_0_eq bit_and_iff bit_push_bit_iff bit_take_bit_iff bot_apply bot_bool_def linorder_not_less)
  then have "w OR push_bit k b = w + push_bit k b" by (simp add: disjunctive_add_eq_or)
  moreover have "unat w + 2 ^ k * unat b < 2 ^ 32"
  proof -
    have "unat w + 2 ^ k * unat b < 2 ^ k * Suc (unat b)" using w by simp
    also have "\<dots> \<le> 2 ^ k * 2 ^ 8" using b by (intro mult_le_mono2) simp
    also have "\<dots> = 2 ^ (k + 8)" by (simp add: power_add)
    also have "\<dots> \<le> (2 :: nat) ^ 32" using k by (intro power_increasing) simp_all
    finally show ?thesis .
  qed
  ultimately show ?thesis using s by (simp add: unat_word_ariths)
qed

lemma header_len_value:
  "unat (header_len h) =
     of_char (h ! 0) + 256 * of_char (h ! 1) + 65536 * of_char (h ! 2) + 16777216 * of_char (h ! 3)"
proof -
  have lt: "of_char c < (256 :: nat)" for c by simp
  note lts = lt [of "h ! 0"] lt [of "h ! 1"] lt [of "h ! 2"] lt [of "h ! 3"]
  have b: "of_char (h ! 0) + 256 * of_char (h ! 1) < (65536 :: nat)"
    "of_char (h ! 0) + 256 * of_char (h ! 1) + 65536 * of_char (h ! 2) < (16777216 :: nat)"
    using lts by linarith+
  have 1: "unat (header_byte h 0 OR push_bit 8 (header_byte h 1)) = of_char (h ! 0) + 256 * of_char (h ! 1)"
    using unat_or_push_bit [of "header_byte h 0" 8 "header_byte h 1"] by (simp add: unat_header_byte)
  have 2: "unat ((header_byte h 0 OR push_bit 8 (header_byte h 1)) OR push_bit 16 (header_byte h 2))
      = of_char (h ! 0) + 256 * of_char (h ! 1) + 65536 * of_char (h ! 2)"
    using b by (subst unat_or_push_bit) (simp_all add: 1 unat_header_byte del: One_nat_def)
  show ?thesis
    unfolding header_len_def using b
    by (subst unat_or_push_bit) (simp_all add: 2 unat_header_byte del: One_nat_def)
qed

lemma pack_le32_length: "pack_le32 n = Some h \<Longrightarrow> length h = 4"
  by (auto simp: pack_le32_def split: if_splits)

lemma le32_digits:
  assumes "n < 2 ^ 32"
  shows "n mod 256 + 256 * (n div 256 mod 256) + 65536 * (n div 65536 mod 256)
      + 16777216 * (n div 16777216 mod 256) = (n :: nat)"
proof -
  define a where "a = n div 256"
  define b where "b = a div 256"
  define c where "c = b div 256"
  have e: "n div 65536 = b" "n div 16777216 = c"
    by (simp_all add: a_def b_def c_def div_mult2_eq [symmetric])
  have "c < 256" using assms by (simp add: e(2) [symmetric] less_mult_imp_div_less)
  moreover have "n = 256 * a + n mod 256" "a = 256 * b + a mod 256" "b = 256 * c + b mod 256"
    by (simp_all add: a_def b_def c_def)
  ultimately show ?thesis unfolding e a_def [symmetric] by simp
qed

lemma header_len_pack:
  assumes "pack_le32 n = Some h"
  shows "unat (header_len (h @ rest)) = n"
proof -
  from assms have n: "n < 2 ^ 32" by (auto simp: pack_le32_def split: if_splits)
  with assms have h: "h = [char_of (n mod 256), char_of (n div 256 mod 256), char_of (n div 65536 mod 256),
      char_of (n div 16777216 mod 256)]"
    by (simp add: pack_le32_def)
  show ?thesis
    unfolding header_len_value h
    by (simp only: append_Cons nth_Cons_0 nth_Cons_Suc numeral_2_eq_2 numeral_3_eq_3 One_nat_def
        of_char_of mod_mod_trivial le32_digits [OF n])
qed

lemma pack_le32_value: "pack_le32 n = Some h \<Longrightarrow> unat (header_len h) = n"
  using header_len_pack [of n h "[]"] by simp

text \<open>
  C27: the length a session reads is the length the client wrote.  For every length that
  fits in 32 bits, the four packed bytes, put together with shifts and bitwise or, give that
  length back.
\<close>

theorem header_roundtrip:
  assumes "pack_le32 n = Some h"
  shows "unat (header_len (h @ rest)) = n"
  using assms by (rule header_len_pack)

theorem header_roundtrip_witness:
  "pack_le32 1000 = Some [CHR 0xE8, CHR 0x03, CHR 0x00, CHR 0x00] \<and>
   unat (header_len ([CHR 0xE8, CHR 0x03, CHR 0x00, CHR 0x00] @ ''body'')) = 1000"
proof -
  have "char_of (232 :: nat) = CHR 0xE8" "char_of (3 :: nat) = CHR 0x03" "char_of (0 :: nat) = CHR 0x00"
    by code_simp+
  then have p: "pack_le32 1000 = Some [CHR 0xE8, CHR 0x03, CHR 0x00, CHR 0x00]"
    by (simp add: pack_le32_def)
  show ?thesis by (rule conjI [OF p header_roundtrip [OF p, of "''body''"]])
qed

end
