(* ===== verification/Session.thy ===== *)
theory Session
  imports Metrics Event_Queue Framing
begin

text \<open>
  \<open>class Session\<close> of \<open>include/collector.h\<close> and \<open>src/collector/collector.cpp\<close>: one client
  connection.  The code of a session runs in completion handlers; a handler changes the
  session and the shared state and asks Boost.Asio for further operations.  A handler is a
  function that returns both: the new state and the list of its \<open>request\<close>s, in the order it
  makes them.  Asio itself is not modelled: which registered handler completes next, and with
  which error code and bytes, is the argument \<open>completion\<close>, of which only the documented is
  required, that a read completes without error only when its buffer is full.
\<close>

section \<open>State\<close>

text \<open>What all sessions share: the queue, the counters and \<open>Session::active_count_\<close>.\<close>

record shared =
  sh_queue :: ts_queue
  sh_metrics :: metrics
  sh_active :: i32

text \<open>Which read handler of the session is registered, if any.\<close>

datatype reading = Not_reading | Reading_header | Reading_body nat

record session =
  se_reading :: reading
  se_waiting :: bool
  se_open :: bool
  se_header :: bytes
  se_body :: bytes
  se_cleaned_up :: bool

datatype request =
    Async_read_header | Async_read_body nat | Expires_after nat | Async_wait | Close_socket

definition TIMEOUT_SECS :: nat where
  "TIMEOUT_SECS = 5"

definition MAX_CONNECTIONS :: u64 where
  "MAX_CONNECTIONS = 20000"

text \<open>An exception that leaves a handler ends the I/O thread and with it the process.\<close>

datatype uncaught = Uncaught_exception

section \<open>The member functions\<close>

text \<open>The constructor counts the connection.\<close>

definition Session_new :: "shared \<Rightarrow> session \<times> shared" where
  "Session_new sh =
     (\<lparr>se_reading = Not_reading, se_waiting = False, se_open = True, se_header = replicate 4 (CHR 0x00),
       se_body = [], se_cleaned_up = False\<rparr>,
      sh\<lparr>sh_active := sh_active sh + 1\<rparr>)"

definition cleanup :: "session \<times> shared \<Rightarrow> session \<times> shared" where
  "cleanup s =
     (if se_cleaned_up (fst s) then s
      else (fst s\<lparr>se_cleaned_up := True\<rparr>, snd s\<lparr>sh_active := sh_active (snd s) - 1\<rparr>))"

definition start_timeout :: "request list" where
  "start_timeout = [Expires_after TIMEOUT_SECS, Async_wait]"

definition do_read_header :: "request list" where
  "do_read_header = [Async_read_header]"

definition do_read_body :: "nat \<Rightarrow> request list" where
  "do_read_body len = [Async_read_body len]"

definition Session_start :: "request list" where
  "Session_start = start_timeout @ do_read_header"

text \<open>\<open>vector::resize\<close> keeps a prefix and fills with zero bytes.\<close>

definition resize :: "nat \<Rightarrow> bytes \<Rightarrow> bytes" where
  "resize n b = take n b @ replicate (n - length b) (CHR 0x00)"

text \<open>
  The handler of the header read.  \<open>close_throws\<close>: the overload of \<open>close\<close> without an error
  code raises.
\<close>

definition on_header :: "bool \<Rightarrow> bool \<Rightarrow> bytes \<Rightarrow> session \<times> shared
    \<Rightarrow> uncaught + (session \<times> shared) \<times> request list" where
  "on_header close_throws ec h s =
     (if \<not> ec
      then let se = fst s\<lparr>se_header := h\<rparr>; len = header_len h
           in if len > 0 \<and> len < 102400
              then Inr ((se\<lparr>se_body := resize (unat len) (se_body se)\<rparr>, snd s), do_read_body (unat len))
              else if close_throws then Inl Uncaught_exception
              else Inr (cleanup (se\<lparr>se_open := False\<rparr>, snd s), [Close_socket])
      else Inr (cleanup s, []))"

text \<open>The handler of the body read.\<close>

definition count_drop :: "bool \<Rightarrow> shared \<Rightarrow> shared" where
  "count_drop ok sh =
     (if \<not> ok then sh\<lparr>sh_metrics := fetch_add Total_queue_drop 1 (sh_metrics sh)\<rparr> else sh)"

definition push_body :: "bytes \<Rightarrow> shared \<Rightarrow> shared" where
  "push_body body sh =
     (let (ok, q) = try_push_move body (sh_queue sh) in count_drop ok (sh\<lparr>sh_queue := q\<rparr>))"

definition on_body :: "bool \<Rightarrow> bytes \<Rightarrow> session \<times> shared \<Rightarrow> (session \<times> shared) \<times> request list" where
  "on_body ec b s =
     (if \<not> ec
      then let se = fst s\<lparr>se_body := b\<rparr>
           in ((se, push_body (se_body se) (snd s)), [Expires_after TIMEOUT_SECS] @ do_read_header)
      else (cleanup s, []))"

text \<open>
  The two parts of that handler between which other threads can run: the push, and what the
  handler does with the answer.
\<close>

definition body_pushed :: "bytes \<Rightarrow> session \<times> shared \<Rightarrow> bool \<times> session \<times> shared" where
  "body_pushed b s =
     (let se = fst s\<lparr>se_body := b\<rparr>; (ok, q) = try_push_move (se_body se) (sh_queue (snd s))
      in (ok, se, (snd s)\<lparr>sh_queue := q\<rparr>))"

definition body_rest :: "bool \<Rightarrow> session \<times> shared \<Rightarrow> (session \<times> shared) \<times> request list" where
  "body_rest ok s = ((fst s, count_drop ok (snd s)), do_read_header)"

lemma on_body_parts:
  "on_body False b s = (let (ok, t) = body_pushed b s; (u, reqs) = body_rest ok t in (u, Expires_after TIMEOUT_SECS # reqs))"
  by (simp add: on_body_def body_pushed_def body_rest_def push_body_def Let_def split: prod.splits)

text \<open>The handler of the timer: \<open>on_timeout\<close>, unless the wait was cancelled.\<close>

definition on_timeout :: "session \<times> shared \<Rightarrow> (session \<times> shared) \<times> request list" where
  "on_timeout s = (cleanup (fst s\<lparr>se_open := False\<rparr>, snd s), [Close_socket])"

definition on_timer :: "bool \<Rightarrow> session \<times> shared \<Rightarrow> (session \<times> shared) \<times> request list" where
  "on_timer ec s = (if \<not> ec then on_timeout s else (s, []))"

section \<open>Running a session\<close>

text \<open>The handlers a request registers.\<close>

fun register :: "request \<Rightarrow> session \<Rightarrow> session" where
  "register Async_read_header se = se\<lparr>se_reading := Reading_header\<rparr>"
| "register (Async_read_body n) se = se\<lparr>se_reading := Reading_body n\<rparr>"
| "register Async_wait se = se\<lparr>se_waiting := True\<rparr>"
| "register (Expires_after _) se = se"
| "register Close_socket se = se"

definition registered :: "(session \<times> shared) \<times> request list \<Rightarrow> session \<times> shared" where
  "registered r = (fold register (snd r) (fst (fst r)), snd (fst r))"

datatype completion =
    Header_done bool bool bytes  \<comment> \<open>would \<open>close\<close> raise, error code, bytes\<close>
  | Body_done bool bytes
  | Timer_done bool

text \<open>The completions that can occur: of a registered handler, a read without error being full.\<close>

fun enabled :: "completion \<Rightarrow> session \<Rightarrow> bool" where
  "enabled (Header_done _ ec h) se \<longleftrightarrow> se_reading se = Reading_header \<and> (ec \<or> length h = 4)"
| "enabled (Body_done ec b) se \<longleftrightarrow>
     (case se_reading se of Reading_body n \<Rightarrow> ec \<or> length b = n | _ \<Rightarrow> False)"
| "enabled (Timer_done _) se \<longleftrightarrow> se_waiting se"

text \<open>A completed handler is no longer registered; then its code runs.\<close>

fun complete :: "completion \<Rightarrow> session \<times> shared \<Rightarrow> uncaught + (session \<times> shared) \<times> request list" where
  "complete (Header_done ct ec h) s = on_header ct ec h (fst s\<lparr>se_reading := Not_reading\<rparr>, snd s)"
| "complete (Body_done ec b) s = Inr (on_body ec b (fst s\<lparr>se_reading := Not_reading\<rparr>, snd s))"
| "complete (Timer_done ec) s = Inr (on_timer ec (fst s\<lparr>se_waiting := False\<rparr>, snd s))"

text \<open>
  A run: the completions in the order they occur, the requests made so far in \<open>reqs\<close>.  It is
  \<open>None\<close> when a completion cannot occur or an exception ends the process.
\<close>

fun session_run :: "completion list \<Rightarrow> session \<times> shared \<Rightarrow> request list
    \<Rightarrow> ((session \<times> shared) \<times> request list) option" where
  "session_run [] s reqs = Some (s, reqs)"
| "session_run (c # cs) s reqs =
     (if enabled c (fst s)
      then (case complete c s of
              Inl _ \<Rightarrow> None
            | Inr r \<Rightarrow> session_run cs (registered r) (reqs @ snd r))
      else None)"

definition session_accept :: "shared \<Rightarrow> session \<times> shared" where
  "session_accept sh = registered (Session_new sh, Session_start)"

section \<open>One session\<close>

lemma cleanup_idem [simp]: "cleanup (cleanup s) = cleanup s"
  by (simp add: cleanup_def)

lemma cleanup_fields [simp]:
  "se_reading (fst (cleanup s)) = se_reading (fst s)" "se_waiting (fst (cleanup s)) = se_waiting (fst s)"
  "se_cleaned_up (fst (cleanup s))" "sh_queue (snd (cleanup s)) = sh_queue (snd s)"
  "sh_metrics (snd (cleanup s)) = sh_metrics (snd s)"
  by (simp_all add: cleanup_def)

lemma push_body_fields [simp]:
  "sh_active (push_body d sh) = sh_active sh"
  "sh_queue (push_body d sh) = snd (try_push d (sh_queue sh))"
  "load c (sh_metrics (push_body d sh)) =
     load c (sh_metrics sh) + (if c = Total_queue_drop \<and> \<not> fst (try_push d (sh_queue sh)) then 1 else 0)"
  by (simp_all add: push_body_def count_drop_def Let_def split: prod.splits)

lemma header_bound:
  assumes "len > 0" and "len < (102400 :: u32)"
  shows "0 < unat len" and "unat len < 102400"
  using assms by (simp_all add: word_less_nat_alt)

text \<open>
  A session that still counts has a read handler registered, and a read of a body is of a
  length the header check admits.
\<close>

definition body_ok :: "session \<Rightarrow> bool" where
  "body_ok se \<longleftrightarrow> (case se_reading se of Reading_body n \<Rightarrow> 0 < n \<and> n < 102400 | _ \<Rightarrow> True)"

definition session_ok :: "session \<Rightarrow> bool" where
  "session_ok se \<longleftrightarrow> (\<not> se_cleaned_up se \<longrightarrow> se_reading se \<noteq> Not_reading) \<and> body_ok se"

lemma body_ok_complete [ec_inv]:
  assumes "body_ok (fst s)" and "complete c s = Inr r"
  shows "body_ok (fst (registered r))"
  using assms
  by (cases c)
    (auto simp: body_ok_def on_header_def on_body_def on_timer_def on_timeout_def registered_def Let_def
      do_read_body_def do_read_header_def header_bound split: if_splits reading.splits)

lemma session_ok_complete [ec_inv]:
  assumes "session_ok (fst s)" and "enabled c (fst s)" and "complete c s = Inr r"
  shows "session_ok (fst (registered r))"
  using assms body_ok_complete [of s c r]
  by (cases c)
    (auto simp: session_ok_def on_header_def on_body_def on_timer_def on_timeout_def registered_def Let_def
      do_read_body_def do_read_header_def header_bound split: if_splits reading.splits)

lemma session_accept_fields [simp]:
  "se_reading (fst (session_accept sh)) = Reading_header" "se_waiting (fst (session_accept sh))"
  "\<not> se_cleaned_up (fst (session_accept sh))" "snd (session_accept sh) = sh\<lparr>sh_active := sh_active sh + 1\<rparr>"
  by (simp_all add: session_accept_def registered_def Session_start_def start_timeout_def
      do_read_header_def Session_new_def)

lemma session_ok_accept: "session_ok (fst (session_accept sh))"
  by (simp add: session_ok_def body_ok_def)

text \<open>What a completion can do to the queue: at most one push, of a body of legal size.\<close>

lemma complete_queue:
  assumes "complete c s = Inr r"
  shows "sh_queue (snd (registered r)) =
    (case c of Body_done False b \<Rightarrow> snd (try_push b (sh_queue (snd s))) | _ \<Rightarrow> sh_queue (snd s))"
  using assms
  by (cases c)
    (auto simp: on_header_def on_body_def on_timer_def on_timeout_def registered_def Let_def split: if_splits)

text \<open>What a completion does to the shared state, the count of connections apart.\<close>

lemma complete_shared:
  assumes "complete c s = Inr r"
  shows "(snd (registered r))\<lparr>sh_active := a\<rparr> =
    (case c of Body_done False b \<Rightarrow> push_body b ((snd s)\<lparr>sh_active := a\<rparr>) | _ \<Rightarrow> (snd s)\<lparr>sh_active := a\<rparr>)"
  using assms
  by (cases c)
    (auto simp: on_header_def on_body_def on_timer_def on_timeout_def registered_def Let_def cleanup_def push_body_def count_drop_def
      split: if_splits prod.splits)

lemma session_run_ok:
  assumes "session_run cs s reqs = Some (s', reqs')" and "session_ok (fst s)"
  shows "session_ok (fst s')"
  using assms
proof (induction cs arbitrary: s reqs)
  case (Cons c cs)
  from Cons.prems(1) obtain r where "enabled c (fst s)" "complete c s = Inr r"
    "session_run cs (registered r) (reqs @ snd r) = Some (s', reqs')"
    by (auto split: if_splits sum.splits)
  with session_ok_complete [OF Cons.prems(2)] Cons.IH show ?case by blast
qed simp

section \<open>The idle timeout\<close>

text \<open>
  What Asio documents of a timer, over the sequence of requests made on it: \<open>live rs\<close> says
  that a wait is pending and has not been cancelled.  A new wait is pending; setting the
  expiry cancels the pending waits; other requests do not touch the timer.
\<close>

definition timer_documented :: "(request list \<Rightarrow> bool) \<Rightarrow> bool" where
  "timer_documented live \<longleftrightarrow>
     (\<forall>rs. live (rs @ [Async_wait])) \<and>
     (\<forall>rs n. \<not> live (rs @ [Expires_after n])) \<and>
     (\<forall>rs r. r \<noteq> Async_wait \<and> (\<forall>n. r \<noteq> Expires_after n) \<longrightarrow> live (rs @ [r]) = live rs)"

lemma live_append:
  assumes "timer_documented live" and "Async_wait \<notin> set new"
  shows "live (rs @ new) \<longleftrightarrow> live rs \<and> (\<forall>n. Expires_after n \<notin> set new)"
  using assms(2)
proof (induction new rule: rev_induct)
  case (snoc r new)
  have "live (xs @ [r]) \<longleftrightarrow> live xs \<and> (\<forall>n. r \<noteq> Expires_after n)" for xs
    using assms(1) snoc.prems unfolding timer_documented_def by (cases "\<exists>n. r = Expires_after n") auto
  from this [of "rs @ new"] snoc show ?case by auto
qed simp

text \<open>No handler starts a new wait, and exactly a received body moves the expiry.\<close>

lemma complete_requests:
  assumes "complete c s = Inr r"
  shows "Async_wait \<notin> set (snd r)"
    and "(\<exists>n. Expires_after n \<in> set (snd r)) \<longleftrightarrow> (\<exists>b. c = Body_done False b)"
  using assms
  by (cases c; auto simp: on_header_def on_body_def on_timer_def on_timeout_def Let_def do_read_body_def
      do_read_header_def split: if_splits)+

lemma session_run_requests:
  assumes "session_run cs s reqs = Some (s', reqs')"
  shows "\<exists>new. reqs' = reqs @ new \<and> Async_wait \<notin> set new \<and>
    ((\<exists>n. Expires_after n \<in> set new) \<longleftrightarrow> (\<exists>b. Body_done False b \<in> set cs))"
  using assms
proof (induction cs arbitrary: s reqs)
  case (Cons c cs)
  from Cons.prems obtain r where r: "complete c s = Inr r"
    and run: "session_run cs (registered r) (reqs @ snd r) = Some (s', reqs')"
    by (auto split: if_splits sum.splits)
  from Cons.IH [OF run] obtain new where "reqs' = (reqs @ snd r) @ new" "Async_wait \<notin> set new"
    "(\<exists>n. Expires_after n \<in> set new) \<longleftrightarrow> (\<exists>b. Body_done False b \<in> set cs)" by blast
  with complete_requests [OF r] show ?case by (intro exI [of _ "snd r @ new"]) auto
qed simp

text \<open>
  C32: the idle timeout guards a connection only until its first message.  Whatever
  completions a session goes through, with the documented behaviour of the timer the wait
  that \<open>start\<close> began is still pending or has fired exactly as long as no message has been
  received: the first message moves the expiry, which cancels the wait, and nothing starts a
  new one, so a client that has sent one message can then stay idle for ever.
\<close>

theorem timeout_only_before_first_message:
  assumes "timer_documented live"
    and "session_run cs (session_accept sh) Session_start = Some (s, reqs)"
  shows "live reqs \<longleftrightarrow> (\<forall>b. Body_done False b \<notin> set cs)"
proof -
  from session_run_requests [OF assms(2)] obtain new where new: "reqs = Session_start @ new"
    "Async_wait \<notin> set new" "(\<exists>n. Expires_after n \<in> set new) \<longleftrightarrow> (\<exists>b. Body_done False b \<in> set cs)"
    by blast
  have "live ([Expires_after TIMEOUT_SECS] @ [Async_wait])"
    using assms(1) unfolding timer_documented_def by blast
  then have "live Session_start"
    using live_append [OF assms(1), of "[Async_read_header]" "[Expires_after TIMEOUT_SECS, Async_wait]"]
    by (simp add: Session_start_def start_timeout_def do_read_header_def)
  with live_append [OF assms(1) new(2), of Session_start] new(1,3) show ?thesis by auto
qed

fun timer_live :: "bool \<Rightarrow> request list \<Rightarrow> bool" where
  "timer_live l [] = l"
| "timer_live l (Async_wait # rs) = timer_live True rs"
| "timer_live l (Expires_after n # rs) = timer_live False rs"
| "timer_live l (Close_socket # rs) = timer_live l rs"
| "timer_live l (Async_read_header # rs) = timer_live l rs"
| "timer_live l (Async_read_body n # rs) = timer_live l rs"

lemma timer_live_snoc:
  "timer_live l (rs @ [r]) =
     (case r of Async_wait \<Rightarrow> True | Expires_after _ \<Rightarrow> False | _ \<Rightarrow> timer_live l rs)"
  by (induction l rs rule: timer_live.induct) (auto split: request.splits)

lemma timer_live_documented: "timer_documented (timer_live False)"
  unfolding timer_documented_def by (auto simp: timer_live_snoc split: request.splits)

definition fresh_shared :: shared where
  "fresh_shared = \<lparr>sh_queue = ThreadSafeQueue 10000, sh_metrics = Metrics_init, sh_active = 0\<rparr>"

definition one_message :: "completion list" where
  "one_message = [Header_done False False [CHR 0x02, CHR 0x00, CHR 0x00, CHR 0x00], Body_done False ''hi'']"

lemma header_len_two: "header_len [CHR 0x02, CHR 0x00, CHR 0x00, CHR 0x00] = 2"
  by (simp add: header_len_def header_byte_def)

lemma one_message_run:
  "\<exists>s reqs. session_run one_message (session_accept fresh_shared) Session_start = Some (s, reqs) \<and>
     tsq_queue (sh_queue (snd s)) = [''hi'']"
  by (simp add: one_message_def session_accept_def Session_new_def Session_start_def registered_def
      start_timeout_def do_read_header_def do_read_body_def on_header_def on_body_def header_len_two Let_def
      fresh_shared_def push_body_def count_drop_def try_push_def ThreadSafeQueue_def)

theorem timeout_only_before_first_message_witness:
  "\<exists>s reqs. session_run one_message (session_accept fresh_shared) Session_start = Some (s, reqs) \<and>
     \<not> timer_live False reqs"
proof -
  obtain s reqs where r: "session_run one_message (session_accept fresh_shared) Session_start = Some (s, reqs)"
    using one_message_run by blast
  from timeout_only_before_first_message [OF timer_live_documented r] r show ?thesis
    by (auto simp: one_message_def)
qed

text \<open>
  C29: no connection is forgotten.  Whatever completions a session has gone through, it either
  has given its slot back or still has a read registered, of the four header bytes or of a
  body of legal length; a session that nothing will ever call again never keeps its slot.
\<close>

theorem open_session_reads:
  assumes "session_run cs (session_accept sh) reqs = Some (s, reqs')"
  shows "se_cleaned_up (fst s) \<or> se_reading (fst s) = Reading_header \<or>
    (\<exists>n. se_reading (fst s) = Reading_body n \<and> 0 < n \<and> n < 102400)"
  using session_run_ok [OF assms session_ok_accept]
  by (cases "se_reading (fst s)") (auto simp: session_ok_def body_ok_def)

theorem open_session_reads_witness:
  "\<exists>s reqs. session_run one_message (session_accept fresh_shared) Session_start = Some (s, reqs) \<and>
     (se_cleaned_up (fst s) \<or> se_reading (fst s) = Reading_header \<or>
      (\<exists>n. se_reading (fst s) = Reading_body n \<and> 0 < n \<and> n < 102400))"
proof -
  obtain s reqs where r: "session_run one_message (session_accept fresh_shared) Session_start = Some (s, reqs)"
    using one_message_run by blast
  show ?thesis by (intro exI, rule conjI [OF r open_session_reads [OF r]])
qed

end
