(* ===== verification/Flush_Steps.thy ===== *)
theory Flush_Steps
  imports Storage
begin

text \<open>
  \<open>Storage::do_flush\<close> of \<open>src/processor/storage.cpp\<close> one observable action at a time.  Several
  threads can be in a flush at once (workers whose \<open>save\<close> filled a batch, and the flush thread);
  between two attempts, and between the attempt that returned and the counting, other threads
  run.  Run without interruption the actions are \<open>do_flush\<close>.
\<close>

section \<open>The actions of a flush\<close>

text \<open>A batch with the attempts that are left, or inserted and not counted yet.\<close>

datatype flush = Trying "bytes list" nat | Uncounted "bytes list"

fun flush_batch :: "flush \<Rightarrow> bytes list" where
  "flush_batch (Trying b n) = b"
| "flush_batch (Uncounted b) = b"

definition start_flush :: "bytes list \<Rightarrow> flush" where
  "start_flush batch = Trying batch 3"

fun flush_act :: "'c store_ext \<Rightarrow> dl_env \<Rightarrow> flush \<Rightarrow> 'c store_world \<Rightarrow> flush option \<times> 'c store_world" where
  "flush_act ext env (Trying batch (Suc n)) w =
     (case ch_insert ext ''events'' (make_block (build_columns (parse_event ext) batch)) (sw_client w) of
        (True, c) \<Rightarrow> (Some (Uncounted batch), w\<lparr>sw_client := c\<rparr>)
      | (False, c) \<Rightarrow> (Some (Trying batch n), w\<lparr>sw_client := c\<rparr>))"
| "flush_act ext env (Trying batch 0) w =
     (let (fs, m) = write_dead_letter env batch (sw_files w, sw_metrics w)
      in (None, w\<lparr>sw_files := fs, sw_metrics := m\<rparr>))"
| "flush_act ext env (Uncounted batch) w =
     (None, w\<lparr>sw_metrics := fetch_add Total_stored (of_nat (length batch)) (sw_metrics w)\<rparr>)"

text \<open>The events an action gives up: the dead letter file could not be opened.\<close>

definition flush_lost :: "dl_env \<Rightarrow> flush \<Rightarrow> bytes list" where
  "flush_lost env f = (case f of Trying batch 0 \<Rightarrow> if dl_open env then [] else batch | _ \<Rightarrow> [])"

section \<open>Without interruption\<close>

fun actions_left :: "flush \<Rightarrow> nat" where
  "actions_left (Trying b n) = Suc (Suc n)"
| "actions_left (Uncounted b) = 1"

lemma flush_act_decreases: "flush_act ext env f w = (Some f', w') \<Longrightarrow> actions_left f' < actions_left f"
  by (induction ext env f w rule: flush_act.induct) (auto split: prod.splits bool.splits if_splits)

lemma flush_act_batch: "flush_act ext env f w = (Some f', w') \<Longrightarrow> flush_batch f' = flush_batch f"
  by (induction ext env f w rule: flush_act.induct) (auto split: prod.splits bool.splits)

function flush_run :: "'c store_ext \<Rightarrow> dl_env \<Rightarrow> flush \<Rightarrow> 'c store_world \<Rightarrow> 'c store_world" where
  "flush_run ext env f w =
     (case flush_act ext env f w of
        (None, w') \<Rightarrow> w'
      | (Some f', w') \<Rightarrow> flush_run ext env f' w')"
  by pat_completeness auto
termination
  by (relation "measure (\<lambda>(ext, env, f, w). actions_left f)") (auto dest: flush_act_decreases [OF sym])

declare flush_run.simps [simp del]

lemma flush_run_trying:
  "flush_run ext env (Trying batch n) w =
     (case insert_retry ext (make_block (build_columns (parse_event ext) batch)) n (sw_client w) of
        (True, c) \<Rightarrow>
          w\<lparr>sw_client := c, sw_metrics := fetch_add Total_stored (of_nat (length batch)) (sw_metrics w)\<rparr>
      | (False, c) \<Rightarrow>
          (let (fs, m) = write_dead_letter env batch (sw_files w, sw_metrics w)
           in w\<lparr>sw_client := c, sw_files := fs, sw_metrics := m\<rparr>))"
proof (induction n arbitrary: w)
  case 0
  then show ?case by (simp add: flush_run.simps [of ext env "Trying batch 0"] split: prod.splits)
next
  case (Suc n)
  then show ?case
    by (auto simp: flush_run.simps [of ext env "Trying batch (Suc n)"] flush_run.simps [of ext env "Uncounted batch"]
        split: prod.splits bool.splits)
qed

lemma flush_run_start:
  "batch \<noteq> [] \<Longrightarrow> flush_run ext env (start_flush batch) w = do_flush ext env batch w"
  by (auto simp: start_flush_def flush_run_trying do_flush_def Let_def split: prod.splits bool.splits)

section \<open>What an action counts\<close>

lemma flush_act_load:
  assumes "flush_act ext env f w = (r, w')"
  shows "load c (sw_metrics w') = load c (sw_metrics w) +
    (case f of
       Uncounted b \<Rightarrow> if c = Total_stored then of_nat (length b) else 0
     | Trying b n \<Rightarrow> if n = 0 \<and> dl_open env \<and> c = Total_store_dead then of_nat (length b) else 0)"
  using assms
  by (induction ext env f w rule: flush_act.induct)
    (auto simp: write_dead_letter_def Let_def split: prod.splits bool.splits if_splits)

lemma flush_act_done: "flush_act ext env f w = (None, w') \<Longrightarrow> f = Trying (flush_batch f) 0 \<or> f = Uncounted (flush_batch f)"
  by (induction ext env f w rule: flush_act.induct) (auto split: prod.splits bool.splits)

end
