(* ===== verification/Kafka_Steps.thy ===== *)
theory Kafka_Steps
  imports Kafka_Producer
begin

text \<open>
  \<open>Processor::produce_to_kafka\<close> of \<open>src/processor/processor.cpp\<close> one observable action at a time.
  Several workers and the poll thread use one producer: between the attempt that found the local
  buffer full, the poll that makes room, the second attempt and the counting of a failure, other
  threads run.  Run without interruption the actions are \<open>produce_to_kafka\<close>.
\<close>

section \<open>The actions of a production\<close>

datatype production = Attempt | Local_full | Retry | Refused

fun produce_act :: "'k kafka_lib \<Rightarrow> opaque \<Rightarrow> producer option \<Rightarrow> bytes \<Rightarrow> bytes \<Rightarrow> production
    \<Rightarrow> 'k \<times> metrics \<Rightarrow> crash + production option \<times> 'k \<times> metrics" where
  "produce_act lib op pr key data Attempt (k, m) =
     (case pr of
        None \<Rightarrow> Inr (None, k, m)
      | Some p \<Rightarrow>
        (case pr_topic p of
           None \<Rightarrow> Inr (None, k, m)
         | Some topic \<Rightarrow>
             let (err, k1) = rd_produce lib topic key data k
             in Inr (if err \<noteq> 0 then Some Local_full else None, k1, m)))"
| "produce_act lib op pr key data Local_full (k, m) =
     (case kafka_poll lib op (k, m) of Inl e \<Rightarrow> Inl e | Inr s \<Rightarrow> Inr (Some Retry, s))"
| "produce_act lib op pr key data Retry (k, m) =
     (case pr of
        None \<Rightarrow> Inr (None, k, m)
      | Some p \<Rightarrow>
        (case pr_topic p of
           None \<Rightarrow> Inr (None, k, m)
         | Some topic \<Rightarrow>
             let (err, k1) = rd_produce lib topic key data k
             in Inr (if err \<noteq> 0 then Some Refused else None, k1, m)))"
| "produce_act lib op pr key data Refused (k, m) = Inr (None, k, fetch_add Total_kafka_fail 1 m)"

section \<open>Without interruption\<close>

fun productions_left :: "production \<Rightarrow> nat" where
  "productions_left Attempt = 4"
| "productions_left Local_full = 3"
| "productions_left Retry = 2"
| "productions_left Refused = 1"

lemma produce_act_decreases:
  "produce_act lib op pr key data a s = Inr (Some b, s') \<Longrightarrow> productions_left b < productions_left a"
  by (induction lib op pr key data a s rule: produce_act.induct)
    (auto simp: Let_def split: option.splits prod.splits sum.splits if_splits)

function produce_run :: "'k kafka_lib \<Rightarrow> opaque \<Rightarrow> producer option \<Rightarrow> bytes \<Rightarrow> bytes \<Rightarrow> production
    \<Rightarrow> 'k \<times> metrics \<Rightarrow> crash + 'k \<times> metrics" where
  "produce_run lib op pr key data a s =
     (case produce_act lib op pr key data a s of
        Inl e \<Rightarrow> Inl e
      | Inr (None, s') \<Rightarrow> Inr s'
      | Inr (Some b, s') \<Rightarrow> produce_run lib op pr key data b s')"
  by pat_completeness auto
termination
  by (relation "measure (\<lambda>(lib, op, pr, key, data, a, s). productions_left a)") (auto dest: produce_act_decreases)

declare produce_run.simps [simp del]

lemma produce_run_attempt: "produce_run lib op pr key data Attempt s = produce_to_kafka lib op pr key data s"
proof -
  note run = produce_run.simps [where lib = lib and op = op and key = key and data = data]
  show ?thesis
    by (cases s)
      (simp add: run [where a = Attempt] run [where a = Local_full] run [where a = Retry] run [where a = Refused] produce_to_kafka_def Let_def
        split: option.splits prod.splits sum.splits)
qed

section \<open>What an action counts, and when it can crash\<close>

lemma produce_act_frame:
  assumes "produce_act lib op pr key data a s = Inr (r, k', m')" and "c \<noteq> Total_kafka_ok" and "c \<noteq> Total_kafka_fail"
  shows "load c m' = load c (snd s)"
  using assms
  by (induction lib op pr key data a s rule: produce_act.induct)
    (auto simp: Let_def split: option.splits prod.splits sum.splits if_splits dest: kafka_poll_frame)

lemma kafka_poll_safe: "\<exists>s'. kafka_poll lib Opaque_metrics s = Inr s'"
  by (auto simp: kafka_poll_def serve_reports_counts Let_def split: prod.splits)

lemma produce_act_safe:
  assumes "op = Opaque_metrics \<or> a \<noteq> Local_full"
  shows "\<exists>r. produce_act lib op pr key data a s = Inr r"
  using assms kafka_poll_safe [of lib s]
  by (induction lib op pr key data a s rule: produce_act.induct)
    (auto simp: Let_def split: option.splits prod.splits sum.splits)

end
