(* ===== verification/Pipeline.thy ===== *)
theory Pipeline
  imports Processor Session Flush_Steps Kafka_Steps
begin

text \<open>
  The workers of \<open>Processor::worker\<close> running at the same time.  Between two actions that other
  threads can observe (an operation on the queue, a counter, Redis, Kafka or the storage) a
  worker is at a \<open>stage\<close>; \<open>work_step\<close> interleaves the actions of the workers, of the flush thread
  of the storage and of the poll thread of Kafka, and \<open>pl_step\<close> adds the sessions that fill the
  queue.  The steps of one worker, run without interruption, are \<open>work_event\<close>.
\<close>

section \<open>Stages of the workers\<close>

datatype stage =
    Waiting
  | is_popped: Popped bytes
  | is_received: Received bytes
  | is_parsed: Parsed bytes event
  | is_checked: Checked bytes event
  | is_denied: Denied bytes
  | is_producing: Producing bytes event production
  | Produced bytes
  | Flushing flush

text \<open>
  Beside the shared state and the threads, the history: the messages sessions have pushed or
  tried to, how many were taken from the queue, how many were admitted.  \<open>pl_refused\<close> holds the
  messages a full queue has refused and whose session is about to count the drop.  The two ways
  out of the program without a counter are recorded where the code takes them: \<open>pl_unstored\<close> holds
  the messages a thread was done with after Kafka because there is no storage, \<open>pl_lost\<close> those of
  the batches whose dead letter file could not be opened.
\<close>

record ('r, 'k, 'c) pipeline =
  pl_proc :: "('r, 'k, 'c) processor"
  pl_workers :: "stage list"
  pl_flusher :: "flush option"
  pl_pushed :: "bytes multiset"
  pl_refused :: "bytes multiset"
  pl_unstored :: "bytes multiset"
  pl_lost :: "bytes multiset"
  pl_popped :: nat
  pl_admitted :: nat

definition at_stage :: "nat \<Rightarrow> stage \<Rightarrow> ('r, 'k, 'c) pipeline \<Rightarrow> bool" where
  "at_stage i st s \<longleftrightarrow> i < length (pl_workers s) \<and> pl_workers s ! i = st"

definition move :: "nat \<Rightarrow> stage \<Rightarrow> ('r, 'k, 'c) processor \<Rightarrow> ('r, 'k, 'c) pipeline \<Rightarrow> ('r, 'k, 'c) pipeline" where
  "move i st p s = s\<lparr>pl_proc := p, pl_workers := (pl_workers s)[i := st]\<rparr>"

definition note_unstored :: "bytes \<Rightarrow> ('r, 'k, 'c) pipeline \<Rightarrow> ('r, 'k, 'c) pipeline" where
  "note_unstored d s = s\<lparr>pl_unstored := add_mset d (pl_unstored s)\<rparr>"

definition note_lost :: "dl_env \<Rightarrow> flush \<Rightarrow> ('r, 'k, 'c) pipeline \<Rightarrow> ('r, 'k, 'c) pipeline" where
  "note_lost env f s = s\<lparr>pl_lost := pl_lost s + mset (flush_lost env f)\<rparr>"

text \<open>
  What the body handler of a session does to the state it shares with the workers, in two
  actions: the push, and after a refusal the count of the drop.
\<close>

definition session_push :: "bytes \<Rightarrow> ('r, 'k, 'c) pipeline \<Rightarrow> ('r, 'k, 'c) pipeline" where
  "session_push d s =
     (let (ok, q) = try_push_move d (p_queue (pl_proc s))
      in s\<lparr>pl_proc := (pl_proc s)\<lparr>p_queue := q\<rparr>, pl_pushed := add_mset d (pl_pushed s),
          pl_refused := (if ok then pl_refused s else add_mset d (pl_refused s))\<rparr>)"

definition session_count :: "bytes \<Rightarrow> ('r, 'k, 'c) pipeline \<Rightarrow> ('r, 'k, 'c) pipeline" where
  "session_count d s = s\<lparr>pl_proc := bump Total_queue_drop (pl_proc s), pl_refused := pl_refused s - {#d#}\<rparr>"

definition put_world :: "'c store_world \<Rightarrow> ('r, 'k, 'c) processor \<Rightarrow> ('r, 'k, 'c) processor" where
  "put_world w p = p\<lparr>p_client := sw_client w, p_files := sw_files w, p_metrics := sw_metrics w\<rparr>"

definition after_flush :: "flush option \<Rightarrow> stage" where
  "after_flush r = (case r of None \<Rightarrow> Waiting | Some f \<Rightarrow> Flushing f)"

definition kafka_act :: "('r, 'k, 'c) proc_ext \<Rightarrow> event \<Rightarrow> bytes \<Rightarrow> production \<Rightarrow> ('r, 'k, 'c) processor
    \<Rightarrow> crash + production option \<times> ('r, 'k, 'c) processor" where
  "kafka_act ext evt d a p =
     (case produce_act (px_kafka ext) (px_opaque ext) (p_producer p) (user_id evt) d a (p_kafka p, p_metrics p) of
        Inl e \<Rightarrow> Inl e
      | Inr (r, k, m) \<Rightarrow> Inr (r, p\<lparr>p_kafka := k, p_metrics := m\<rparr>))"

definition after_produce :: "bytes \<Rightarrow> event \<Rightarrow> production option \<Rightarrow> stage" where
  "after_produce d evt r = (case r of None \<Rightarrow> Produced d | Some a \<Rightarrow> Producing d evt a)"

text \<open>The actions of worker \<open>i\<close>.\<close>

inductive worker_step :: "('r, 'k, 'c) proc_ext \<Rightarrow> nat \<Rightarrow> ('r, 'k, 'c) pipeline \<Rightarrow> ('r, 'k, 'c) pipeline \<Rightarrow> bool"
  for ext :: "('r, 'k, 'c) proc_ext" and i :: nat where
  pl_pop: "at_stage i Waiting s \<Longrightarrow> try_pop [] (p_queue (pl_proc s)) = (True, d, q)
    \<Longrightarrow> worker_step ext i s (move i (Popped d) ((pl_proc s)\<lparr>p_queue := q\<rparr>) (s\<lparr>pl_popped := Suc (pl_popped s)\<rparr>))"
| pl_receive: "at_stage i (Popped d) s
    \<Longrightarrow> worker_step ext i s (move i (Received d) (bump Total_received (pl_proc s)) s)"
| pl_parse_fail: "at_stage i (Received d) s \<Longrightarrow> parse_event (px_store ext) d = None
    \<Longrightarrow> worker_step ext i s (move i Waiting (bump Total_parse_fail (pl_proc s)) s)"
| pl_parse: "at_stage i (Received d) s \<Longrightarrow> parse_event (px_store ext) d = Some evt
    \<Longrightarrow> worker_step ext i s (move i (Parsed d evt) (bump Total_parsed (pl_proc s)) s)"
| pl_invalid: "at_stage i (Parsed d evt) s \<Longrightarrow> \<not> validate (it_time (env :: iter_env)) evt
    \<Longrightarrow> worker_step ext i s (move i Waiting (bump Total_invalid (pl_proc s)) s)"
| pl_valid: "at_stage i (Parsed d evt) s \<Longrightarrow> validate (it_time (env :: iter_env)) evt
    \<Longrightarrow> worker_step ext i s (move i (Checked d evt) (bump Total_valid (pl_proc s)) s)"
| pl_deny: "at_stage i (Checked d evt) s \<Longrightarrow> check_limit ext env evt (pl_proc s) = (False, p)
    \<Longrightarrow> worker_step ext i s (move i (Denied d) p s)"
| pl_limited: "at_stage i (Denied d) s
    \<Longrightarrow> worker_step ext i s (move i Waiting (bump Total_rate_limited (pl_proc s)) s)"
| pl_admit: "at_stage i (Checked d evt) s \<Longrightarrow> check_limit ext env evt (pl_proc s) = (True, p)
    \<Longrightarrow> worker_step ext i s (move i (Producing d evt Attempt) p (s\<lparr>pl_admitted := Suc (pl_admitted s)\<rparr>))"
| pl_produce: "at_stage i (Producing d evt a) s \<Longrightarrow> kafka_act ext evt d a (pl_proc s) = Inr (r, p)
    \<Longrightarrow> worker_step ext i s (move i (after_produce d evt r) p s)"
| pl_no_store: "at_stage i (Produced d) s \<Longrightarrow> p_storage (pl_proc s) = None
    \<Longrightarrow> worker_step ext i s (move i Waiting (pl_proc s) (note_unstored d s))"
| pl_buffer: "at_stage i (Produced d) s \<Longrightarrow> p_storage (pl_proc s) = Some st \<Longrightarrow> save_locked d st = (None, st')
    \<Longrightarrow> worker_step ext i s (move i Waiting ((pl_proc s)\<lparr>p_storage := Some st'\<rparr>) s)"
| pl_full: "at_stage i (Produced d) s \<Longrightarrow> p_storage (pl_proc s) = Some st \<Longrightarrow> save_locked d st = (Some b, st')
    \<Longrightarrow> worker_step ext i s (move i (Flushing (start_flush b)) ((pl_proc s)\<lparr>p_storage := Some st'\<rparr>) s)"
| pl_flush: "at_stage i (Flushing f) s
    \<Longrightarrow> flush_act (px_store ext) (it_dl (env :: iter_env)) f (store_world_of (pl_proc s)) = (r, w)
    \<Longrightarrow> worker_step ext i s (move i (after_flush r) (put_world w (pl_proc s)) (note_lost (it_dl env) f s))"

text \<open>The flush thread takes the buffer, then flushes it; the poll thread serves delivery reports.\<close>

inductive flusher_step :: "('r, 'k, 'c) proc_ext \<Rightarrow> ('r, 'k, 'c) pipeline \<Rightarrow> ('r, 'k, 'c) pipeline \<Rightarrow> bool"
  for ext :: "('r, 'k, 'c) proc_ext" where
  pl_swap: "pl_flusher s = None \<Longrightarrow> p_storage (pl_proc s) = Some st \<Longrightarrow> swap_locked st = (Some b, st')
    \<Longrightarrow> flusher_step ext s (s\<lparr>pl_flusher := Some (start_flush b), pl_proc := (pl_proc s)\<lparr>p_storage := Some st'\<rparr>\<rparr>)"
| pl_flush_thread: "pl_flusher s = Some f
    \<Longrightarrow> flush_act (px_store ext) (it_dl (env :: iter_env)) f (store_world_of (pl_proc s)) = (r, w)
    \<Longrightarrow> flusher_step ext s ((note_lost (it_dl env) f s)\<lparr>pl_flusher := r, pl_proc := put_world w (pl_proc s)\<rparr>)"

inductive poll_step :: "('r, 'k, 'c) proc_ext \<Rightarrow> ('r, 'k, 'c) pipeline \<Rightarrow> ('r, 'k, 'c) pipeline \<Rightarrow> bool"
  for ext :: "('r, 'k, 'c) proc_ext" where
  pl_poll: "p_producer (pl_proc s) \<noteq> None
    \<Longrightarrow> kafka_poll (px_kafka ext) (px_opaque ext) (p_kafka (pl_proc s), p_metrics (pl_proc s)) = Inr (k, m)
    \<Longrightarrow> poll_step ext s (s\<lparr>pl_proc := (pl_proc s)\<lparr>p_kafka := k, p_metrics := m\<rparr>\<rparr>)"

inductive work_step :: "('r, 'k, 'c) proc_ext \<Rightarrow> ('r, 'k, 'c) pipeline \<Rightarrow> ('r, 'k, 'c) pipeline \<Rightarrow> bool"
  for ext :: "('r, 'k, 'c) proc_ext" where
  work_worker: "worker_step ext i s t \<Longrightarrow> work_step ext s t"
| work_flusher: "flusher_step ext s t \<Longrightarrow> work_step ext s t"
| work_poll: "poll_step ext s t \<Longrightarrow> work_step ext s t"

inductive pl_step :: "('r, 'k, 'c) proc_ext \<Rightarrow> ('r, 'k, 'c) pipeline \<Rightarrow> ('r, 'k, 'c) pipeline \<Rightarrow> bool"
  for ext :: "('r, 'k, 'c) proc_ext" where
  pl_push: "pl_step ext s (session_push d s)"
| pl_drop: "d \<in># pl_refused s \<Longrightarrow> pl_step ext s (session_count d s)"
| pl_work: "work_step ext s t \<Longrightarrow> pl_step ext s t"

inductive_cases worker_stepE: "worker_step ext i s t"
inductive_cases flusher_stepE: "flusher_step ext s t"
inductive_cases poll_stepE: "poll_step ext s t"
inductive_cases work_stepE: "work_step ext s t"
inductive_cases pl_stepE: "pl_step ext s t"

definition pl_init :: "('r, 'k, 'c) pipeline \<Rightarrow> bool" where
  "pl_init s \<longleftrightarrow> p_metrics (pl_proc s) = Metrics_init \<and> list_all (\<lambda>st. st = Waiting) (pl_workers s) \<and>
     pl_flusher s = None \<and> pl_pushed s = {#} \<and> pl_refused s = {#} \<and> pl_unstored s = {#} \<and> pl_lost s = {#} \<and>
     pl_popped s = 0 \<and> pl_admitted s = 0 \<and>
     tsq_queue (p_queue (pl_proc s)) = [] \<and>
     (case p_storage (pl_proc s) of None \<Rightarrow> True | Some st \<Rightarrow> st_buffer st = [])"

section \<open>The counters at every moment\<close>

definition staged :: "(stage \<Rightarrow> bool) \<Rightarrow> ('r, 'k, 'c) pipeline \<Rightarrow> u64" where
  "staged P s = of_nat (length (filter P (pl_workers s)))"

definition pl_count :: "counter \<Rightarrow> ('r, 'k, 'c) pipeline \<Rightarrow> u64" where
  "pl_count c s = load c (p_metrics (pl_proc s))"

definition pl_inv :: "('r, 'k, 'c) pipeline \<Rightarrow> bool" where
  "pl_inv s \<longleftrightarrow>
     of_nat (size (pl_pushed s)) = pl_count Total_queue_drop s + of_nat (size (pl_refused s))
       + of_nat (length (tsq_queue (p_queue (pl_proc s)))) + of_nat (pl_popped s) \<and>
     of_nat (pl_popped s) = pl_count Total_received s + staged is_popped s \<and>
     pl_count Total_received s = pl_count Total_parsed s + pl_count Total_parse_fail s + staged is_received s \<and>
     pl_count Total_parsed s = pl_count Total_valid s + pl_count Total_invalid s + staged is_parsed s \<and>
     pl_count Total_valid s = pl_count Total_rate_limited s + of_nat (pl_admitted s)
       + staged is_checked s + staged is_denied s \<and>
     pl_count Total_store_fail s = 0"

lemma staged_move:
  assumes "at_stage i old s"
  shows "staged P (move i new p s) = staged P s - (if P old then 1 else 0) + (if P new then 1 else 0)"
proof -
  have "length (filter P (pl_workers (move i new p s))) + (if P old then 1 else 0)
      = length (filter P (pl_workers s)) + (if P new then 1 else 0)"
    using assms length_filter_update [of i "pl_workers s" P new] by (simp add: move_def at_stage_def)
  from arg_cong [where f = "of_nat :: nat \<Rightarrow> u64", OF this] show ?thesis
    by (simp add: staged_def algebra_simps split: if_splits)
qed

lemma move_fields [simp]:
  "pl_proc (move i st p s) = p" "pl_popped (move i st p s) = pl_popped s" "pl_admitted (move i st p s) = pl_admitted s"
  "pl_count c (move i st p s) = load c (p_metrics p)" "pl_pushed (move i st p s) = pl_pushed s"
  "pl_refused (move i st p s) = pl_refused s" "pl_unstored (move i st p s) = pl_unstored s"
  "pl_lost (move i st p s) = pl_lost s"
  "pl_flusher (move i st p s) = pl_flusher s"
  by (simp_all add: move_def pl_count_def)

lemma note_fields [simp]:
  "pl_proc (note_unstored d s) = pl_proc s" "pl_proc (note_lost env f s) = pl_proc s"
  "pl_workers (note_unstored d s) = pl_workers s" "pl_workers (note_lost env f s) = pl_workers s"
  "pl_flusher (note_unstored d s) = pl_flusher s" "pl_flusher (note_lost env f s) = pl_flusher s"
  "pl_pushed (note_unstored d s) = pl_pushed s" "pl_pushed (note_lost env f s) = pl_pushed s"
  "pl_refused (note_unstored d s) = pl_refused s" "pl_refused (note_lost env f s) = pl_refused s"
  "pl_popped (note_unstored d s) = pl_popped s" "pl_popped (note_lost env f s) = pl_popped s"
  "pl_admitted (note_unstored d s) = pl_admitted s" "pl_admitted (note_lost env f s) = pl_admitted s"
  "pl_unstored (note_unstored d s) = add_mset d (pl_unstored s)" "pl_unstored (note_lost env f s) = pl_unstored s"
  "pl_lost (note_unstored d s) = pl_lost s" "pl_lost (note_lost env f s) = pl_lost s + mset (flush_lost env f)"
  "pl_count c (note_unstored d s) = pl_count c s" "pl_count c (note_lost env f s) = pl_count c s"
  "staged P (note_unstored d s) = staged P s" "staged P (note_lost env f s) = staged P s"
  "at_stage i st (note_unstored d s) = at_stage i st s" "at_stage i st (note_lost env f s) = at_stage i st s"
  by (simp_all add: note_unstored_def note_lost_def pl_count_def staged_def at_stage_def)

lemma staged_fields [simp]:
  "staged P (s\<lparr>pl_proc := p\<rparr>) = staged P s" "staged P (s\<lparr>pl_popped := n\<rparr>) = staged P s"
  "staged P (s\<lparr>pl_admitted := n\<rparr>) = staged P s" "staged P (s\<lparr>pl_flusher := f\<rparr>) = staged P s"
  "staged P (s\<lparr>pl_pushed := x\<rparr>) = staged P s"
  "at_stage i st (s\<lparr>pl_popped := n\<rparr>) = at_stage i st s" "at_stage i st (s\<lparr>pl_admitted := n\<rparr>) = at_stage i st s"
  by (simp_all add: staged_def at_stage_def)

lemma session_push_fields [simp]:
  "p_metrics (pl_proc (session_push d s)) = p_metrics (pl_proc s)" "pl_workers (session_push d s) = pl_workers s"
  "p_queue (pl_proc (session_push d s)) = snd (try_push d (p_queue (pl_proc s)))" "pl_flusher (session_push d s) = pl_flusher s"
  "pl_popped (session_push d s) = pl_popped s" "pl_admitted (session_push d s) = pl_admitted s"
  "pl_unstored (session_push d s) = pl_unstored s" "pl_lost (session_push d s) = pl_lost s"
  "pl_pushed (session_push d s) = add_mset d (pl_pushed s)" "p_running (pl_proc (session_push d s)) = p_running (pl_proc s)"
  "p_storage (pl_proc (session_push d s)) = p_storage (pl_proc s)" "p_producer (pl_proc (session_push d s)) = p_producer (pl_proc s)"
  "pl_refused (session_push d s) =
     (if fst (try_push d (p_queue (pl_proc s))) then pl_refused s else add_mset d (pl_refused s))"
  by (simp_all add: session_push_def Let_def split: prod.splits)

lemma session_count_fields [simp]:
  "pl_proc (session_count d s) = bump Total_queue_drop (pl_proc s)" "pl_workers (session_count d s) = pl_workers s"
  "pl_flusher (session_count d s) = pl_flusher s" "pl_popped (session_count d s) = pl_popped s"
  "pl_admitted (session_count d s) = pl_admitted s" "pl_pushed (session_count d s) = pl_pushed s"
  "pl_refused (session_count d s) = pl_refused s - {#d#}"
  "pl_unstored (session_count d s) = pl_unstored s" "pl_lost (session_count d s) = pl_lost s"
  by (simp_all add: session_count_def)

lemma staged_session [simp]: "staged P (session_push d s) = staged P s" "staged P (session_count d s) = staged P s"
  by (simp_all add: staged_def)

lemma flush_act_frame:
  assumes "flush_act (px_store ext) env f (store_world_of p) = (r, w)" and "c \<notin> sink_counters"
  shows "load c (p_metrics (put_world w p)) = load c (p_metrics p)"
  using flush_act_load [OF assms(1), of c] assms(2)
  by (auto simp: put_world_def store_world_of_def sink_counters_def split: flush.splits)

lemma kafka_poll_counters:
  assumes "kafka_poll lib op (k, m) = Inr (k', m')" and "c \<notin> sink_counters"
  shows "load c m' = load c m"
  using kafka_poll_frame [OF assms(1)] assms(2) by (auto simp: sink_counters_def)

lemma after_flush_stages [simp]:
  "\<not> is_popped (after_flush r)" "\<not> is_received (after_flush r)" "\<not> is_parsed (after_flush r)"
  "\<not> is_checked (after_flush r)" "\<not> is_denied (after_flush r)"
  by (simp_all add: after_flush_def split: option.splits)

lemma after_produce_stages [simp]:
  "\<not> is_popped (after_produce d evt r)" "\<not> is_received (after_produce d evt r)" "\<not> is_parsed (after_produce d evt r)"
  "\<not> is_checked (after_produce d evt r)" "\<not> is_denied (after_produce d evt r)"
  by (simp_all add: after_produce_def split: option.splits)

lemma kafka_act_keeps:
  assumes "kafka_act ext evt d a p = Inr (r, p')"
  shows "p_queue p' = p_queue p" "p_running p' = p_running p" "p_producer p' = p_producer p"
    "p_storage p' = p_storage p" "p_limiter p' = p_limiter p" "p_client p' = p_client p" "p_files p' = p_files p"
    "c \<noteq> Total_kafka_ok \<Longrightarrow> c \<noteq> Total_kafka_fail \<Longrightarrow> load c (p_metrics p') = load c (p_metrics p)"
  using assms by (auto simp: kafka_act_def split: sum.splits dest: produce_act_frame)

lemma put_world_keeps [simp]:
  "p_queue (put_world w p) = p_queue p" "p_running (put_world w p) = p_running p" "p_storage (put_world w p) = p_storage p"
  "p_producer (put_world w p) = p_producer p"
  by (simp_all add: put_world_def)

lemma try_pop_length: "try_pop [] q = (True, d, q') \<Longrightarrow> length (tsq_queue q) = Suc (length (tsq_queue q'))"
  by (auto simp: try_pop_def split: list.splits)

lemmas pl_frames = check_limit_keeps(1,2) kafka_act_keeps flush_act_frame kafka_poll_counters

lemma pl_inv_worker:
  assumes "pl_inv s" and "worker_step ext i s t"
  shows "pl_inv t"
  using assms(2,1)
  by cases (simp_all add: pl_inv_def staged_move pl_frames pl_count_def algebra_simps sink_counters_def try_pop_length)

lemma pl_inv_flusher: "pl_inv s \<Longrightarrow> flusher_step ext s t \<Longrightarrow> pl_inv t"
  by (erule flusher_stepE) (simp_all add: pl_inv_def pl_frames pl_count_def sink_counters_def)

lemma pl_inv_poll: "pl_inv s \<Longrightarrow> poll_step ext s t \<Longrightarrow> pl_inv t"
  by (erule poll_stepE) (simp add: pl_inv_def pl_frames pl_count_def sink_counters_def)

lemma pl_inv_push: "pl_inv s \<Longrightarrow> pl_inv (session_push d s)"
  by (simp add: pl_inv_def pl_count_def try_push_cases ac_simps)

lemma pl_inv_drop: "pl_inv s \<Longrightarrow> d \<in># pl_refused s \<Longrightarrow> pl_inv (session_count d s)"
  by (auto simp: pl_inv_def pl_count_def dest!: multi_member_split)

lemma pl_inv_step: "pl_inv s \<Longrightarrow> pl_step ext s t \<Longrightarrow> pl_inv t"
  by (erule pl_stepE) (auto elim!: work_stepE intro: pl_inv_worker pl_inv_flusher pl_inv_poll pl_inv_push pl_inv_drop)

lemma staged_waiting:
  assumes "list_all (\<lambda>st. st = Waiting) (pl_workers s)" and "\<not> P Waiting"
  shows "staged P s = 0"
proof -
  have "filter P (pl_workers s) = []" using assms by (auto simp: list_all_iff filter_empty_conv)
  then show ?thesis by (simp add: staged_def)
qed

interpretation pli: inductive_invariant pl_init "pl_step ext" pl_inv for ext :: "('r, 'k, 'c) proc_ext"
proof
  show "pl_inv s" if "pl_init s" for s :: "('r, 'k, 'c) pipeline"
    using that by (simp add: pl_inv_def pl_count_def pl_init_def staged_waiting Metrics_init_def load.simps)
qed (rule pl_inv_step)

section \<open>One thread alone\<close>

text \<open>The thread in slot \<open>i\<close>, left alone in state \<open>s\<close>, can end its round with the shared state \<open>p'\<close>.\<close>

definition ends_with :: "(('r, 'k, 'c) pipeline \<Rightarrow> ('r, 'k, 'c) pipeline \<Rightarrow> bool) \<Rightarrow> nat \<Rightarrow> ('r, 'k, 'c) pipeline
    \<Rightarrow> ('r, 'k, 'c) processor \<Rightarrow> bool" where
  "ends_with step i s p' \<longleftrightarrow>
     (\<exists>t. step\<^sup>*\<^sup>* s t \<and> pl_proc t = p' \<and> pl_workers t = (pl_workers s)[i := Waiting] \<and>
        pl_flusher t = pl_flusher s \<and> pl_pushed t = pl_pushed s)"

lemma at_stage_move [simp]: "at_stage i old s \<Longrightarrow> at_stage i st (move i st p s)"
  by (simp add: at_stage_def move_def)

lemma ends_now: "at_stage i Waiting s \<Longrightarrow> pl_proc s = p' \<Longrightarrow> ends_with step i s p'"
  unfolding ends_with_def by (rule exI [of _ s]) (auto simp: at_stage_def list_update_same_conv [THEN iffD2])

lemma move_then:
  assumes "at_stage i old s" and "step s (move i st p s')" and "pl_workers s' = pl_workers s"
    and "pl_flusher s' = pl_flusher s" and "pl_pushed s' = pl_pushed s"
    and "at_stage i st (move i st p s') \<Longrightarrow> ends_with step i (move i st p s') p'"
  shows "ends_with step i s p'"
proof -
  have "at_stage i st (move i st p s')" using assms(1,3) by (simp add: at_stage_def move_def)
  then obtain t where "step\<^sup>*\<^sup>* (move i st p s') t" "pl_proc t = p'"
    "pl_workers t = (pl_workers (move i st p s'))[i := Waiting]" "pl_flusher t = pl_flusher (move i st p s')"
    "pl_pushed t = pl_pushed (move i st p s')"
    using assms(6) by (auto simp: ends_with_def)
  with assms(2-5) show ?thesis
    unfolding ends_with_def by (intro exI [of _ t]) (auto simp: move_def intro: converse_rtranclp_into_rtranclp)
qed

lemma finish_step:
  assumes "at_stage i old s" and "step s (move i Waiting p s')" and "pl_workers s' = pl_workers s"
    and "pl_flusher s' = pl_flusher s" and "pl_pushed s' = pl_pushed s"
  shows "ends_with step i s p"
  by (rule move_then [where step = step, OF assms]) (simp add: ends_now)

text \<open>
  What a thread does with an event beyond the limiter is the same code in \<open>worker\<close> and in
  \<open>stop\<close>; its actions, left alone, are \<open>do_flush\<close> for a full batch and \<open>deliver\<close> for an event.
\<close>

locale flush_code =
  fixes ext :: "('r, 'k, 'c) proc_ext" and i :: nat
    and step :: "('r, 'k, 'c) pipeline \<Rightarrow> ('r, 'k, 'c) pipeline \<Rightarrow> bool"
  assumes act_flush: "at_stage i (Flushing f) s
      \<Longrightarrow> flush_act (px_store ext) (it_dl (env :: iter_env)) f (store_world_of (pl_proc s)) = (r', w)
      \<Longrightarrow> step s (move i (after_flush r') (put_world w (pl_proc s)) (note_lost (it_dl env) f s))"
begin

lemmas step_then = move_then [where step = step]
lemmas step_finish = finish_step [where step = step]

lemma flush_steps:
  fixes env :: iter_env
  assumes "at_stage i (Flushing f) s"
  shows "ends_with step i s (put_world (flush_run (px_store ext) (it_dl env) f (store_world_of (pl_proc s))) (pl_proc s))"
  using assms
proof (induction "actions_left f" arbitrary: f s rule: less_induct)
  case less
  obtain r w where r: "flush_act (px_store ext) (it_dl env) f (store_world_of (pl_proc s)) = (r, w)" by fastforce
  note run = flush_run.simps [of "px_store ext" "it_dl env" f]
  show ?case
  proof (rule step_then [OF less.prems act_flush [OF less.prems r]])
    let ?s = "move i (after_flush r) (put_world w (pl_proc s)) (note_lost (it_dl env) f s)"
    assume at: "at_stage i (after_flush r) ?s"
    have w: "store_world_of (pl_proc ?s) = w" by (simp add: store_world_of_def put_world_def)
    show "ends_with step i ?s (put_world (flush_run (px_store ext) (it_dl env) f (store_world_of (pl_proc s))) (pl_proc s))"
    proof (cases r)
      case None
      with at r run show ?thesis by (intro ends_now) (simp_all add: after_flush_def)
    next
      case (Some f')
      then have "actions_left f' < actions_left f" using flush_act_decreases r by metis
      from less.hyps [OF this, of ?s] at Some w r run show ?thesis
        by (simp add: after_flush_def) (simp add: put_world_def)
    qed
  qed simp_all
qed

end

locale delivery_code = flush_code +
  assumes act_produce: "at_stage i (Producing d evt a) s \<Longrightarrow> kafka_act ext evt d a (pl_proc s) = Inr (r, p)
      \<Longrightarrow> step s (move i (after_produce d evt r) p s)"
    and act_no_store: "at_stage i (Produced d) s \<Longrightarrow> p_storage (pl_proc s) = None
      \<Longrightarrow> step s (move i Waiting (pl_proc s) (note_unstored d s))"
    and act_buffer: "at_stage i (Produced d) s \<Longrightarrow> p_storage (pl_proc s) = Some st \<Longrightarrow> save_locked d st = (None, st')
      \<Longrightarrow> step s (move i Waiting ((pl_proc s)\<lparr>p_storage := Some st'\<rparr>) s)"
    and act_full: "at_stage i (Produced d) s \<Longrightarrow> p_storage (pl_proc s) = Some st \<Longrightarrow> save_locked d st = (Some b, st')
      \<Longrightarrow> step s (move i (Flushing (start_flush b)) ((pl_proc s)\<lparr>p_storage := Some st'\<rparr>) s)"
begin

lemma save_steps:
  assumes a: "at_stage i (Produced d) s"
  shows "ends_with step i s (save_event ext env d (pl_proc s))"
proof (cases "p_storage (pl_proc s)")
  case None
  with step_finish [OF a act_no_store [OF a None]] show ?thesis by (simp add: save_event_def)
next
  case (Some st)
  obtain b st' where l: "save_locked d st = (b, st')" by fastforce
  show ?thesis
  proof (cases b)
    case None
    with l Some have "save_event ext env d (pl_proc s) = (pl_proc s)\<lparr>p_storage := Some st'\<rparr>"
      by (simp add: save_event_def save_def put_store_def flush_opt_def store_world_of_def)
    with step_finish [OF a act_buffer [OF a Some] refl refl refl] l None show ?thesis by simp
  next
    case (Some batch)
    have "batch \<noteq> []" using l Some by (auto simp: save_locked_def Let_def split: if_splits)
    let ?p = "(pl_proc s)\<lparr>p_storage := Some st'\<rparr>"
    have e: "save_event ext env d (pl_proc s) =
        put_world (flush_run (px_store ext) (it_dl env) (start_flush batch) (store_world_of ?p)) ?p"
      using l \<open>p_storage (pl_proc s) = Some st\<close> Some
      by (simp add: flush_run_start [OF \<open>batch \<noteq> []\<close>] save_event_def save_def put_store_def flush_opt_def store_world_of_def put_world_def)
    from l Some have l': "save_locked d st = (Some batch, st')" by simp
    show ?thesis unfolding e
      by (rule step_then [OF a act_full [OF a \<open>p_storage (pl_proc s) = Some st\<close> l'] refl refl refl])
        (use flush_steps [of "start_flush batch"] in fastforce)
  qed
qed

lemma produce_steps:
  assumes "at_stage i (Producing d evt a) s"
    and "produce_run (px_kafka ext) (px_opaque ext) (p_producer (pl_proc s)) (user_id evt) d a
      (p_kafka (pl_proc s), p_metrics (pl_proc s)) = Inr (k, m)"
  shows "ends_with step i s (save_event ext env d ((pl_proc s)\<lparr>p_kafka := k, p_metrics := m\<rparr>))"
  using assms
proof (induction "productions_left a" arbitrary: a s rule: less_induct)
  case less
  let ?act = "produce_act (px_kafka ext) (px_opaque ext) (p_producer (pl_proc s)) (user_id evt) d a
    (p_kafka (pl_proc s), p_metrics (pl_proc s))"
  note run = less.prems(2) [unfolded produce_run.simps [of "px_kafka ext" "px_opaque ext" _ _ _ a]]
  obtain r k1 m1 where act: "?act = Inr (r, k1, m1)" using run by (auto split: sum.splits)
  let ?p = "(pl_proc s)\<lparr>p_kafka := k1, p_metrics := m1\<rparr>"
  have r: "kafka_act ext evt d a (pl_proc s) = Inr (r, ?p)" using act by (simp add: kafka_act_def)
  show ?case
  proof (rule step_then [OF less.prems(1) act_produce [OF less.prems(1) r] refl refl refl])
    let ?s = "move i (after_produce d evt r) ?p s"
    assume at: "at_stage i (after_produce d evt r) ?s"
    show "ends_with step i ?s (save_event ext env d ((pl_proc s)\<lparr>p_kafka := k, p_metrics := m\<rparr>))"
    proof (cases r)
      case None
      with at act run save_steps [of d ?s env] show ?thesis by (simp add: after_produce_def)
    next
      case (Some b)
      then have "productions_left b < productions_left a" using produce_act_decreases act by metis
      from less.hyps [OF this, of ?s] at Some act run show ?thesis by (simp add: after_produce_def)
    qed
  qed
qed

lemma deliver_steps:
  assumes "at_stage i (Producing d evt Attempt) s" and "deliver ext env evt d (pl_proc s) = Inr p'"
  shows "ends_with step i s p'"
proof -
  from assms(2) obtain k m where "produce_to_kafka (px_kafka ext) (px_opaque ext) (p_producer (pl_proc s)) (user_id evt) d
      (p_kafka (pl_proc s), p_metrics (pl_proc s)) = Inr (k, m)"
    and p': "p' = save_event ext env d ((pl_proc s)\<lparr>p_kafka := k, p_metrics := m\<rparr>)"
    by (auto simp: deliver_def kafka_event_def split: sum.splits)
  with produce_steps [OF assms(1)] show ?thesis by (simp add: produce_run_attempt)
qed

end

interpretation wkc: delivery_code ext i "worker_step ext i" for ext :: "('r, 'k, 'c) proc_ext" and i
  by unfold_locales (rule pl_produce pl_no_store pl_buffer pl_full pl_flush, assumption+)+

lemmas worker_then = move_then [where step = "worker_step ext i" for ext i]
lemmas worker_finish = finish_step [where step = "worker_step ext i" for ext i]

lemma limit_steps:
  assumes a: "at_stage i (Checked d evt) s" and l: "check_limit ext env evt (pl_proc s) = (ok, p)"
    and r: "(if ok then deliver ext env evt d p else Inr (bump Total_rate_limited p)) = Inr p'"
  shows "ends_with (worker_step ext i) i s p'"
proof (cases ok)
  case True
  from l True have l': "check_limit ext env evt (pl_proc s) = (True, p)" by simp
  show ?thesis
    by (rule worker_then [OF a pl_admit [OF a l']]) (use r True in \<open>auto intro: wkc.deliver_steps\<close>)
next
  case False
  from l False have l': "check_limit ext env evt (pl_proc s) = (False, p)" by simp
  have "p' = bump Total_rate_limited p" using r False by simp
  then show ?thesis
    using worker_then [OF a pl_deny [OF a l'] refl refl refl] worker_finish pl_limited [of i d "move i (Denied d) p s" ext] by fastforce
qed

lemma valid_steps:
  assumes a: "at_stage i (Parsed d evt) s"
    and r: "(if \<not> validate (it_time env) evt then Inr (bump Total_invalid (pl_proc s))
       else let (ok, p) = check_limit ext env evt (bump Total_valid (pl_proc s))
            in if \<not> ok then Inr (bump Total_rate_limited p) else deliver ext env evt d p) = Inr p'"
  shows "ends_with (worker_step ext i) i s p'"
proof (cases "validate (it_time env) evt")
  case True
  obtain ok p where l: "check_limit ext env evt (bump Total_valid (pl_proc s)) = (ok, p)" by fastforce
  show ?thesis
    by (rule worker_then [OF a pl_valid [OF a True] refl refl refl], rule limit_steps [of _ _ _ _ _ env ok p])
      (use l r True in \<open>auto split: if_splits\<close>)
next
  case False
  with r have "p' = bump Total_invalid (pl_proc s)" by simp
  with worker_finish [OF a pl_invalid [OF a False]] show ?thesis by simp
qed

lemma work_event_steps:
  assumes a: "at_stage i (Popped d) s" and r: "work_event ext env d (pl_proc s) = Inr p'"
  shows "ends_with (worker_step ext i) i s p'"
proof (rule worker_then [OF a pl_receive [OF a] refl refl refl])
  let ?s = "move i (Received d) (bump Total_received (pl_proc s)) s"
  assume b: "at_stage i (Received d) ?s"
  show "ends_with (worker_step ext i) i ?s p'"
  proof (cases "parse_event (px_store ext) d")
    case None
    with r have "p' = bump Total_parse_fail (pl_proc ?s)" by (simp add: work_event_def Let_def)
    with worker_finish [OF b pl_parse_fail [OF b None]] show ?thesis by simp
  next
    case (Some evt)
    show ?thesis
      by (rule worker_then [OF b pl_parse [OF b Some] refl refl refl], rule valid_steps [of _ _ _ _ env])
        (use r Some in \<open>auto simp: work_event_def Let_def split: if_splits\<close>)
  qed
qed

section \<open>Properties\<close>

text \<open>
  C14: the worker's code is what its atomic steps add up to.  A worker that has taken an event
  and runs its steps without interruption ends waiting again, with exactly the result of the
  sequential \<open>work_event\<close> on the shared state.
\<close>

theorem stages_refine_work_event:
  assumes "at_stage i (Popped d) s" and "work_event ext env d (pl_proc s) = Inr p'"
  shows "\<exists>t. (worker_step ext i)\<^sup>*\<^sup>* s t \<and> pl_proc t = p' \<and> at_stage i Waiting t"
  using work_event_steps [OF assms] assms(1) by (auto simp: ends_with_def at_stage_def)

definition one_worker :: "stage \<Rightarrow> bytes list \<Rightarrow> (unit, unit, unit) pipeline" where
  "one_worker st q = \<lparr>pl_proc = bare_processor q, pl_workers = [st], pl_flusher = None, pl_pushed = mset q, pl_refused = {#},
     pl_unstored = {#}, pl_lost = {#}, pl_popped = 0, pl_admitted = 0\<rparr>"

theorem stages_refine_work_event_witness:
  "\<exists>p' t. work_event bare_ext sample_env ''ev'' (bare_processor []) = Inr p' \<and>
     (worker_step bare_ext 0)\<^sup>*\<^sup>* (one_worker (Popped ''ev'') []) t \<and> pl_proc t = p' \<and> at_stage 0 Waiting t"
proof -
  have a: "at_stage 0 (Popped ''ev'') (one_worker (Popped ''ev'') [])" by (simp add: one_worker_def at_stage_def)
  have "\<exists>p'. work_event bare_ext sample_env ''ev'' (bare_processor []) = Inr p'"
    by (simp add: work_event_def Let_def bare_ext_def sample_valid check_limit_def bare_processor_def deliver_def
        kafka_event_def produce_to_kafka_def)
  then obtain p' where p: "work_event bare_ext sample_env ''ev'' (pl_proc (one_worker (Popped ''ev'') [])) = Inr p'"
    by (auto simp: one_worker_def)
  from stages_refine_work_event [OF a p] p show ?thesis by (auto simp: one_worker_def)
qed

lemma one_worker_reachable:
  "reachable pl_init (pl_step bare_ext)
     (move 0 (Popped ''ev'') (bare_processor []) ((one_worker Waiting [''ev''])\<lparr>pl_popped := 1\<rparr>))"
proof -
  let ?start = "one_worker Waiting []" and ?s = "one_worker Waiting [''ev'']"
  have "pl_init ?start" by (simp add: pl_init_def one_worker_def bare_processor_def)
  then have r0: "reachable pl_init (pl_step bare_ext) ?start" by (rule reach_init)
  have e0: "session_push ''ev'' ?start = ?s"
    by (simp add: one_worker_def session_push_def bare_processor_def try_push_def Let_def)
  have "pl_step bare_ext ?start ?s"
    by (rule pl_push [of bare_ext ?start "''ev''", unfolded e0])
  with r0 have r: "reachable pl_init (pl_step bare_ext) ?s" by (rule reach_step)
  let ?q = "\<lparr>tsq_queue = [], tsq_capacity = 10000\<rparr>"
  have p: "try_pop [] (p_queue (pl_proc ?s)) = (True, ''ev'', ?q)"
    by (simp add: one_worker_def bare_processor_def try_pop_def)
  have a: "at_stage 0 Waiting ?s" by (simp add: one_worker_def at_stage_def)
  have e: "(pl_proc ?s)\<lparr>p_queue := ?q\<rparr> = bare_processor []" "Suc (pl_popped ?s) = 1"
    by (simp_all add: one_worker_def bare_processor_def)
  from pl_work [OF work_worker [OF pl_pop [OF a p, of bare_ext]]] have "pl_step bare_ext ?s
      (move 0 (Popped ''ev'') (bare_processor []) (?s\<lparr>pl_popped := 1\<rparr>))" unfolding e .
  with r show ?thesis by (rule reach_step)
qed

end
