(* ===== verification/Vetting.thy ===== *)
theory Vetting
  imports Pipeline
begin

text \<open>
  Only vetted messages get beyond the checks: in every state of \<open>Pipeline\<close> the messages at or
  after the limiter, in the buffer of the storage and in the batches being flushed have been
  parsed and have passed \<open>validate\<close> at some time.
\<close>

section \<open>Vetted messages\<close>

definition vetted :: "('r, 'k, 'c) proc_ext \<Rightarrow> bytes \<Rightarrow> bool" where
  "vetted ext d \<longleftrightarrow> (\<exists>evt time. parse_event (px_store ext) d = Some evt \<and> validate time evt)"

fun stage_vetted :: "('r, 'k, 'c) proc_ext \<Rightarrow> stage \<Rightarrow> bool" where
  "stage_vetted ext (Parsed d evt) \<longleftrightarrow> parse_event (px_store ext) d = Some evt"
| "stage_vetted ext (Checked d evt) \<longleftrightarrow> vetted ext d"
| "stage_vetted ext (Denied d) \<longleftrightarrow> vetted ext d"
| "stage_vetted ext (Producing d evt a) \<longleftrightarrow> vetted ext d"
| "stage_vetted ext (Produced d) \<longleftrightarrow> vetted ext d"
| "stage_vetted ext (Flushing f) \<longleftrightarrow> list_all (vetted ext) (flush_batch f)"
| "stage_vetted ext _ \<longleftrightarrow> True"

definition flusher_vetted :: "('r, 'k, 'c) proc_ext \<Rightarrow> flush option \<Rightarrow> bool" where
  "flusher_vetted ext r \<longleftrightarrow> (case r of None \<Rightarrow> True | Some f \<Rightarrow> list_all (vetted ext) (flush_batch f))"

definition buffer_vetted :: "('r, 'k, 'c) proc_ext \<Rightarrow> storage option \<Rightarrow> bool" where
  "buffer_vetted ext st \<longleftrightarrow> (case st of None \<Rightarrow> True | Some st \<Rightarrow> list_all (vetted ext) (st_buffer st))"

definition store_vetted :: "('r, 'k, 'c) proc_ext \<Rightarrow> ('r, 'k, 'c) pipeline \<Rightarrow> bool" where
  "store_vetted ext s \<longleftrightarrow> list_all (stage_vetted ext) (pl_workers s) \<and> flusher_vetted ext (pl_flusher s) \<and>
     buffer_vetted ext (p_storage (pl_proc s))"

lemma stage_vetted_at: "store_vetted ext s \<Longrightarrow> at_stage i st s \<Longrightarrow> stage_vetted ext st"
  by (auto simp: store_vetted_def at_stage_def list_all_length)

lemma store_vetted_move:
  assumes "store_vetted ext s" and "stage_vetted ext st" and "buffer_vetted ext (p_storage p)"
  shows "store_vetted ext (move i st p s)"
  using assms set_update_subset_insert [of "pl_workers s" i st]
  by (auto simp: store_vetted_def move_def list_all_iff)

lemma store_vetted_fields [simp]:
  "store_vetted ext (note_unstored d s) = store_vetted ext s" "store_vetted ext (note_lost env f s) = store_vetted ext s"
  "store_vetted ext (s\<lparr>pl_popped := n\<rparr>) = store_vetted ext s"
  "store_vetted ext (s\<lparr>pl_admitted := n\<rparr>) = store_vetted ext s"
  by (simp_all add: store_vetted_def)

lemma flush_act_vetted:
  assumes "flush_act se env f w = (r, w')" and "list_all (vetted ext) (flush_batch f)"
  shows "flusher_vetted ext r" and "stage_vetted ext (after_flush r)"
  using flush_act_batch [of se env f w] assms
  by (auto simp: flusher_vetted_def after_flush_def split: option.splits)

lemma save_locked_vetted:
  assumes "save_locked d st = (b, st')" and "vetted ext d" and "buffer_vetted ext (Some st)"
  shows "buffer_vetted ext (Some st')" and "stage_vetted ext (after_flush (map_option start_flush b))"
  using assms
  by (auto simp: save_locked_def buffer_vetted_def after_flush_def start_flush_def Let_def split: if_splits)

lemma swap_locked_vetted:
  assumes "swap_locked st = (Some b, st')" and "buffer_vetted ext (Some st)"
  shows "buffer_vetted ext (Some st')" and "flusher_vetted ext (Some (start_flush b))"
  using assms
  by (auto simp: swap_locked_def buffer_vetted_def flusher_vetted_def start_flush_def split: if_splits)

lemma after_produce_vetted [simp]: "stage_vetted ext (after_produce d evt r) = vetted ext d"
  by (simp add: after_produce_def split: option.splits)

lemma store_vetted_worker:
  assumes v: "store_vetted ext s" and "worker_step ext i s t"
  shows "store_vetted ext t"
proof -
  have b: "buffer_vetted ext (p_storage (pl_proc s))" using v by (simp add: store_vetted_def)
  note at = stage_vetted_at [OF v]
  show ?thesis using assms(2)
  proof cases
    case (pl_valid d evt env)
    then have "vetted ext d" using at [OF pl_valid(2)] unfolding vetted_def by auto
    with pl_valid(1) v b show ?thesis by (simp add: store_vetted_move)
  next
    case (pl_buffer d st st')
    with at [OF pl_buffer(2)] b save_locked_vetted(1) [OF pl_buffer(4), of ext] v show ?thesis
      by (simp add: store_vetted_move)
  next
    case (pl_full d st b st')
    with at [OF pl_full(2)] \<open>buffer_vetted ext (p_storage (pl_proc s))\<close> save_locked_vetted [OF pl_full(4), of ext] v
    show ?thesis by (simp add: store_vetted_move after_flush_def)
  next
    case (pl_flush f env r w)
    with at [OF pl_flush(2)] b flush_act_vetted(2) [OF pl_flush(3), of ext] v show ?thesis
      by (simp add: store_vetted_move)
  next
    case (pl_deny d evt env p)
    with at [OF pl_deny(2)] b v check_limit_keeps(3) [OF pl_deny(3)] show ?thesis by (simp add: store_vetted_move)
  next
    case (pl_admit d evt env p)
    with at [OF pl_admit(2)] b v check_limit_keeps(3) [OF pl_admit(3)] show ?thesis by (simp add: store_vetted_move)
  next
    case (pl_produce d evt a r p)
    with at [OF pl_produce(2)] b v kafka_act_keeps(4) [OF pl_produce(3)] show ?thesis by (simp add: store_vetted_move)
  qed (use v b in \<open>simp_all add: store_vetted_move\<close>)
qed

lemma store_vetted_flusher:
  assumes v: "store_vetted ext s" and "flusher_step ext s t"
  shows "store_vetted ext t"
  using assms(2)
proof cases
  case (pl_swap st b st')
  with swap_locked_vetted [OF pl_swap(4), of ext] v show ?thesis by (simp add: store_vetted_def)
next
  case (pl_flush_thread f env r w)
  with flush_act_vetted(1) [OF pl_flush_thread(3), of ext] v show ?thesis
    by (simp add: store_vetted_def flusher_vetted_def)
qed

lemma store_vetted_poll: "store_vetted ext s \<Longrightarrow> poll_step ext s t \<Longrightarrow> store_vetted ext t"
  by (erule poll_stepE) (simp add: store_vetted_def)

lemma store_vetted_work: "store_vetted ext s \<Longrightarrow> work_step ext s t \<Longrightarrow> store_vetted ext t"
  by (erule work_stepE) (blast intro: store_vetted_worker store_vetted_flusher store_vetted_poll)+

interpretation svi: inductive_invariant pl_init "pl_step ext" "store_vetted ext"
  for ext :: "('r, 'k, 'c) proc_ext"
proof
  show "store_vetted ext s" if "pl_init s" for s
    using that by (auto simp: pl_init_def store_vetted_def flusher_vetted_def buffer_vetted_def list_all_iff split: option.splits)
  show "store_vetted ext t" if "store_vetted ext s" "pl_step ext s t" for s t
    using that(2,1)
  proof cases
    case (pl_push d)
    with that(1) show ?thesis by (simp add: store_vetted_def)
  next
    case (pl_drop d)
    with that(1) show ?thesis by (simp add: store_vetted_def)
  qed (use that store_vetted_work in blast)
qed

end
