(* ===== verification/Ledger.thy ===== *)
theory Ledger
  imports Vetting
begin

text \<open>
  What the service promises about every message, as a specification without threads, queues
  or counters: a ledger of where the messages are.  A message arrives, then moves along the
  places of \<open>next_places\<close> until its fate is decided; it may only move to a place whose condition it
  meets, \<open>fits\<close>: it is unparsable only if it does not parse, rejected only if it parses and fails
  the validation at some time, and gets beyond the checks only if it passed them.  The machine of
  \<open>Pipeline\<close>, with the queue, the workers, the limiter, Kafka, the storage and its flush thread,
  is shown to refine it.
\<close>

section \<open>The specification\<close>

datatype place =
    Turned_away | Dropped | Queued | In_work | Unparsable | Rejected | Limited | Unstored | Buffered | In_flush
  | Stored | Dead_lettered | Lost

fun next_places :: "place \<Rightarrow> place list" where
  "next_places Turned_away = [Dropped]"
| "next_places Queued = [In_work]"
| "next_places In_work = [Unparsable, Rejected, Limited, Unstored, Buffered]"
| "next_places Buffered = [In_flush]"
| "next_places In_flush = [Stored, Dead_lettered, Lost]"
| "next_places _ = []"

instantiation place :: enum
begin

definition enum_place :: "place list" where
  "enum_place = [Turned_away, Dropped, Queued, In_work, Unparsable, Rejected, Limited, Unstored, Buffered, In_flush,
     Stored, Dead_lettered, Lost]"

definition enum_all_place :: "(place \<Rightarrow> bool) \<Rightarrow> bool" where
  "enum_all_place P \<longleftrightarrow> list_all P enum_class.enum"

definition enum_ex_place :: "(place \<Rightarrow> bool) \<Rightarrow> bool" where
  "enum_ex_place P \<longleftrightarrow> list_ex P enum_class.enum"

instance
proof
  show u: "(UNIV :: place set) = set enum_class.enum"
    by (auto simp: enum_place_def intro: place.exhaust)
  show "distinct (enum_class.enum :: place list)" by (simp add: enum_place_def)
  show "enum_class.enum_all P \<longleftrightarrow> Ball UNIV P" for P :: "place \<Rightarrow> bool"
    by (simp add: u enum_all_place_def list_all_iff)
  show "enum_class.enum_ex P \<longleftrightarrow> Bex UNIV P" for P :: "place \<Rightarrow> bool"
    by (simp add: u enum_ex_place_def list_ex_iff)
qed

end

record ledger =
  lg_arrived :: "bytes multiset"
  lg_at :: "place \<Rightarrow> bytes multiset"

definition arrive :: "place \<Rightarrow> bytes \<Rightarrow> ledger \<Rightarrow> ledger" where
  "arrive p d L = L\<lparr>lg_arrived := add_mset d (lg_arrived L), lg_at := (lg_at L)(p := add_mset d (lg_at L p))\<rparr>"

definition transfer :: "place \<Rightarrow> place \<Rightarrow> bytes multiset \<Rightarrow> ledger \<Rightarrow> ledger" where
  "transfer p q X L = L\<lparr>lg_at := (lg_at L)(p := lg_at L p - X, q := lg_at L q + X)\<rparr>"

definition ledger_init :: "ledger \<Rightarrow> bool" where
  "ledger_init L \<longleftrightarrow> lg_arrived L = {#} \<and> (\<forall>p. lg_at L p = {#})"

text \<open>The specification is relative to the condition \<open>ok\<close> of each place.\<close>

inductive ledger_step :: "(place \<Rightarrow> bytes \<Rightarrow> bool) \<Rightarrow> ledger \<Rightarrow> ledger \<Rightarrow> bool" for ok :: "place \<Rightarrow> bytes \<Rightarrow> bool" where
  lg_arrive: "p = Queued \<or> p = Turned_away \<Longrightarrow> ok p d \<Longrightarrow> ledger_step ok L (arrive p d L)"
| lg_transfer: "q \<in> set (next_places p) \<Longrightarrow> X \<subseteq># lg_at L p \<Longrightarrow> \<forall>d\<in>#X. ok q d
    \<Longrightarrow> ledger_step ok L (transfer p q X L)"

fun fits :: "('r, 'k, 'c) proc_ext \<Rightarrow> place \<Rightarrow> bytes \<Rightarrow> bool" where
  "fits ext Unparsable d \<longleftrightarrow> parse_event (px_store ext) d = None"
| "fits ext Rejected d \<longleftrightarrow> (\<exists>evt time. parse_event (px_store ext) d = Some evt \<and> \<not> validate time evt)"
| "fits ext Turned_away d \<longleftrightarrow> True"
| "fits ext Dropped d \<longleftrightarrow> True"
| "fits ext Queued d \<longleftrightarrow> True"
| "fits ext In_work d \<longleftrightarrow> True"
| "fits ext _ d \<longleftrightarrow> vetted ext d"

section \<open>What the specification guarantees\<close>

definition ledger_inv :: "ledger \<Rightarrow> bool" where
  "ledger_inv L \<longleftrightarrow> lg_arrived L = (\<Sum>p\<in>UNIV. lg_at L p)"

definition well_placed :: "(place \<Rightarrow> bytes \<Rightarrow> bool) \<Rightarrow> ledger \<Rightarrow> bool" where
  "well_placed ok L \<longleftrightarrow> (\<forall>p. \<forall>d\<in>#lg_at L p. ok p d)"

lemma next_places_irrefl [simp]: "p \<notin> set (next_places p)"
  by (cases p) simp_all

lemma sum_at:
  fixes g :: "'p::finite \<Rightarrow> 'b::comm_monoid_add"
  shows "(\<Sum>x\<in>UNIV. g x) = g p + (\<Sum>x\<in>UNIV - {p}. g x)"
    and "p \<noteq> q \<Longrightarrow> (\<Sum>x\<in>UNIV. g x) = g p + (g q + (\<Sum>x\<in>UNIV - {p} - {q}. g x))"
proof -
  show *: "(\<Sum>x\<in>UNIV. g x) = g p + (\<Sum>x\<in>UNIV - {p}. g x)" by (rule sum.remove) simp_all
  show "(\<Sum>x\<in>UNIV. g x) = g p + (g q + (\<Sum>x\<in>UNIV - {p} - {q}. g x))" if "p \<noteq> q"
    unfolding * using that by (subst sum.remove [of _ q]) auto
qed

lemma transfer_total:
  assumes "X \<subseteq># lg_at L p" and "p \<noteq> q"
  shows "(\<Sum>x\<in>UNIV. lg_at (transfer p q X L) x) = (\<Sum>x\<in>UNIV. lg_at L x)"
proof -
  have "(\<Sum>x\<in>UNIV - {p} - {q}. lg_at (transfer p q X L) x) = (\<Sum>x\<in>UNIV - {p} - {q}. lg_at L x)"
    by (rule sum.cong) (auto simp: transfer_def)
  moreover have "lg_at (transfer p q X L) p = lg_at L p - X" "lg_at (transfer p q X L) q = lg_at L q + X"
    using assms(2) by (simp_all add: transfer_def)
  moreover have "lg_at L p - X + (lg_at L q + X + R) = lg_at L p + (lg_at L q + R)" for R
    using subset_mset.diff_add [OF assms(1)] by (metis add.assoc add.commute)
  ultimately show ?thesis
    unfolding sum_at(2) [OF assms(2), of "lg_at (transfer p q X L)"] sum_at(2) [OF assms(2), of "lg_at L"] by simp
qed

lemma arrive_total: "(\<Sum>x\<in>UNIV. lg_at (arrive p d L) x) = add_mset d (\<Sum>x\<in>UNIV. lg_at L x)"
proof -
  have "(\<Sum>x\<in>UNIV - {p}. lg_at (arrive p d L) x) = (\<Sum>x\<in>UNIV - {p}. lg_at L x)"
    by (rule sum.cong) (auto simp: arrive_def)
  then show ?thesis
    unfolding sum_at(1) [of "lg_at (arrive p d L)" p] sum_at(1) [of "lg_at L" p] by (simp add: arrive_def)
qed

interpretation lgi: inductive_invariant ledger_init "ledger_step ok" ledger_inv for ok
proof
  show "ledger_inv s" if "ledger_init s" for s
    using that by (simp add: ledger_init_def ledger_inv_def)
  show "ledger_inv t" if "ledger_inv s" "ledger_step ok s t" for s t
    using that(2,1)
  proof cases
    case (lg_arrive p d)
    with that(1) show ?thesis by (simp add: ledger_inv_def arrive_total) (simp add: arrive_def)
  next
    case (lg_transfer q p X)
    then have "p \<noteq> q" by auto
    with lg_transfer that(1) transfer_total [of X s p q] show ?thesis
      by (simp add: ledger_inv_def) (simp add: transfer_def)
  qed
qed

interpretation lgw: inductive_invariant ledger_init "ledger_step ok" "well_placed ok" for ok
proof
  show "well_placed ok s" if "ledger_init s" for s using that by (simp add: ledger_init_def well_placed_def)
  show "well_placed ok t" if "well_placed ok s" "ledger_step ok s t" for s t
    using that(2,1) by cases (auto simp: well_placed_def arrive_def transfer_def dest: in_diffD)
qed

text \<open>A decided fate stays.\<close>

definition final :: "place \<Rightarrow> bool" where
  "final p \<longleftrightarrow> next_places p = []"

lemma fate_grows:
  assumes "(ledger_step ok)\<^sup>*\<^sup>* L L'" and "final p"
  shows "lg_at L p \<subseteq># lg_at L' p"
  using assms(1)
proof (induction rule: rtranclp_induct)
  case (step L1 L2)
  have "lg_at L1 p \<subseteq># lg_at L2 p"
    using step.hyps(2) assms(2) by cases (auto simp: arrive_def transfer_def final_def)
  with step.IH show ?case by (rule subset_mset.order_trans)
qed simp

section \<open>The places of a message in the machine\<close>

text \<open>The message a worker holds, and the batch a thread is flushing.\<close>

fun stage_event :: "stage \<Rightarrow> bytes multiset" where
  "stage_event (Popped d) = {#d#}"
| "stage_event (Received d) = {#d#}"
| "stage_event (Parsed d evt) = {#d#}"
| "stage_event (Checked d evt) = {#d#}"
| "stage_event (Denied d) = {#d#}"
| "stage_event (Producing d evt a) = {#d#}"
| "stage_event (Produced d) = {#d#}"
| "stage_event Waiting = {#}"
| "stage_event (Flushing f) = {#}"

fun stage_batch :: "stage \<Rightarrow> bytes multiset" where
  "stage_batch (Flushing f) = mset (flush_batch f)"
| "stage_batch _ = {#}"

definition held :: "('r, 'k, 'c) pipeline \<Rightarrow> bytes multiset" where
  "held s = sum_list (map stage_event (pl_workers s))"

definition thread_batch :: "flush option \<Rightarrow> bytes multiset" where
  "thread_batch r = (case r of None \<Rightarrow> {#} | Some f \<Rightarrow> mset (flush_batch f))"

definition flushed :: "('r, 'k, 'c) pipeline \<Rightarrow> bytes multiset" where
  "flushed s = sum_list (map stage_batch (pl_workers s)) + thread_batch (pl_flusher s)"

definition buffered :: "storage option \<Rightarrow> bytes multiset" where
  "buffered st = (case st of None \<Rightarrow> {#} | Some st \<Rightarrow> mset (st_buffer st))"

text \<open>
  A state of the machine and a ledger agree: the places a message passes through hold what the
  queue, the workers, the buffer and the flushes hold, each counter of a fate counts the
  messages that met it, and the two fates without a counter hold exactly the messages recorded
  where the code gives them up, after Kafka if there is no storage, and at a dead letter file
  that does not open.
\<close>

definition ledger_match :: "('r, 'k, 'c) pipeline \<Rightarrow> ledger \<Rightarrow> bool" where
  "ledger_match s L \<longleftrightarrow>
     lg_arrived L = pl_pushed s \<and>
     lg_at L Turned_away = pl_refused s \<and>
     lg_at L Queued = mset (tsq_queue (p_queue (pl_proc s))) \<and>
     lg_at L In_work = held s \<and>
     lg_at L Buffered = buffered (p_storage (pl_proc s)) \<and>
     lg_at L In_flush = flushed s \<and>
     pl_count Total_queue_drop s = of_nat (size (lg_at L Dropped)) \<and>
     pl_count Total_parse_fail s = of_nat (size (lg_at L Unparsable)) \<and>
     pl_count Total_invalid s = of_nat (size (lg_at L Rejected)) \<and>
     pl_count Total_rate_limited s = of_nat (size (lg_at L Limited)) \<and>
     pl_count Total_stored s = of_nat (size (lg_at L Stored)) \<and>
     pl_count Total_store_dead s = of_nat (size (lg_at L Dead_lettered)) \<and>
     lg_at L Unstored = pl_unstored s \<and>
     (p_storage (pl_proc s) = None \<or> pl_unstored s = {#}) \<and>
     lg_at L Lost = pl_lost s"

lemma waiting_holds:
  assumes "list_all (\<lambda>st. st = Waiting) ws"
  shows "sum_list (map stage_event ws) = {#}" and "sum_list (map stage_batch ws) = {#}"
  using assms by (induction ws) auto

lemma held_move:
  "at_stage i old s \<Longrightarrow> held (move i new p s) + stage_event old = held s + stage_event new"
  using sum_list_map_update [of i "pl_workers s" stage_event new] by (simp add: held_def move_def at_stage_def)

lemma flushed_move:
  "at_stage i old s \<Longrightarrow> flushed (move i new p s) + stage_batch old = flushed s + stage_batch new"
  using sum_list_map_update [of i "pl_workers s" stage_batch new]
  by (simp add: flushed_def move_def at_stage_def ac_simps)

lemma after_flush_batch [simp]: "stage_batch (after_flush r) = thread_batch r" "stage_event (after_flush r) = {#}"
  by (simp_all add: after_flush_def thread_batch_def split: option.splits)

lemma held_fields [simp]:
  "held (s\<lparr>pl_proc := p\<rparr>) = held s" "held (s\<lparr>pl_flusher := f\<rparr>) = held s" "held (s\<lparr>pl_pushed := x\<rparr>) = held s"
  "held (session_push d s) = held s" "held (session_count d s) = held s"
  "held (s\<lparr>pl_popped := n\<rparr>) = held s" "held (s\<lparr>pl_admitted := n\<rparr>) = held s"
  "held (note_unstored d s) = held s" "held (note_lost env fl s) = held s"
  by (simp_all add: held_def)

lemma flushed_fields [simp]:
  "flushed (s\<lparr>pl_proc := p\<rparr>) = flushed s" "flushed (s\<lparr>pl_pushed := x\<rparr>) = flushed s"
  "flushed (session_push d s) = flushed s" "flushed (session_count d s) = flushed s"
  "flushed (s\<lparr>pl_popped := n\<rparr>) = flushed s" "flushed (s\<lparr>pl_admitted := n\<rparr>) = flushed s"
  "flushed (note_unstored d s) = flushed s" "flushed (note_lost env fl s) = flushed s"
  by (simp_all add: flushed_def)

section \<open>The refinement\<close>

subsection \<open>Steps that move no message\<close>

definition fate_counters :: "counter set" where
  "fate_counters = {Total_queue_drop, Total_parse_fail, Total_invalid, Total_rate_limited, Total_stored, Total_store_dead}"

lemma match_same:
  assumes "ledger_match s L" and "held t = held s" and "flushed t = flushed s" and "pl_pushed t = pl_pushed s"
    and "pl_refused t = pl_refused s" and "pl_unstored t = pl_unstored s" and "pl_lost t = pl_lost s"
    and "p_queue (pl_proc t) = p_queue (pl_proc s)" and "p_storage (pl_proc t) = p_storage (pl_proc s)"
    and "\<And>c. c \<in> fate_counters \<Longrightarrow> pl_count c t = pl_count c s"
  shows "ledger_match t L"
  using assms by (simp add: ledger_match_def fate_counters_def)

lemma match_admitted [simp]: "ledger_match (s\<lparr>pl_admitted := n\<rparr>) L = ledger_match s L"
  by (simp add: ledger_match_def pl_count_def)

lemma match_on:
  assumes "ledger_match s L" and "at_stage i old s" and "stage_event new = stage_event old"
    and "stage_batch new = stage_batch old"
    and "p_queue p = p_queue (pl_proc s)" and "p_storage p = p_storage (pl_proc s)"
    and "\<And>c. c \<in> fate_counters \<Longrightarrow> load c (p_metrics p) = load c (p_metrics (pl_proc s))"
  shows "ledger_match (move i new p s) L"
proof (rule match_same [OF assms(1)])
  show "held (move i new p s) = held s" using held_move [OF assms(2), of new p] assms(3) by simp
  show "flushed (move i new p s) = flushed s" using flushed_move [OF assms(2), of new p] assms(4) by simp
qed (use assms(5-7) in \<open>simp_all add: pl_count_def\<close>)

lemma kafka_act_fates:
  "kafka_act ext evt d a p = Inr (r, p') \<Longrightarrow> c \<in> fate_counters \<Longrightarrow> load c (p_metrics p') = load c (p_metrics p)"
  using kafka_act_keeps(8) [of ext evt d a p r p' c] by (auto simp: fate_counters_def)

lemma after_produce_event [simp]: "stage_event (after_produce d evt r) = {#d#}" "stage_batch (after_produce d evt r) = {#}"
  by (simp_all add: after_produce_def split: option.splits)

lemma kafka_poll_fates:
  "kafka_poll lib op (k, m) = Inr (k', m') \<Longrightarrow> c \<in> fate_counters \<Longrightarrow> load c m' = load c m"
  using kafka_poll_frame [of lib op "(k, m)" "(k', m')" c] by (auto simp: fate_counters_def)

subsection \<open>Steps that move messages\<close>

lemma held_leave:
  assumes "at_stage i old s" and "stage_event old = {#d#}" and "stage_event new = {#}"
  shows "held (move i new p s) = held s - {#d#}" and "d \<in># held s"
  using held_move [OF assms(1), of new p] assms(2,3) by (simp_all add: add_mset_add_single [symmetric])
    (metis add_mset_remove_trivial, metis union_single_eq_member add_mset_add_single)

text \<open>A worker decides the fate of its message and counts it.\<close>

lemma match_decide:
  assumes m: "ledger_match s L" and a: "at_stage i old s" "stage_event old = {#d#}" "stage_batch old = {#}"
    and c: "(c, q) \<in> {(Total_parse_fail, Unparsable), (Total_invalid, Rejected), (Total_rate_limited, Limited)}"
    and fit: "fits ext q d"
  shows "(ledger_step (fits ext))\<^sup>*\<^sup>* L (transfer In_work q {#d#} L) \<and>
    ledger_match (move i Waiting (bump c (pl_proc s)) s) (transfer In_work q {#d#} L)"
proof
  note h = held_leave [OF a(1,2), of Waiting]
  have "ledger_step (fits ext) L (transfer In_work q {#d#} L)"
    using c h(2) m fit by (intro lg_transfer) (auto simp: ledger_match_def)
  then show "(ledger_step (fits ext))\<^sup>*\<^sup>* L (transfer In_work q {#d#} L)" by blast
  show "ledger_match (move i Waiting (bump c (pl_proc s)) s) (transfer In_work q {#d#} L)"
    using m c h(1) flushed_move [OF a(1), of Waiting] a(3)
    by (auto simp: ledger_match_def transfer_def pl_count_def)
qed

lemma transferI:
  "q \<in> set (next_places p) \<Longrightarrow> X \<subseteq># lg_at L p \<Longrightarrow> \<forall>d\<in>#X. ok q d \<Longrightarrow> (ledger_step ok)\<^sup>*\<^sup>* L (transfer p q X L)"
  by (blast intro: lg_transfer)

lemma match_push:
  assumes "ledger_match s L"
  shows "\<exists>L'. (ledger_step (fits ext))\<^sup>*\<^sup>* L L' \<and> ledger_match (session_push d s) L'"
proof -
  let ?p = "if fst (try_push d (p_queue (pl_proc s))) then Queued else Turned_away"
  have "ledger_step (fits ext) L (arrive ?p d L)" by (rule lg_arrive) simp_all
  moreover have "ledger_match (session_push d s) (arrive ?p d L)"
    using assms by (simp add: ledger_match_def arrive_def pl_count_def try_push_cases)
  ultimately show ?thesis by blast
qed

lemma match_drop:
  assumes "ledger_match s L" and "d \<in># pl_refused s"
  shows "\<exists>L'. (ledger_step (fits ext))\<^sup>*\<^sup>* L L' \<and> ledger_match (session_count d s) L'"
proof -
  have "(ledger_step (fits ext))\<^sup>*\<^sup>* L (transfer Turned_away Dropped {#d#} L)"
    using assms by (intro transferI) (simp_all add: ledger_match_def)
  moreover have "ledger_match (session_count d s) (transfer Turned_away Dropped {#d#} L)"
    using assms by (simp add: ledger_match_def transfer_def pl_count_def)
  ultimately show ?thesis by blast
qed

lemma match_pop:
  assumes m: "ledger_match s L" and a: "at_stage i Waiting s" and q: "try_pop [] (p_queue (pl_proc s)) = (True, d, q)"
  shows "\<exists>L'. (ledger_step (fits ext))\<^sup>*\<^sup>* L L' \<and>
    ledger_match (move i (Popped d) ((pl_proc s)\<lparr>p_queue := q\<rparr>) (s\<lparr>pl_popped := n\<rparr>)) L'"
proof -
  have q': "tsq_queue (p_queue (pl_proc s)) = d # tsq_queue q"
    using q by (auto simp: try_pop_def split: list.splits)
  have a': "at_stage i Waiting (s\<lparr>pl_popped := n\<rparr>)" using a by simp
  have "(ledger_step (fits ext))\<^sup>*\<^sup>* L (transfer Queued In_work {#d#} L)"
    using m q' by (intro transferI) (simp_all add: ledger_match_def)
  moreover have "ledger_match (move i (Popped d) ((pl_proc s)\<lparr>p_queue := q\<rparr>) (s\<lparr>pl_popped := n\<rparr>))
      (transfer Queued In_work {#d#} L)"
    using m q' held_move [OF a', of "Popped d"] flushed_move [OF a', of "Popped d"]
    by (simp add: ledger_match_def transfer_def pl_count_def)
  ultimately show ?thesis by blast
qed

lemma match_no_store:
  assumes m: "ledger_match s L" and a: "at_stage i (Produced d) s" and n: "p_storage (pl_proc s) = None"
    and v: "vetted ext d"
  shows "\<exists>L'. (ledger_step (fits ext))\<^sup>*\<^sup>* L L' \<and> ledger_match (move i Waiting (pl_proc s) (note_unstored d s)) L'"
proof -
  have a': "at_stage i (Produced d) (note_unstored d s)" using a by simp
  note h = held_leave [OF a', of d Waiting, simplified]
  have "(ledger_step (fits ext))\<^sup>*\<^sup>* L (transfer In_work Unstored {#d#} L)"
    using m h(2) v by (intro transferI) (simp_all add: ledger_match_def)
  moreover have "ledger_match (move i Waiting (pl_proc s) (note_unstored d s)) (transfer In_work Unstored {#d#} L)"
    using m h(1) flushed_move [OF a', of Waiting] n by (simp add: ledger_match_def transfer_def pl_count_def)
  ultimately show ?thesis by blast
qed

lemma match_save:
  assumes m: "ledger_match s L" and a: "at_stage i (Produced d) s" and st: "p_storage (pl_proc s) = Some st"
    and l: "save_locked d st = (b, st')" and v: "vetted ext d" "buffer_vetted ext (Some st)"
  shows "\<exists>L'. (ledger_step (fits ext))\<^sup>*\<^sup>* L L' \<and>
    ledger_match (move i (after_flush (map_option start_flush b)) ((pl_proc s)\<lparr>p_storage := Some st'\<rparr>) s) L'"
proof -
  let ?new = "after_flush (map_option start_flush b)"
  let ?t = "move i ?new ((pl_proc s)\<lparr>p_storage := Some st'\<rparr>) s"
  let ?L = "transfer In_work Buffered {#d#} L"
  note h = held_leave [OF a, of d ?new, simplified]
  have f: "flushed ?t = flushed s + thread_batch (map_option start_flush b)"
    using flushed_move [OF a, of ?new "(pl_proc s)\<lparr>p_storage := Some st'\<rparr>"] by simp
  have 1: "(ledger_step (fits ext))\<^sup>*\<^sup>* L ?L" using m h(2) v(1) by (intro transferI) (simp_all add: ledger_match_def)
  show ?thesis
  proof (cases b)
    case None
    then have "st_buffer st' = st_buffer st @ [d]"
      using l by (auto simp: save_locked_def Let_def split: if_splits)
    with None m f h(1) st have "ledger_match ?t ?L"
      by (simp add: ledger_match_def transfer_def pl_count_def buffered_def thread_batch_def)
    with 1 show ?thesis by blast
  next
    case (Some batch)
    then have b: "batch = st_buffer st @ [d]" "st_buffer st' = []"
      using l by (auto simp: save_locked_def Let_def split: if_splits)
    have "(ledger_step (fits ext))\<^sup>*\<^sup>* ?L (transfer Buffered In_flush (mset batch) ?L)"
      using m st b v
      by (intro transferI) (auto simp: ledger_match_def transfer_def buffered_def buffer_vetted_def list_all_iff)
    moreover have "ledger_match ?t (transfer Buffered In_flush (mset batch) ?L)"
      using Some m f h(1) st b
      by (simp add: ledger_match_def transfer_def pl_count_def buffered_def thread_batch_def start_flush_def)
    ultimately show ?thesis using 1 by (meson rtranclp_trans)
  qed
qed

lemma match_swap:
  assumes m: "ledger_match s L" and "pl_flusher s = None" and st: "p_storage (pl_proc s) = Some st"
    and l: "swap_locked st = (Some b, st')" and v: "buffer_vetted ext (Some st)"
  shows "\<exists>L'. (ledger_step (fits ext))\<^sup>*\<^sup>* L L' \<and>
    ledger_match (s\<lparr>pl_flusher := Some (start_flush b), pl_proc := (pl_proc s)\<lparr>p_storage := Some st'\<rparr>\<rparr>) L'"
proof -
  have b: "b = st_buffer st" "st_buffer st' = []"
    using l by (auto simp: swap_locked_def split: if_splits)
  have "(ledger_step (fits ext))\<^sup>*\<^sup>* L (transfer Buffered In_flush (mset b) L)"
    using m st b v by (intro transferI) (auto simp: ledger_match_def buffered_def buffer_vetted_def list_all_iff)
  moreover have "ledger_match (s\<lparr>pl_flusher := Some (start_flush b), pl_proc := (pl_proc s)\<lparr>p_storage := Some st'\<rparr>\<rparr>)
      (transfer Buffered In_flush (mset b) L)"
    using m st b assms(2)
    by (simp add: ledger_match_def transfer_def pl_count_def buffered_def thread_batch_def start_flush_def
        flushed_def)
  ultimately show ?thesis by blast
qed

text \<open>An action of a flush, by a worker or by the flush thread.\<close>

definition flush_fate :: "dl_env \<Rightarrow> flush \<Rightarrow> place" where
  "flush_fate env f = (case f of Uncounted _ \<Rightarrow> Stored | Trying _ _ \<Rightarrow> if dl_open env then Dead_lettered else Lost)"

lemma match_flush_act:
  assumes m: "ledger_match s L"
    and act: "flush_act (px_store ext) env f (store_world_of (pl_proc s)) = (r, w)"
    and t: "held t = held s" "flushed t + mset (flush_batch f) = flushed s + thread_batch r"
      "pl_proc t = put_world w (pl_proc s)" "pl_pushed t = pl_pushed s" "pl_refused t = pl_refused s"
      "pl_unstored t = pl_unstored s" "pl_lost t = pl_lost s + mset (flush_lost env f)"
    and v: "list_all (vetted ext) (flush_batch f)"
  shows "\<exists>L'. (ledger_step (fits ext))\<^sup>*\<^sup>* L L' \<and> ledger_match t L'"
proof -
  have p: "p_queue (pl_proc t) = p_queue (pl_proc s)" "p_storage (pl_proc t) = p_storage (pl_proc s)"
    by (simp_all add: t(3) put_world_def)
  have c: "pl_count c t = pl_count c s +
      (case f of
         Uncounted b \<Rightarrow> if c = Total_stored then of_nat (length b) else 0
       | Trying b n \<Rightarrow> if n = 0 \<and> dl_open env \<and> c = Total_store_dead then of_nat (length b) else 0)" for c
    using flush_act_load [OF act, of c] by (simp add: pl_count_def t(3) put_world_def store_world_of_def)
  show ?thesis
  proof (cases r)
    case (Some f')
    then have "\<exists>b n. f = Trying b (Suc n)"
      using act by (cases "(px_store ext, env, f, store_world_of (pl_proc s))" rule: flush_act.cases)
        (auto split: prod.splits)
    then have "pl_count c t = pl_count c s" "flush_lost env f = []" for c
      using c [of c] by (auto simp: flush_lost_def)
    moreover have "flushed t = flushed s"
      using t(2) Some flush_act_batch [of "px_store ext" env f _ f'] act by (simp add: thread_batch_def)
    ultimately have "ledger_match t L" using match_same [OF m t(1) _ t(4,5,6) _ p] t(7) by simp
    then show ?thesis by blast
  next
    case None
    let ?L = "transfer In_flush (flush_fate env f) (mset (flush_batch f)) L"
    have f: "flushed s = flushed t + mset (flush_batch f)" using t(2) None by (simp add: thread_batch_def)
    have "(ledger_step (fits ext))\<^sup>*\<^sup>* L ?L"
      using m f v by (intro transferI) (auto simp: ledger_match_def flush_fate_def list_all_iff split: flush.splits)
    moreover have "ledger_match t ?L"
      using flush_act_done [OF act [unfolded None]] m f t(1,4-) p c
      by (auto simp: ledger_match_def transfer_def flush_fate_def flush_lost_def split: flush.splits)
    ultimately show ?thesis by blast
  qed
qed

subsection \<open>All steps\<close>

lemma match_worker:
  assumes m: "ledger_match s L" and v: "store_vetted ext s" and "worker_step ext i s t"
  shows "\<exists>L'. (ledger_step (fits ext))\<^sup>*\<^sup>* L L' \<and> ledger_match t L'"
  using assms(3)
proof cases
  case (pl_pop d q)
  with match_pop [OF m] show ?thesis by blast
next
  case (pl_receive d)
  with match_on [OF m, of i "Popped d"] show ?thesis by (fastforce simp: fate_counters_def)
next
  case (pl_parse_fail d)
  with match_decide [OF m pl_parse_fail(2), of d Total_parse_fail Unparsable ext] show ?thesis by simp blast
next
  case (pl_parse d evt)
  with match_on [OF m, of i "Received d"] show ?thesis by (fastforce simp: fate_counters_def)
next
  case (pl_invalid d evt env)
  then have "fits ext Rejected d" using stage_vetted_at [OF v pl_invalid(2)] by auto
  with match_decide [OF m pl_invalid(2), of d Total_invalid Rejected ext] pl_invalid(1) show ?thesis by simp blast
next
  case (pl_valid d evt env)
  with match_on [OF m, of i "Parsed d evt"] show ?thesis by (fastforce simp: fate_counters_def)
next
  case (pl_deny d evt env p)
  with match_on [OF m, of i "Checked d evt" "Denied d" p] check_limit_keeps [OF pl_deny(3)] show ?thesis by fastforce
next
  case (pl_limited d)
  with match_decide [OF m pl_limited(2), of d Total_rate_limited Limited ext] stage_vetted_at [OF v pl_limited(2)]
  show ?thesis by simp blast
next
  case (pl_admit d evt env p)
  let ?s = "s\<lparr>pl_admitted := Suc (pl_admitted s)\<rparr>"
  have "ledger_match ?s L" "at_stage i (Checked d evt) ?s" using m pl_admit by simp_all
  from match_on [OF this, of "Producing d evt Attempt" p] check_limit_keeps [OF pl_admit(3)] pl_admit(1) show ?thesis by fastforce
next
  case (pl_produce d evt a r p)
  with match_on [OF m, of i "Producing d evt a" "after_produce d evt r" p] kafka_act_keeps [OF pl_produce(3)]
    kafka_act_fates [OF pl_produce(3)]
  show ?thesis by fastforce
next
  case (pl_no_store d)
  with match_no_store [OF m pl_no_store(2,3), of ext] stage_vetted_at [OF v pl_no_store(2)] show ?thesis by simp
next
  case (pl_buffer d st st')
  with match_save [OF m pl_buffer(2-4), of ext] stage_vetted_at [OF v pl_buffer(2)] v show ?thesis
    by (simp add: after_flush_def store_vetted_def)
next
  case (pl_full d st b st')
  with match_save [OF m pl_full(2-4), of ext] stage_vetted_at [OF v pl_full(2)] v show ?thesis
    by (simp add: after_flush_def store_vetted_def)
next
  case (pl_flush f env r w)
  let ?s = "note_lost (it_dl env) f s"
  have "at_stage i (Flushing f) ?s" using pl_flush(2) by simp
  from held_move [OF this, of "after_flush r"] flushed_move [OF this, of "after_flush r"] pl_flush
    stage_vetted_at [OF v pl_flush(2)] show ?thesis
    by (intro match_flush_act [OF m pl_flush(3)]) simp_all
qed

lemma match_flusher:
  assumes m: "ledger_match s L" and v: "store_vetted ext s" and "flusher_step ext s t"
  shows "\<exists>L'. (ledger_step (fits ext))\<^sup>*\<^sup>* L L' \<and> ledger_match t L'"
  using assms(3)
proof cases
  case (pl_swap st b st')
  with match_swap [OF m pl_swap(2-4), of ext] v show ?thesis by (simp add: store_vetted_def)
next
  case (pl_flush_thread f env r w)
  with v show ?thesis
    by (intro match_flush_act [OF m pl_flush_thread(3)])
      (simp_all add: flushed_def thread_batch_def store_vetted_def flusher_vetted_def)
qed

lemma match_poll:
  assumes m: "ledger_match s L" and "poll_step ext s t"
  shows "\<exists>L'. (ledger_step (fits ext))\<^sup>*\<^sup>* L L' \<and> ledger_match t L'"
  using assms(2)
proof cases
  case (pl_poll k m')
  have "ledger_match t L"
    by (rule match_same [OF m]) (use pl_poll kafka_poll_fates [OF pl_poll(3)] in \<open>simp_all add: pl_count_def\<close>)
  then show ?thesis by blast
qed

lemma match_work:
  "ledger_match s L \<Longrightarrow> store_vetted ext s \<Longrightarrow> work_step ext s t
    \<Longrightarrow> \<exists>L'. (ledger_step (fits ext))\<^sup>*\<^sup>* L L' \<and> ledger_match t L'"
  by (erule work_stepE) (blast intro: match_worker match_flusher match_poll)+

text \<open>The relation of the refinement: the ledger agrees, and what the threads hold is vetted.\<close>

definition tracked :: "('r, 'k, 'c) proc_ext \<Rightarrow> ('r, 'k, 'c) pipeline \<Rightarrow> ledger \<Rightarrow> bool" where
  "tracked ext s L \<longleftrightarrow> ledger_match s L \<and> store_vetted ext s"

lemma match_start:
  assumes "pl_init s"
  shows "ledger_match s \<lparr>lg_arrived = {#}, lg_at = (\<lambda>_. {#})\<rparr>"
  using assms waiting_holds [of "pl_workers s"]
  by (auto simp: ledger_match_def pl_init_def held_def flushed_def thread_batch_def buffered_def
      pl_count_def Metrics_init_def load.simps split: option.splits)

interpretation psl: simulation pl_init "pl_step ext" ledger_init "ledger_step (fits ext)" "tracked ext"
  for ext :: "('r, 'k, 'c) proc_ext"
proof
  show "\<exists>L. ledger_init L \<and> tracked ext s L" if "pl_init s" for s :: "('r, 'k, 'c) pipeline"
    using match_start [OF that] svi.inv_init [OF that]
    by (intro exI [of _ "\<lparr>lg_arrived = {#}, lg_at = (\<lambda>_. {#})\<rparr>"]) (simp add: ledger_init_def tracked_def)
  show "\<exists>b. (ledger_step (fits ext))\<^sup>*\<^sup>* a b \<and> tracked ext t b" if "tracked ext s a" "pl_step ext s t" for s a t
  proof -
    have "\<exists>b. (ledger_step (fits ext))\<^sup>*\<^sup>* a b \<and> ledger_match t b"
      using that(2,1) by cases (auto simp: tracked_def intro: match_push match_drop match_work)
    with that svi.inv_step show ?thesis unfolding tracked_def by blast
  qed
qed

section \<open>What the counters say\<close>

text \<open>The fate each of the six counters counts.\<close>

fun fate_of :: "counter \<Rightarrow> place" where
  "fate_of Total_queue_drop = Dropped"
| "fate_of Total_parse_fail = Unparsable"
| "fate_of Total_invalid = Rejected"
| "fate_of Total_rate_limited = Limited"
| "fate_of Total_stored = Stored"
| "fate_of Total_store_dead = Dead_lettered"
| "fate_of _ = Lost"

lemma final_fate: "c \<in> fate_counters \<Longrightarrow> final (fate_of c)"
  by (auto simp: fate_counters_def final_def)

lemma place_size: "ledger_inv L \<Longrightarrow> size (lg_at L p) \<le> size (lg_arrived L)"
  unfolding ledger_inv_def sum_at(1) [of "lg_at L" p] by simp

text \<open>Below \<open>2^64\<close> messages the counters are exact.\<close>

lemma fate_exact:
  assumes "ledger_match s L" and "ledger_inv L" and "size (pl_pushed s) < 2 ^ 64" and "c \<in> fate_counters"
  shows "unat (pl_count c s) = size (lg_at L (fate_of c))"
proof -
  have "size (lg_at L (fate_of c)) < 2 ^ 64"
    using place_size [OF assms(2), of "fate_of c"] assms(1,3) by (simp add: ledger_match_def)
  moreover have "pl_count c s = of_nat (size (lg_at L (fate_of c)))"
    using assms(1,4) by (auto simp: ledger_match_def fate_counters_def)
  ultimately show ?thesis by (simp add: unsigned_of_nat take_bit_nat_eq_self)
qed

lemma pl_pushed_mono: "pl_step ext s t \<Longrightarrow> pl_pushed s \<subseteq># pl_pushed t"
  by (erule pl_stepE) (auto elim!: work_stepE worker_stepE flusher_stepE poll_stepE)

lemma pl_pushed_steps: "(pl_step ext)\<^sup>*\<^sup>* s t \<Longrightarrow> pl_pushed s \<subseteq># pl_pushed t"
  by (induction rule: rtranclp_induct) (auto intro: pl_pushed_mono subset_mset.order_trans)

lemma ledger_reach_inv:
  "reachable ledger_init (ledger_step ok) L \<Longrightarrow> ledger_inv L"
  by (rule lgi.reachable_inv)

lemma fate_monotone:
  assumes "reachable pl_init (pl_step ext) s" and "(pl_step ext)\<^sup>*\<^sup>* s t" and "size (pl_pushed t) < 2 ^ 64"
    and "c \<in> fate_counters"
  shows "unat (pl_count c s) \<le> unat (pl_count c t)"
proof -
  obtain L where L: "reachable ledger_init (ledger_step (fits ext)) L" "tracked ext s L"
    using psl.reachable_match [OF assms(1)] by blast
  obtain L' where L': "(ledger_step (fits ext))\<^sup>*\<^sup>* L L'" "tracked ext t L'" using psl.steps_match [OF assms(2) L(2)] by blast
  have m: "ledger_match s L" "ledger_match t L'" using L(2) L'(2) by (simp_all add: tracked_def)
  have inv: "ledger_inv L" "ledger_inv L'"
    using ledger_reach_inv [OF L(1)] lgi.steps_inv [OF L'(1)] by simp_all
  have "size (pl_pushed s) < 2 ^ 64"
    using size_mset_mono [OF pl_pushed_steps [OF assms(2)]] assms(3) by simp
  from fate_exact [OF m(1) inv(1) this assms(4)] fate_exact [OF m(2) inv(2) assms(3,4)]
    size_mset_mono [OF fate_grows [OF L'(1) final_fate [OF assms(4)]]]
  show ?thesis by simp
qed

text \<open>When nothing is under way every message has met its fate.\<close>

definition at_rest :: "('r, 'k, 'c) pipeline \<Rightarrow> bool" where
  "at_rest s \<longleftrightarrow> tsq_queue (p_queue (pl_proc s)) = [] \<and> list_all (\<lambda>st. st = Waiting) (pl_workers s) \<and>
     pl_flusher s = None \<and> pl_refused s = {#} \<and> (case p_storage (pl_proc s) of None \<Rightarrow> True | Some st \<Rightarrow> st_buffer st = [])"

lemma sum_places:
  fixes g :: "place \<Rightarrow> 'a::comm_monoid_add"
  shows "(\<Sum>p\<in>UNIV. g p) = g Turned_away + g Dropped + g Queued + g In_work + g Unparsable + g Rejected + g Limited + g Unstored
    + g Buffered + g In_flush + g Stored + g Dead_lettered + g Lost"
  by (simp add: UNIV_enum enum_place_def ac_simps)

lemma rest_counts:
  assumes m: "ledger_match s L" and i: "ledger_inv L" and r: "at_rest s" and b: "size (pl_pushed s) < 2 ^ 64"
  shows "size (pl_pushed s) = unat (pl_count Total_queue_drop s) + unat (pl_count Total_parse_fail s)
    + unat (pl_count Total_invalid s) + unat (pl_count Total_rate_limited s) + unat (pl_count Total_stored s)
    + unat (pl_count Total_store_dead s) + size (pl_unstored s) + size (pl_lost s)"
proof -
  have empty: "lg_at L Turned_away = {#}" "lg_at L Queued = {#}" "lg_at L In_work = {#}" "lg_at L Buffered = {#}" "lg_at L In_flush = {#}"
    using m r waiting_holds [of "pl_workers s"]
    by (auto simp: ledger_match_def at_rest_def held_def flushed_def thread_batch_def buffered_def split: option.splits)
  have given_up: "lg_at L Unstored = pl_unstored s" "lg_at L Lost = pl_lost s" using m by (simp_all add: ledger_match_def)
  have "size (pl_pushed s) = size (\<Sum>p\<in>UNIV. lg_at L p)" using m i by (simp add: ledger_match_def ledger_inv_def)
  also have "\<dots> = size (lg_at L Dropped) + size (lg_at L Unparsable) + size (lg_at L Rejected) + size (lg_at L Limited)
      + size (lg_at L Unstored) + size (lg_at L Stored) + size (lg_at L Dead_lettered) + size (lg_at L Lost)"
    by (simp add: sum_places empty)
  finally show ?thesis using fate_exact [OF m i b] given_up by (simp add: fate_counters_def)
qed

end
