(* ===== verification/Exact_Counts.thy ===== *)
theory Exact_Counts
  imports Ledger
begin

text \<open>
  The counters are words of 64 bits and their equations hold modulo \<open>2^64\<close>.  As long as fewer
  than \<open>2^64\<close> messages have arrived no counter of the pipeline wraps, so the equations hold for the
  numbers themselves and no such counter ever decreases.
\<close>

section \<open>The equations as numbers\<close>

definition nstaged :: "(stage \<Rightarrow> bool) \<Rightarrow> ('r, 'k, 'c) pipeline \<Rightarrow> nat" where
  "nstaged P s = length (filter P (pl_workers s))"

definition ncount :: "counter \<Rightarrow> ('r, 'k, 'c) pipeline \<Rightarrow> nat" where
  "ncount c s = unat (pl_count c s)"

definition pl_exact :: "('r, 'k, 'c) pipeline \<Rightarrow> bool" where
  "pl_exact s \<longleftrightarrow>
     ncount Total_queue_drop s + size (pl_refused s) + length (tsq_queue (p_queue (pl_proc s))) + pl_popped s = size (pl_pushed s) \<and>
     ncount Total_received s + nstaged is_popped s = pl_popped s \<and>
     ncount Total_parsed s + ncount Total_parse_fail s + nstaged is_received s = ncount Total_received s \<and>
     ncount Total_valid s + ncount Total_invalid s + nstaged is_parsed s = ncount Total_parsed s \<and>
     ncount Total_rate_limited s + pl_admitted s + nstaged is_checked s + nstaged is_denied s = ncount Total_valid s"

definition small :: "('r, 'k, 'c) pipeline \<Rightarrow> bool" where
  "small s \<longleftrightarrow> size (pl_pushed s) < 2 ^ 64"

lemma nstaged_move:
  assumes "at_stage i old s"
  shows "nstaged P (move i new p s) = nstaged P s + (if P new then 1 else 0) - (if P old then 1 else 0)"
    and "P old \<Longrightarrow> 0 < nstaged P s"
proof -
  show "nstaged P (move i new p s) = nstaged P s + (if P new then 1 else 0) - (if P old then 1 else 0)"
    using assms length_filter_update [of i "pl_workers s" P new] by (auto simp: nstaged_def move_def at_stage_def)
  have "old \<in> set (pl_workers s)" using assms by (auto simp: at_stage_def)
  then show "0 < nstaged P s" if "P old" using that by (auto simp: nstaged_def filter_empty_conv)
qed

lemma nstaged_fields [simp]:
  "nstaged P (s\<lparr>pl_proc := p\<rparr>) = nstaged P s" "nstaged P (s\<lparr>pl_popped := n\<rparr>) = nstaged P s"
  "nstaged P (s\<lparr>pl_admitted := n\<rparr>) = nstaged P s" "nstaged P (s\<lparr>pl_flusher := f\<rparr>) = nstaged P s"
  "nstaged P (s\<lparr>pl_pushed := x\<rparr>) = nstaged P s" "nstaged P (session_push d s) = nstaged P s"
  "nstaged P (session_count d s) = nstaged P s"
  "nstaged P (note_unstored d s) = nstaged P s" "nstaged P (note_lost env fl s) = nstaged P s"
  by (simp_all add: nstaged_def)

lemma unat_inc:
  assumes "unat (x :: u64) + 1 < 2 ^ 64"
  shows "unat (x + 1) = unat x + 1"
  using assms by (subst unat_add_lem [THEN iffD1]) simp_all

text \<open>
  What each kind of step adds to the counters of the pipeline: a worker adds at most one to the
  counter of its stage, a session one drop.
\<close>

definition exact_counters :: "counter set" where
  "exact_counters = {Total_queue_drop, Total_received, Total_parsed, Total_parse_fail, Total_valid, Total_invalid,
     Total_rate_limited}"

lemma exact_counters_cases:
  "c \<in> exact_counters \<longleftrightarrow> c = Total_queue_drop \<or> c = Total_received \<or> c = Total_parsed \<or> c = Total_parse_fail
     \<or> c = Total_valid \<or> c = Total_invalid \<or> c = Total_rate_limited"
  by (auto simp: exact_counters_def)

lemma exact_sink [simp]: "c \<in> exact_counters \<Longrightarrow> c \<notin> sink_counters"
  by (auto simp: exact_counters_def sink_counters_def)

lemma exact_bound:
  assumes "pl_exact s" and "small s" and "at_stage i st s"
  shows "is_popped st \<Longrightarrow> ncount Total_received s + 1 < 2 ^ 64"
    and "is_received st \<Longrightarrow> ncount Total_parsed s + ncount Total_parse_fail s + 1 < 2 ^ 64"
    and "is_parsed st \<Longrightarrow> ncount Total_valid s + ncount Total_invalid s + 1 < 2 ^ 64"
    and "is_denied st \<Longrightarrow> ncount Total_rate_limited s + 1 < 2 ^ 64"
  using assms(1,2) nstaged_move(2) [OF assms(3), of is_popped] nstaged_move(2) [OF assms(3), of is_received]
    nstaged_move(2) [OF assms(3), of is_parsed] nstaged_move(2) [OF assms(3), of is_denied]
  by (auto simp: pl_exact_def small_def)

lemma ncount_load: "ncount c s = unat (load c (p_metrics (pl_proc s)))"
  by (simp add: ncount_def pl_count_def)

text \<open>A step that counts nothing but moves a worker between stages of one kind.\<close>

lemma exact_quiet:
  assumes "pl_exact s" and "at_stage i old s" and "pl_workers s' = pl_workers s" and "pl_pushed s' = pl_pushed s" and "pl_refused s' = pl_refused s"
    and "p_queue p = p_queue (pl_proc s)" and "pl_popped s' = pl_popped s"
    and "\<And>c. c \<in> exact_counters \<Longrightarrow> load c (p_metrics p) = load c (p_metrics (pl_proc s))"
    and "is_popped new = is_popped old" "is_received new = is_received old" "is_parsed new = is_parsed old"
    and "pl_admitted s' + nstaged is_checked (move i new p s') + nstaged is_denied (move i new p s') =
      pl_admitted s + nstaged is_checked s + nstaged is_denied s"
  shows "pl_exact (move i new p s')" and "c \<in> exact_counters \<Longrightarrow> ncount c s \<le> ncount c (move i new p s')"
proof -
  have at: "at_stage i old s'" using assms(2,3) by (simp add: at_stage_def)
  have same: "nstaged P s' = nstaged P s" for P using assms(3) by (simp add: nstaged_def)
  have n: "nstaged P (move i new p s') = nstaged P s" if "P new = P old" for P
    using nstaged_move [OF at, of P] that same by auto
  show "pl_exact (move i new p s')"
    using assms n [of is_popped] n [of is_received] n [of is_parsed] by (simp add: pl_exact_def ncount_load exact_counters_def)
  show "c \<in> exact_counters \<Longrightarrow> ncount c s \<le> ncount c (move i new p s')" using assms(8) by (simp add: ncount_load)
qed

text \<open>A step that adds one to a counter.\<close>

lemma ncount_bump:
  assumes "ncount d s + 1 < 2 ^ 64" and "c \<in> exact_counters"
  shows "ncount c (move i new (bump d (pl_proc s)) s) = ncount c s + (if c = d then 1 else 0)"
  using assms unat_inc [of "load d (p_metrics (pl_proc s))"] by (simp add: ncount_load)

lemmas exact_bump_simps = pl_exact_def nstaged_move(1) ncount_bump exact_counters_def

lemma exact_worker:
  assumes e: "pl_exact s" "small s" and w: "worker_step ext i s t"
  shows "pl_exact t" and "c \<in> exact_counters \<Longrightarrow> ncount c s \<le> ncount c t"
proof -
  note b = exact_bound [OF e]
  have "pl_exact t \<and> (c \<in> exact_counters \<longrightarrow> ncount c s \<le> ncount c t)"
    using w
  proof cases
    case (pl_pop d q)
    with e nstaged_move [OF pl_pop(2)] try_pop_length [OF pl_pop(3)] show ?thesis
      by (simp add: pl_exact_def ncount_load nstaged_move)
  next
    case (pl_receive d)
    with e(1) b(1) [OF pl_receive(2)] nstaged_move(2) [OF pl_receive(2), of is_popped] show ?thesis
      by (simp add: exact_bump_simps)
  next
    case (pl_parse_fail d)
    with e(1) b(2) [OF pl_parse_fail(2)] nstaged_move(2) [OF pl_parse_fail(2), of is_received] show ?thesis
      by (simp add: exact_bump_simps)
  next
    case (pl_parse d evt)
    with e(1) b(2) [OF pl_parse(2)] nstaged_move(2) [OF pl_parse(2), of is_received] show ?thesis
      by (simp add: exact_bump_simps)
  next
    case (pl_invalid d evt env)
    with e(1) b(3) [OF pl_invalid(2)] nstaged_move(2) [OF pl_invalid(2), of is_parsed] show ?thesis
      by (simp add: exact_bump_simps)
  next
    case (pl_valid d evt env)
    with e(1) b(3) [OF pl_valid(2)] nstaged_move(2) [OF pl_valid(2), of is_parsed] show ?thesis
      by (simp add: exact_bump_simps)
  next
    case (pl_limited d)
    with e(1) b(4) [OF pl_limited(2)] nstaged_move(2) [OF pl_limited(2), of is_denied] show ?thesis
      by (simp add: exact_bump_simps)
  next
    case (pl_deny d evt env p)
    show ?thesis unfolding pl_deny(1)
      by (intro conjI impI exact_quiet [OF e(1) pl_deny(2)])
        (use check_limit_keeps [OF pl_deny(3)] nstaged_move [OF pl_deny(2), of is_checked] nstaged_move [OF pl_deny(2), of is_denied] in simp_all)
  next
    case (pl_admit d evt env p)
    have at: "at_stage i (Checked d evt) (s\<lparr>pl_admitted := Suc (pl_admitted s)\<rparr>)" using pl_admit(2) by simp
    show ?thesis unfolding pl_admit(1)
      by (intro conjI impI exact_quiet [OF e(1) pl_admit(2)])
        (use check_limit_keeps [OF pl_admit(3)] nstaged_move [OF at, of is_checked] nstaged_move [OF at, of is_denied] in simp_all)
  next
    case (pl_produce d evt a r p)
    show ?thesis unfolding pl_produce(1)
      by (intro conjI impI exact_quiet [OF e(1) pl_produce(2)])
        (use kafka_act_keeps [OF pl_produce(3)] in \<open>auto simp: nstaged_move [OF pl_produce(2)] exact_counters_def\<close>)
  next
    case (pl_no_store d)
    have at: "at_stage i (Produced d) (note_unstored d s)" using pl_no_store(2) by simp
    show ?thesis unfolding pl_no_store(1)
      by (intro conjI impI exact_quiet [OF e(1) pl_no_store(2)]) (simp_all add: nstaged_move [OF at])
  next
    case (pl_buffer d st st')
    show ?thesis unfolding pl_buffer(1)
      by (intro conjI impI exact_quiet [OF e(1) pl_buffer(2)]) (simp_all add: nstaged_move [OF pl_buffer(2)])
  next
    case (pl_full d st b st')
    show ?thesis unfolding pl_full(1)
      by (intro conjI impI exact_quiet [OF e(1) pl_full(2)]) (simp_all add: nstaged_move [OF pl_full(2)])
  next
    case (pl_flush f env r w)
    have at: "at_stage i (Flushing f) (note_lost (it_dl env) f s)" using pl_flush(2) by simp
    show ?thesis unfolding pl_flush(1)
      by (intro conjI impI exact_quiet [OF e(1) pl_flush(2)])
        (use flush_act_frame [OF pl_flush(3)] in \<open>simp_all add: nstaged_move [OF at]\<close>)
  qed
  then show "pl_exact t" "c \<in> exact_counters \<Longrightarrow> ncount c s \<le> ncount c t" by simp_all
qed

section \<open>The other threads\<close>

lemma exact_same:
  assumes "pl_exact s" and "pl_workers t = pl_workers s" and "pl_pushed t = pl_pushed s" and "pl_refused t = pl_refused s"
    and "pl_popped t = pl_popped s" and "pl_admitted t = pl_admitted s" and "p_queue (pl_proc t) = p_queue (pl_proc s)"
    and "\<And>c. c \<in> exact_counters \<Longrightarrow> load c (p_metrics (pl_proc t)) = load c (p_metrics (pl_proc s))"
  shows "pl_exact t" and "c \<in> exact_counters \<Longrightarrow> ncount c s \<le> ncount c t"
proof -
  have "nstaged P t = nstaged P s" for P using assms(2) by (simp add: nstaged_def)
  with assms show "pl_exact t" by (simp add: pl_exact_def ncount_load exact_counters_def)
  show "c \<in> exact_counters \<Longrightarrow> ncount c s \<le> ncount c t" using assms(8) by (simp add: ncount_load)
qed

lemma exact_flusher:
  assumes "pl_exact s" and "flusher_step ext s t"
  shows "pl_exact t" and "c \<in> exact_counters \<Longrightarrow> ncount c s \<le> ncount c t"
  using assms(2) by (cases; intro exact_same [OF assms(1)]; simp add: flush_act_frame)+

lemma exact_poll:
  assumes "pl_exact s" and "poll_step ext s t"
  shows "pl_exact t" and "c \<in> exact_counters \<Longrightarrow> ncount c s \<le> ncount c t"
  using assms(2) by (cases; intro exact_same [OF assms(1)]; auto simp: kafka_poll_counters exact_counters_def)+

lemma exact_push:
  assumes "pl_exact s"
  shows "pl_exact (session_push d s)" and "ncount c (session_push d s) = ncount c s"
proof -
  show n: "ncount c (session_push d s) = ncount c s" for c by (simp add: ncount_load)
  show "pl_exact (session_push d s)" using assms by (simp add: pl_exact_def n try_push_cases)
qed

lemma exact_drop:
  assumes e: "pl_exact s" "small s" and d: "d \<in># pl_refused s"
  shows "pl_exact (session_count d s)" and "ncount c s \<le> ncount c (session_count d s)"
proof -
  obtain r where r: "pl_refused s = add_mset d r" using d by (blast dest: multi_member_split)
  with e have "ncount Total_queue_drop s + 1 < 2 ^ 64" by (simp add: pl_exact_def small_def)
  then have n: "ncount c (session_count d s) = ncount c s + (if c = Total_queue_drop then 1 else 0)" for c
    using unat_inc [of "load Total_queue_drop (p_metrics (pl_proc s))"] by (simp add: ncount_load)
  show "pl_exact (session_count d s)" using e(1) by (simp add: pl_exact_def n r)
  show "ncount c s \<le> ncount c (session_count d s)" by (simp add: n)
qed

section \<open>Every run\<close>

lemma small_before: "pl_step ext s t \<Longrightarrow> small t \<Longrightarrow> small s"
  using size_mset_mono [OF pl_pushed_mono] by (fastforce simp: small_def)

lemma exact_step:
  assumes "pl_exact s" and "pl_step ext s t" and "small t"
  shows "pl_exact t" and "c \<in> exact_counters \<Longrightarrow> ncount c s \<le> ncount c t"
proof -
  note small = small_before [OF assms(2,3)]
  have "pl_exact t \<and> (c \<in> exact_counters \<longrightarrow> ncount c s \<le> ncount c t)"
    using assms(2)
  proof cases
    case (pl_push d)
    with exact_push [OF assms(1), where d = d] show ?thesis by simp
  next
    case (pl_drop d)
    with exact_drop [OF assms(1) small, where d = d] show ?thesis by simp
  next
    case pl_work
    then show ?thesis
      by cases (use exact_worker [OF assms(1) small] exact_flusher [OF assms(1)] exact_poll [OF assms(1)] in blast)+
  qed
  then show "pl_exact t" "c \<in> exact_counters \<Longrightarrow> ncount c s \<le> ncount c t" by simp_all
qed

lemma exact_init: "pl_init s \<Longrightarrow> pl_exact s"
  by (auto simp: pl_exact_def pl_init_def ncount_load nstaged_def Metrics_init_def load.simps list_all_iff filter_empty_conv)

lemma exact_reachable: "reachable pl_init (pl_step ext) s \<Longrightarrow> small s \<Longrightarrow> pl_exact s"
proof (induction rule: reachable.induct)
  case (reach_step s t)
  then show ?case using small_before exact_step(1) by blast
qed (rule exact_init)

lemma exact_monotone:
  assumes "(pl_step ext)\<^sup>*\<^sup>* s t" and "reachable pl_init (pl_step ext) s" and "small t" and "c \<in> exact_counters"
  shows "ncount c s \<le> ncount c t"
  using assms(1,3)
proof (induction rule: rtranclp_induct)
  case (step u v)
  have "small u" using small_before [OF step.hyps(2) step.prems] .
  moreover have "reachable pl_init (pl_step ext) u" using step.hyps(1) assms(2) by (rule reachable_steps)
  ultimately have "pl_exact u" by (rule exact_reachable [rotated])
  from step.IH [OF \<open>small u\<close>] exact_step(2) [OF this step.hyps(2) step.prems assms(4)] show ?case by simp
qed simp

text \<open>All counters of messages: those of the stages and those of the fates.\<close>

definition message_counters :: "counter set" where
  "message_counters = exact_counters \<union> fate_counters"

lemma message_monotone:
  assumes "reachable pl_init (pl_step ext) s" and "(pl_step ext)\<^sup>*\<^sup>* s t" and "size (pl_pushed t) < 2 ^ 64"
    and "c \<in> message_counters"
  shows "unat (pl_count c s) \<le> unat (pl_count c t)"
  using assms(4) exact_monotone [OF assms(2,1), of c] fate_monotone [OF assms(1-3), of c] assms(3)
  by (auto simp: message_counters_def small_def ncount_def)

section \<open>Properties\<close>

text \<open>
  C6: the counters account for every event at every moment.  With any number of workers and
  sessions interleaved action by action, the messages that arrived are those counted as drops or about to be,
  those in the queue and those taken from it; the events taken from the queue are those counted as
  received plus those about to be; the received are the parsed, the unparsable and those
  being parsed; the parsed are the valid, the invalid and those being checked; the valid are
  the rate limited, those admitted to Kafka and ClickHouse, and those before the limiter's
  verdict is counted (all modulo \<open>2^64\<close>, as the counters are).  The counter of store failures
  stays zero: no code adds to it.  Before \<open>2^64\<close> messages have arrived no counter has wrapped
  around: the equations hold for the numbers.
\<close>

theorem concurrent_accounting:
  assumes "reachable pl_init (pl_step ext) s"
  shows "of_nat (size (pl_pushed s)) = pl_count Total_queue_drop s + of_nat (size (pl_refused s))
      + of_nat (length (tsq_queue (p_queue (pl_proc s)))) + of_nat (pl_popped s) \<and>
    of_nat (pl_popped s) = pl_count Total_received s + staged is_popped s \<and>
    pl_count Total_received s = pl_count Total_parsed s + pl_count Total_parse_fail s + staged is_received s \<and>
    pl_count Total_parsed s = pl_count Total_valid s + pl_count Total_invalid s + staged is_parsed s \<and>
    pl_count Total_valid s = pl_count Total_rate_limited s + of_nat (pl_admitted s)
      + staged is_checked s + staged is_denied s \<and>
    pl_count Total_store_fail s = 0 \<and>
    (size (pl_pushed s) < 2 ^ 64 \<longrightarrow>
      size (pl_pushed s) = unat (pl_count Total_queue_drop s) + size (pl_refused s)
        + length (tsq_queue (p_queue (pl_proc s))) + pl_popped s \<and>
      pl_popped s = unat (pl_count Total_received s) + nstaged is_popped s \<and>
      unat (pl_count Total_received s) =
        unat (pl_count Total_parsed s) + unat (pl_count Total_parse_fail s) + nstaged is_received s \<and>
      unat (pl_count Total_parsed s) =
        unat (pl_count Total_valid s) + unat (pl_count Total_invalid s) + nstaged is_parsed s \<and>
      unat (pl_count Total_valid s) =
        unat (pl_count Total_rate_limited s) + pl_admitted s + nstaged is_checked s + nstaged is_denied s)"
proof -
  have "pl_exact s" if "size (pl_pushed s) < 2 ^ 64" using exact_reachable [OF assms] that by (simp add: small_def)
  with pli.reachable_inv [OF assms] show ?thesis by (simp add: pl_inv_def pl_exact_def ncount_def)
qed

theorem concurrent_accounting_witness:
  "\<exists>s. reachable pl_init (pl_step bare_ext) s \<and> pl_popped s = 1 \<and> staged is_popped s = 1 \<and>
     pl_count Total_received s = 0"
proof -
  let ?s = "move 0 (Popped ''ev'') (bare_processor []) ((one_worker Waiting [''ev''])\<lparr>pl_popped := 1\<rparr>)"
  have f: "pl_popped ?s = 1" "staged is_popped ?s = 1" by (simp_all add: one_worker_def staged_def move_def)
  have "of_nat (pl_popped ?s) = pl_count Total_received ?s + staged is_popped ?s"
    by (rule conjunct1 [OF conjunct2 [OF concurrent_accounting [OF one_worker_reachable]]])
  then have "pl_count Total_received ?s = 0" unfolding f by simp
  then show ?thesis by (intro exI [of _ ?s] conjI one_worker_reachable f)
qed

end
