(* ===== verification/Collector.thy ===== *)
theory Collector
  imports Session
begin

text \<open>
  \<open>class Collector\<close> of \<open>include/collector.h\<close> and \<open>src/collector/collector.cpp\<close>: the accept
  loop, with all the sessions it creates.  The collector has one handler of its own, the one
  of \<open>async_accept\<close>; every path through it must register the next accept exactly once.  The
  machine \<open>coll_step\<close> lets the accept handler, the handlers of the sessions, the workers that
  empty the queue and \<open>stop\<close> follow each other in any order.
\<close>

section \<open>The accept handler\<close>

record collector =
  co_shared :: shared
  co_sessions :: "session list"
  co_accepts :: nat  \<comment> \<open>accept handlers registered\<close>
  co_open :: bool
  co_leaked :: nat  \<comment> \<open>sessions counted and destroyed without \<open>cleanup\<close>\<close>

text \<open>Where \<open>Session::start\<close> raises, if it does.\<close>

datatype start_fault = Start_ok | Fault_in_timeout | Fault_in_read

text \<open>
  What happens around one run of the handler: the error code of the accept, whether closing
  the refused socket raises, the error code of \<open>remote_endpoint\<close>, whether anything between it
  and the session's constructor raises, and whether \<open>Session::start\<close> does.
\<close>

record accept_env =
  ac_ec :: bool
  ac_close_throws :: bool
  ac_endpoint_ec :: bool
  ac_new_throws :: bool
  ac_start :: start_fault

definition Collector_init :: "shared \<Rightarrow> collector" where
  "Collector_init sh = \<lparr>co_shared = sh, co_sessions = [], co_accepts = 0, co_open = True, co_leaked = 0\<rparr>"

definition Collector_start :: "collector \<Rightarrow> collector" where
  "Collector_start co = co\<lparr>co_accepts := Suc (co_accepts co)\<rparr>"

definition active_connections :: "shared \<Rightarrow> i32" where
  "active_connections sh = sh_active sh"

text \<open>The signed count is converted to the unsigned type of the limit before it is compared.\<close>

definition over_limit :: "shared \<Rightarrow> bool" where
  "over_limit sh \<longleftrightarrow> (scast (active_connections sh) :: u64) \<ge> MAX_CONNECTIONS"

text \<open>
  \<open>std::make_shared<Session>(...)->start()\<close>.  When \<open>start_timeout\<close> raises, nothing holds the
  session and it is destroyed; when \<open>do_read_header\<close> raises, the timer's handler still does.
\<close>

definition new_session :: "start_fault \<Rightarrow> collector \<Rightarrow> collector" where
  "new_session fault co =
     (case fault of
        Start_ok \<Rightarrow>
          (let s = session_accept (co_shared co)
           in co\<lparr>co_sessions := co_sessions co @ [fst s], co_shared := snd s\<rparr>)
      | Fault_in_timeout \<Rightarrow>
          co\<lparr>co_shared := snd (Session_new (co_shared co)), co_leaked := Suc (co_leaked co)\<rparr>
      | Fault_in_read \<Rightarrow>
          (let s = registered (Session_new (co_shared co), start_timeout)
           in co\<lparr>co_sessions := co_sessions co @ [fst s], co_shared := snd s\<rparr>))"

datatype block_exit = Returned | Fell_through | Caught

text \<open>The \<open>try\<close> block, and the handler: unless the block returned, it registers the next accept.\<close>

definition accept_block :: "accept_env \<Rightarrow> collector \<Rightarrow> block_exit \<times> collector" where
  "accept_block env co =
     (if \<not> ac_ec env
      then if over_limit (co_shared co)
           then if ac_close_throws env then (Caught, co) else (Returned, Collector_start co)
           else if ac_endpoint_ec env then (Returned, Collector_start co)
           else if ac_new_throws env then (Caught, co)
           else (if ac_start env = Start_ok then Fell_through else Caught, new_session (ac_start env) co)
      else (Fell_through, co))"

definition on_accept :: "accept_env \<Rightarrow> collector \<Rightarrow> collector" where
  "on_accept env co =
     (let (exit, co) = accept_block env co
      in if exit = Returned then co else Collector_start co)"

definition Collector_stop :: "bool \<Rightarrow> collector \<Rightarrow> collector" where
  "Collector_stop ec co = (if ec then co else co\<lparr>co_open := False\<rparr>)"

section \<open>All handlers together\<close>

inductive coll_init :: "collector \<Rightarrow> bool" where
  coll_init: "coll_init (Collector_start (Collector_init
      \<lparr>sh_queue = ThreadSafeQueue cap, sh_metrics = Metrics_init, sh_active = 0\<rparr>))"

text \<open>An accept on a closed acceptor completes with an error.\<close>

inductive coll_step :: "collector \<Rightarrow> collector \<Rightarrow> bool" where
  step_accept:
    "0 < co_accepts co \<Longrightarrow> (co_open co \<or> ac_ec env)
      \<Longrightarrow> coll_step co (on_accept env (co\<lparr>co_accepts := co_accepts co - 1\<rparr>))"
| step_session:
    "i < length (co_sessions co) \<Longrightarrow> enabled c (co_sessions co ! i)
      \<Longrightarrow> complete c (co_sessions co ! i, co_shared co) = Inr r
      \<Longrightarrow> coll_step co (co\<lparr>co_sessions := (co_sessions co)[i := fst (registered r)],
            co_shared := snd (registered r)\<rparr>)"
| step_pop:
    "coll_step co (co\<lparr>co_shared := co_shared co\<lparr>sh_queue := snd (snd (try_pop out (sh_queue (co_shared co))))\<rparr>\<rparr>)"
| step_stop: "coll_step co (Collector_stop ec co)"

inductive_cases coll_stepE: "coll_step co co'"

definition counted :: "session list \<Rightarrow> nat" where
  "counted ses = length (filter (\<lambda>se. \<not> se_cleaned_up se) ses)"

definition queue_sized :: "ts_queue \<Rightarrow> bool" where
  "queue_sized q \<longleftrightarrow> wf_queue q \<and> list_all (\<lambda>m. 0 < length m \<and> length m < 102400) (tsq_queue q)"

definition coll_inv :: "collector \<Rightarrow> bool" where
  "coll_inv co \<longleftrightarrow>
     co_accepts co = 1 \<and>
     sint (sh_active (co_shared co)) = int (counted (co_sessions co) + co_leaked co) \<and>
     counted (co_sessions co) + co_leaked co \<le> 20000 \<and>
     queue_sized (sh_queue (co_shared co)) \<and> list_all body_ok (co_sessions co)"

section \<open>The invariant\<close>

subsection \<open>The connection count\<close>

lemma over_limit_iff:
  assumes "sint (sh_active sh) = int n" and "n \<le> 20000"
  shows "over_limit sh \<longleftrightarrow> n = 20000"
proof -
  have "(scast (sh_active sh) :: u64) = word_of_int (int n)" by (simp only: scast_eq assms(1))
  then have "unat (scast (sh_active sh) :: u64) = n"
    using assms(2) by (simp add: unsigned_of_nat take_bit_nat_eq_self)
  with assms(2) show ?thesis
    by (auto simp: over_limit_def active_connections_def MAX_CONNECTIONS_def word_le_nat_alt)
qed

lemma sint_add_one: "0 \<le> sint w \<Longrightarrow> sint w < 20000 \<Longrightarrow> sint (w + 1 :: i32) = sint w + 1"
  using sint_shift [of w 1] by simp

lemma sint_sub_one: "0 < sint w \<Longrightarrow> sint w \<le> 20000 \<Longrightarrow> sint (w - 1 :: i32) = sint w - 1"
  using sint_shift [of w "- 1"] by simp

lemma counted_append [simp]: "counted (xs @ ys) = counted xs + counted ys"
  by (simp add: counted_def)

lemma counted_update:
  "i < length ses \<Longrightarrow>
     counted (ses[i := se]) + (if se_cleaned_up (ses ! i) then 0 else 1) = counted ses + (if se_cleaned_up se then 0 else 1)"
  using length_filter_update [of i ses "\<lambda>se. \<not> se_cleaned_up se" se] by (simp add: counted_def split: if_split_asm)

text \<open>The only way a handler changes the count is the one \<open>cleanup\<close> of its session.\<close>

lemma complete_active:
  assumes "complete c s = Inr r"
  shows "(se_cleaned_up (fst (registered r)) = se_cleaned_up (fst s) \<and>
      sh_active (snd (registered r)) = sh_active (snd s)) \<or>
    (\<not> se_cleaned_up (fst s) \<and> se_cleaned_up (fst (registered r)) \<and>
      sh_active (snd (registered r)) = sh_active (snd s) - 1)"
  using assms
  by (cases c)
    (auto simp: on_header_def on_body_def on_timer_def on_timeout_def registered_def Let_def cleanup_def
      do_read_body_def do_read_header_def split: if_splits)

subsection \<open>Each kind of step\<close>

lemma queue_sized_push:
  assumes "queue_sized q" and "0 < length m" and "length m < 102400"
  shows "queue_sized (snd (try_push m q))"
  using assms by (auto simp: queue_sized_def wf_queue_def try_push_cases)

lemma queue_sized_pop: "queue_sized q \<Longrightarrow> queue_sized (snd (snd (try_pop out q)))"
  by (auto simp: queue_sized_def wf_queue_def try_pop_def split: list.splits)

lemma complete_queue_sized:
  assumes "body_ok (fst s)" and "enabled c (fst s)" and "complete c s = Inr r" and "queue_sized (sh_queue (snd s))"
  shows "queue_sized (sh_queue (snd (registered r)))"
  using assms complete_queue [OF assms(3)] queue_sized_push
  by (cases c) (auto simp: body_ok_def split: reading.splits bool.splits)

lemma coll_inv_accept:
  assumes "coll_inv co"
  shows "coll_inv (on_accept env (co\<lparr>co_accepts := co_accepts co - 1\<rparr>))"
proof -
  have "counted (co_sessions co) + co_leaked co < 20000" if "\<not> over_limit (co_shared co)"
    using that assms over_limit_iff [of "co_shared co" "counted (co_sessions co) + co_leaked co"]
    by (auto simp: coll_inv_def)
  with assms show ?thesis
    by (auto simp: on_accept_def accept_block_def new_session_def Collector_start_def coll_inv_def Let_def
        Session_new_def registered_def start_timeout_def counted_def body_ok_def sint_add_one
        split: start_fault.splits)
qed

lemma coll_inv_session:
  assumes "coll_inv co" and i: "i < length (co_sessions co)" and en: "enabled c (co_sessions co ! i)"
    and r: "complete c (co_sessions co ! i, co_shared co) = Inr r"
  shows "coll_inv (co\<lparr>co_sessions := (co_sessions co)[i := fst (registered r)], co_shared := snd (registered r)\<rparr>)"
proof -
  have b: "body_ok (co_sessions co ! i)" using assms(1) i by (simp add: coll_inv_def list_all_length)
  have q: "queue_sized (sh_queue (snd (registered r)))"
    using complete_queue_sized [OF _ _ r] b en assms(1) by (simp add: coll_inv_def)
  have "list_all body_ok ((co_sessions co)[i := fst (registered r)])"
    using body_ok_complete [OF _ r] b assms(1) i
    by (auto simp: coll_inv_def list_all_length nth_list_update)
  then show ?thesis
    using complete_active [OF r] counted_update [OF i, of "fst (registered r)"] q assms(1)
    by (auto simp: coll_inv_def sint_sub_one)
qed

lemma coll_inv_pop:
  "coll_inv co \<Longrightarrow>
     coll_inv (co\<lparr>co_shared := co_shared co\<lparr>sh_queue := snd (snd (try_pop out (sh_queue (co_shared co))))\<rparr>\<rparr>)"
  by (simp add: coll_inv_def queue_sized_pop)

lemma coll_inv_stop: "coll_inv co \<Longrightarrow> coll_inv (Collector_stop ec co)"
  by (simp add: coll_inv_def Collector_stop_def)

interpretation cli: inductive_invariant coll_init coll_step coll_inv
proof
  show "coll_inv s" if "coll_init s" for s
    using that
    by cases (simp add: coll_inv_def Collector_start_def Collector_init_def counted_def queue_sized_def
        wf_queue_def ThreadSafeQueue_def)
  show "coll_inv t" if "coll_inv s" "coll_step s t" for s t
    using that(2,1)
    by cases (simp_all only: coll_inv_accept coll_inv_session coll_inv_pop coll_inv_stop)
qed

subsection \<open>A run with one connection\<close>

definition plain_accept :: accept_env where
  "plain_accept = \<lparr>ac_ec = False, ac_close_throws = False, ac_endpoint_ec = False, ac_new_throws = False,
     ac_start = Start_ok\<rparr>"

definition one_client :: collector where
  "one_client = on_accept plain_accept (Collector_init fresh_shared)"

lemma one_client_fields:
  "co_sessions one_client = [fst (session_accept fresh_shared)]"
  "co_shared one_client = snd (session_accept fresh_shared)" "co_leaked one_client = 0"
proof -
  have "\<not> over_limit fresh_shared"
    by (simp add: over_limit_def active_connections_def fresh_shared_def MAX_CONNECTIONS_def)
  then show "co_sessions one_client = [fst (session_accept fresh_shared)]"
    "co_shared one_client = snd (session_accept fresh_shared)" "co_leaked one_client = 0"
    by (simp_all add: one_client_def on_accept_def accept_block_def plain_accept_def Collector_init_def
        new_session_def Collector_start_def Let_def)
qed

lemma one_client_reachable: "reachable coll_init coll_step one_client"
proof -
  let ?start = "Collector_start (Collector_init fresh_shared)"
  have "coll_init ?start" unfolding fresh_shared_def by (rule coll_init)
  moreover have "coll_step ?start (on_accept plain_accept (?start\<lparr>co_accepts := co_accepts ?start - 1\<rparr>))"
    by (rule step_accept) (simp_all add: Collector_start_def Collector_init_def)
  ultimately show ?thesis
    unfolding one_client_def
    by (intro reach_step [OF reach_init]) (simp_all add: Collector_start_def Collector_init_def)
qed

text \<open>The runs of a single session are runs of the collector.\<close>

lemma session_run_reachable:
  assumes "session_run cs s reqs = Some (s', reqs')" and "reachable coll_init coll_step co"
    and "co_sessions co = [fst s]" and "co_shared co = snd s"
  shows "\<exists>co'. reachable coll_init coll_step co' \<and> co_sessions co' = [fst s'] \<and> co_shared co' = snd s'"
  using assms
proof (induction cs arbitrary: s reqs co)
  case (Cons c cs)
  from Cons.prems(1) obtain r where r: "complete c s = Inr r" "enabled c (fst s)"
    and run: "session_run cs (registered r) (reqs @ snd r) = Some (s', reqs')"
    by (auto split: if_splits sum.splits)
  from step_session [of 0 co c r] r Cons.prems(3,4)
  have "coll_step co (co\<lparr>co_sessions := [fst (registered r)], co_shared := snd (registered r)\<rparr>)" by simp
  from Cons.IH [OF run reach_step [OF Cons.prems(2) this]] show ?case by simp
qed auto

lemma one_message_reachable:
  "\<exists>co. reachable coll_init coll_step co \<and> tsq_queue (sh_queue (co_shared co)) = [''hi'']"
proof -
  obtain s reqs where "session_run one_message (session_accept fresh_shared) Session_start = Some (s, reqs)"
    and q: "tsq_queue (sh_queue (snd s)) = [''hi'']"
    using one_message_run by blast
  from session_run_reachable [OF this(1) one_client_reachable] q show ?thesis
    by (auto simp: one_client_fields)
qed

section \<open>Properties\<close>

lemma coll_step_leaked:
  assumes "coll_step co co'"
  shows "co_leaked co \<le> co_leaked co'"
  using assms
proof cases
  case (step_accept env)
  then show ?thesis
    by (auto simp: on_accept_def accept_block_def new_session_def Collector_start_def Let_def split: start_fault.splits)
qed (simp_all add: Collector_stop_def)

text \<open>
  C9: the connection limit holds.  However the accept handler, the handlers of all sessions,
  the workers and \<open>stop\<close> interleave, the connection count is exactly the number of sessions
  not yet cleaned up plus the number of slots leaked: sessions the constructor counted and an
  exception in \<open>start\<close> destroyed before any handler held them, so that no \<open>cleanup\<close> ever runs.
  The sum never exceeds 20000.  So the count is the number of open sessions only as long as no
  \<open>start\<close> has raised.
\<close>

theorem connections_bounded:
  assumes "reachable coll_init coll_step co"
  shows "sint (active_connections (co_shared co)) = int (counted (co_sessions co) + co_leaked co) \<and>
    sint (active_connections (co_shared co)) \<le> sint (ucast MAX_CONNECTIONS :: i32)"
  using cli.reachable_inv [OF assms]
  by (simp add: coll_inv_def active_connections_def MAX_CONNECTIONS_def)

theorem connections_bounded_witness:
  "reachable coll_init coll_step one_client \<and> sint (active_connections (co_shared one_client)) = 1"
  using connections_bounded [OF one_client_reachable] one_client_reachable
  by (simp add: one_client_fields counted_def)

text \<open>
  C38: a leaked slot never comes back.  From any state on, whatever the handlers do, at most
  20000 less the slots leaked so far sessions are open at once; and when open sessions and leaked
  slots together are 20000, an accept adds no session whatever happens in it, so with 20000
  leaked slots the collector refuses every connection for good.
\<close>

theorem leaked_slots_stay:
  assumes "reachable coll_init coll_step co" and "coll_step\<^sup>*\<^sup>* co co'"
  shows "counted (co_sessions co') \<le> 20000 - co_leaked co \<and> co_leaked co \<le> co_leaked co' \<and>
    (counted (co_sessions co') + co_leaked co' = 20000 \<longrightarrow> co_sessions (on_accept env co') = co_sessions co')"
proof -
  have inv: "coll_inv co'" using cli.reachable_inv [OF reachable_steps [OF assms(2,1)]] .
  have mono: "co_leaked co \<le> co_leaked co'"
    using assms(2) by (induction rule: rtranclp_induct) (auto dest: coll_step_leaked)
  have "co_sessions (on_accept env co') = co_sessions co'" if "counted (co_sessions co') + co_leaked co' = 20000"
    using that inv over_limit_iff [of "co_shared co'" 20000]
    by (simp add: coll_inv_def on_accept_def accept_block_def Collector_start_def Let_def)
  with inv mono show ?thesis by (auto simp: coll_inv_def)
qed

text \<open>The first connection leaks its slot.\<close>

theorem leaked_slots_stay_witness:
  "\<exists>co. reachable coll_init coll_step co \<and> co_leaked co = 1 \<and> (\<forall>co'. coll_step\<^sup>*\<^sup>* co co' \<longrightarrow> counted (co_sessions co') \<le> 19999)"
proof -
  let ?co = "Collector_start (Collector_init \<lparr>sh_queue = ThreadSafeQueue 10000, sh_metrics = Metrics_init, sh_active = 0\<rparr>)"
  let ?env = "\<lparr>ac_ec = False, ac_close_throws = False, ac_endpoint_ec = False, ac_new_throws = False,
    ac_start = Fault_in_timeout\<rparr>"
  let ?t = "on_accept ?env (?co\<lparr>co_accepts := co_accepts ?co - 1\<rparr>)"
  have "coll_step ?co ?t" by (rule step_accept) (simp_all add: Collector_start_def Collector_init_def)
  with reach_init [of coll_init, OF coll_init] have r: "reachable coll_init coll_step ?t" by (rule reach_step)
  have l: "co_leaked ?t = 1"
    using over_limit_iff [of "\<lparr>sh_queue = ThreadSafeQueue 10000, sh_metrics = Metrics_init, sh_active = 0\<rparr>" 0]
    by (simp add: on_accept_def accept_block_def new_session_def Collector_start_def Collector_init_def Let_def)
  have "counted (co_sessions co') \<le> 19999" if "coll_step\<^sup>*\<^sup>* ?t co'" for co'
    using conjunct1 [OF leaked_slots_stay [OF r that, of ?env]] l by simp
  with r l show ?thesis by blast
qed

text \<open>
  C18: what the workers find in the queue.  In every reachable state each queued message has
  between 1 and 102399 bytes, so the queue never holds more than its capacity times 100 KiB.
\<close>

theorem queued_messages_sized:
  assumes "reachable coll_init coll_step co" and "m \<in> set (tsq_queue (sh_queue (co_shared co)))"
  shows "0 < length m \<and> length m < 102400 \<and>
    length (concat (tsq_queue (sh_queue (co_shared co)))) \<le> unat (tsq_capacity (sh_queue (co_shared co))) * 102399"
proof -
  let ?q = "sh_queue (co_shared co)"
  have s: "queue_sized ?q" using cli.reachable_inv [OF assms(1)] by (simp add: coll_inv_def)
  have "length (concat ms) \<le> length ms * 102399"
    if "list_all (\<lambda>m. 0 < length m \<and> length m < 102400) ms" for ms :: "bytes list"
    using that by (induction ms) auto
  with s have "length (concat (tsq_queue ?q)) \<le> length (tsq_queue ?q) * 102399"
    by (simp add: queue_sized_def)
  also have "\<dots> \<le> unat (tsq_capacity ?q) * 102399"
    using s by (simp add: queue_sized_def wf_queue_def)
  finally show ?thesis using s assms(2) by (auto simp: queue_sized_def list_all_iff)
qed

theorem queued_messages_sized_witness:
  "\<exists>co. reachable coll_init coll_step co \<and> ''hi'' \<in> set (tsq_queue (sh_queue (co_shared co))) \<and>
     length (concat (tsq_queue (sh_queue (co_shared co)))) \<le> unat (tsq_capacity (sh_queue (co_shared co))) * 102399"
proof -
  obtain co where co: "reachable coll_init coll_step co" "tsq_queue (sh_queue (co_shared co)) = [''hi'']"
    using one_message_reachable by blast
  then have m: "''hi'' \<in> set (tsq_queue (sh_queue (co_shared co)))" by simp
  from co(1) m queued_messages_sized [OF co(1) m] show ?thesis by auto
qed

end
