(* ===== verification/Monitor.thy ===== *)
theory Monitor
  imports Metrics
begin

text \<open>
  \<open>src/monitor/monitor.cpp\<close> and \<open>include/monitor.h\<close>: the HTTP endpoint that exports the
  counters to Prometheus.  The operations of the class are followed by the other end of the
  connection, an HTTP client that reads the header lines and \<open>Content-Length\<close> bytes, and a
  reader of the Prometheus text format, so that the round trip can be stated.
\<close>

section \<open>The response\<close>

definition format_metric :: "bytes \<Rightarrow> bytes \<Rightarrow> bytes \<Rightarrow> u64 \<Rightarrow> bytes" where
  "format_metric name help type value =
     ''# HELP '' @ name @ '' '' @ help @ [newline]
     @ ''# TYPE '' @ name @ '' '' @ type @ [newline]
     @ name @ '' '' @ show_nat (unat value) @ [newline]"

text \<open>
  The counters are loaded one after the other while other threads go on adding: \<open>m i\<close> is
  the state of the counters at the i-th load.
\<close>

definition build_prometheus_text :: "(nat \<Rightarrow> metrics) \<Rightarrow> bytes" where
  "build_prometheus_text m =
     format_metric ''event_received_total'' ''Total TCP events received'' ''counter'' (load Total_received (m 0))
     @ format_metric ''event_parsed_total'' ''Total protobuf parsed successfully'' ''counter'' (load Total_parsed (m 1))
     @ format_metric ''event_valid_total'' ''Valid events after field check'' ''counter'' (load Total_valid (m 2))
     @ format_metric ''event_invalid_total'' ''Events failing field validation'' ''counter'' (load Total_invalid (m 3))
     @ format_metric ''event_parse_fail_total'' ''Events failing protobuf parse'' ''counter'' (load Total_parse_fail (m 4))
     @ format_metric ''event_rate_limited_total'' ''Events dropped by rate limiter'' ''counter'' (load Total_rate_limited (m 5))
     @ format_metric ''event_kafka_ok_total'' ''Events successfully sent to Kafka'' ''counter'' (load Total_kafka_ok (m 6))
     @ format_metric ''event_kafka_fail_total'' ''Events failed to send to Kafka'' ''counter'' (load Total_kafka_fail (m 7))
     @ format_metric ''event_stored_total'' ''Events stored to ClickHouse'' ''counter'' (load Total_stored (m 8))
     @ format_metric ''event_store_fail_total'' ''Events failed to store'' ''counter'' (load Total_store_fail (m 9))
     @ format_metric ''event_store_dead_total'' ''Events written to dead_letter'' ''counter'' (load Total_store_dead (m 10))
     @ format_metric ''event_queue_drop_total'' ''Events dropped due to queue full'' ''counter'' (load Total_queue_drop (m 11))"

definition crlf :: bytes where
  "crlf = [CHR 0x0D, newline]"

definition http_response :: "bytes \<Rightarrow> bytes" where
  "http_response resp =
     ''HTTP/1.1 200 OK'' @ crlf
     @ ''Content-Type: text/plain; version=0.0.4'' @ crlf
     @ ''Content-Length: '' @ show_nat (length resp) @ crlf
     @ ''Connection: close'' @ crlf @ crlf @ resp"

section \<open>The handlers\<close>

text \<open>The endpoint: accept handlers registered, connections being read, responses being written.\<close>

record monitor =
  mo_accepts :: nat
  mo_reading :: nat
  mo_writing :: "bytes list"

definition do_accept :: "monitor \<Rightarrow> monitor" where
  "do_accept mo = mo\<lparr>mo_accepts := Suc (mo_accepts mo)\<rparr>"

definition handle_request :: "monitor \<Rightarrow> monitor" where
  "handle_request mo = mo\<lparr>mo_reading := Suc (mo_reading mo)\<rparr>"

definition on_mon_accept :: "bool \<Rightarrow> monitor \<Rightarrow> monitor" where
  "on_mon_accept ec mo = do_accept (if \<not> ec then handle_request mo else mo)"

definition on_request :: "bool \<Rightarrow> (nat \<Rightarrow> metrics) \<Rightarrow> monitor \<Rightarrow> monitor" where
  "on_request ec m mo =
     (if ec then mo
      else mo\<lparr>mo_writing := mo_writing mo @ [http_response (build_prometheus_text m)]\<rparr>)"

text \<open>The constructor, when the port can be bound.\<close>

definition Monitor_init :: monitor where
  "Monitor_init = \<lparr>mo_accepts = 0, mo_reading = 0, mo_writing = []\<rparr>"

definition Monitor_start :: "monitor \<Rightarrow> monitor" where
  "Monitor_start mo = do_accept mo"

inductive mon_init :: "monitor \<Rightarrow> bool" where
  mon_init: "mon_init (Monitor_start Monitor_init)"

inductive mon_step :: "monitor \<Rightarrow> monitor \<Rightarrow> bool" where
  mon_accept: "0 < mo_accepts mo \<Longrightarrow> mon_step mo (on_mon_accept ec (mo\<lparr>mo_accepts := mo_accepts mo - 1\<rparr>))"
| mon_request: "0 < mo_reading mo \<Longrightarrow> mon_step mo (on_request ec m (mo\<lparr>mo_reading := mo_reading mo - 1\<rparr>))"
| mon_written: "mo_writing mo = rs @ r # ss \<Longrightarrow> mon_step mo (mo\<lparr>mo_writing := rs @ ss\<rparr>)"

definition mon_inv :: "monitor \<Rightarrow> bool" where
  "mon_inv mo \<longleftrightarrow> mo_accepts mo = 1"

interpretation moi: inductive_invariant mon_init mon_step mon_inv
proof
  show "mon_inv s" if "mon_init s" for s
    using that by cases (simp add: mon_inv_def Monitor_start_def Monitor_init_def do_accept_def)
  show "mon_inv t" if "mon_inv s" "mon_step s t" for s t
    using that(2,1)
    by cases (simp_all add: mon_inv_def on_mon_accept_def on_request_def do_accept_def handle_request_def)
qed

section \<open>The other end\<close>

text \<open>A header line ends at the first CR LF.\<close>

fun read_line :: "bytes \<Rightarrow> (bytes \<times> bytes) option" where
  "read_line [] = None"
| "read_line (c # cs) =
     (if c = CHR 0x0D
      then (case cs of
              [] \<Rightarrow> None
            | d # ds \<Rightarrow> if d = newline then Some ([], ds) else None)
      else (case read_line cs of None \<Rightarrow> None | Some (l, rest) \<Rightarrow> Some (c # l, rest)))"

lemma read_line_shorter: "read_line r = Some (l, rest) \<Longrightarrow> length rest < length r"
  by (induction r arbitrary: l rest rule: read_line.induct) (auto split: if_splits list.splits option.splits)

function read_head :: "bytes \<Rightarrow> (bytes list \<times> bytes) option" where
  "read_head r =
     (case read_line r of
        None \<Rightarrow> None
      | Some (l, rest) \<Rightarrow>
          if l = [] then Some ([], rest)
          else (case read_head rest of None \<Rightarrow> None | Some (ls, body) \<Rightarrow> Some (l # ls, body)))"
  by pat_completeness auto
termination by (relation "measure length") (auto dest: read_line_shorter)

declare read_head.simps [simp del]

definition content_length :: "bytes list \<Rightarrow> nat option" where
  "content_length hs =
     (case filter (\<lambda>l. take 16 l = ''Content-Length: '') hs of
        [] \<Rightarrow> None
      | l # _ \<Rightarrow> Some (digits_value (drop 16 l)))"

text \<open>The status line, the body, and what follows it on the connection.\<close>

definition http_receive :: "bytes \<Rightarrow> (bytes \<times> bytes \<times> bytes) option" where
  "http_receive r =
     (case read_head r of
        Some (status # hs, body) \<Rightarrow>
          (case content_length hs of
             None \<Rightarrow> None
           | Some n \<Rightarrow> if length body < n then None else Some (status, take n body, drop n body))
      | _ \<Rightarrow> None)"

text \<open>A sample line of the text format: a name, a space and the value; a \<open>#\<close> starts a comment.\<close>

definition sample_of :: "bytes \<Rightarrow> (bytes \<times> nat) option" where
  "sample_of l =
     (case l of
        [] \<Rightarrow> None
      | c # _ \<Rightarrow>
          if c = CHR ''#'' then None
          else Some (takeWhile (\<lambda>x. x \<noteq> CHR '' '') l, digits_value (drop 1 (dropWhile (\<lambda>x. x \<noteq> CHR '' '') l))))"

definition parse_samples :: "bytes \<Rightarrow> (bytes \<times> nat) list" where
  "parse_samples t = List.map_filter sample_of (text_lines t)"

section \<open>Round trip\<close>

lemma read_line_append:
  "CHR 0x0D \<notin> set l \<Longrightarrow> read_line (l @ crlf @ rest) = Some (l, rest)"
  by (induction l) (auto simp: crlf_def)

lemma read_head_line:
  "CHR 0x0D \<notin> set l \<Longrightarrow> l \<noteq> [] \<Longrightarrow>
     read_head (l @ crlf @ rest) = (case read_head rest of None \<Rightarrow> None | Some (ls, body) \<Rightarrow> Some (l # ls, body))"
  by (subst read_head.simps) (simp add: read_line_append)

lemma read_head_end: "read_head (crlf @ rest) = Some ([], rest)"
  by (subst read_head.simps) (simp add: read_line_append [of "[]", simplified])

lemma cr_not_in_show_nat: "CHR 0x0D \<notin> set (show_nat n)"
  by (rule digit_not_in_show_nat) (simp add: is_digit_def)

lemma http_receive_response:
  "http_receive (http_response resp @ rest) = Some (''HTTP/1.1 200 OK'', resp, rest)"
proof -
  have "read_head (http_response resp @ rest) =
      Some ([''HTTP/1.1 200 OK'', ''Content-Type: text/plain; version=0.0.4'',
        ''Content-Length: '' @ show_nat (length resp), ''Connection: close''], resp @ rest)"
    using read_head_line [of "''Content-Length: '' @ show_nat (length resp)" "''Connection: close'' @ crlf @ crlf @ resp @ rest"]
    by (simp add: http_response_def read_head_line read_head_end cr_not_in_show_nat del: append_Cons append.simps)
  then show ?thesis by (simp add: http_receive_def content_length_def)
qed

text \<open>One metric: both comment lines are skipped and the value is read back.\<close>

definition metric_name :: "bytes \<Rightarrow> bool" where
  "metric_name n \<longleftrightarrow> n \<noteq> [] \<and> hd n \<noteq> CHR ''#'' \<and> list_all (\<lambda>c. c \<noteq> CHR '' '' \<and> c \<noteq> newline) n"

lemma sample_of_line:
  assumes "metric_name n"
  shows "sample_of (n @ '' '' @ show_nat v) = Some (n, v)"
proof -
  have all: "x \<in> set n \<Longrightarrow> x \<noteq> CHR '' ''" for x using assms by (auto simp: metric_name_def list_all_iff)
  have n: "n \<noteq> []" "hd n \<noteq> CHR ''#''" using assms by (simp_all add: metric_name_def)
  have "takeWhile (\<lambda>x. x \<noteq> CHR '' '') (n @ '' '' @ show_nat v) = n"
    "dropWhile (\<lambda>x. x \<noteq> CHR '' '') (n @ '' '' @ show_nat v) = '' '' @ show_nat v"
    using all by (simp_all add: takeWhile_append2 dropWhile_append2)
  with n show ?thesis by (auto simp: sample_of_def split: list.splits)
qed

lemma text_lines_line: "newline \<notin> set l \<Longrightarrow> text_lines (l @ [newline] @ rest) = l # text_lines rest"
  by simp

lemma parse_samples_metric:
  assumes "metric_name n" and "newline \<notin> set help" and "newline \<notin> set type"
  shows "parse_samples (format_metric n help type v @ rest) = (n, unat v) # parse_samples rest"
proof -
  have n: "newline \<notin> set n" using assms(1) by (auto simp: metric_name_def list_all_iff)
  have lit: "newline \<notin> set ''# HELP ''" "newline \<notin> set ''# TYPE ''" "newline \<notin> set '' ''"
    by (simp_all add: newline_def)
  have "text_lines (format_metric n help type v @ rest) =
      (''# HELP '' @ n @ '' '' @ help) # (''# TYPE '' @ n @ '' '' @ type) # (n @ '' '' @ show_nat (unat v)) # text_lines rest"
    using text_lines_line [of "''# HELP '' @ n @ '' '' @ help"] text_lines_line [of "''# TYPE '' @ n @ '' '' @ type"]
      text_lines_line [of "n @ '' '' @ show_nat (unat v)"] n assms(2,3) lit
    by (simp add: format_metric_def)
  moreover have "sample_of (''# HELP '' @ n @ '' '' @ help) = None" "sample_of (''# TYPE '' @ n @ '' '' @ type) = None"
    by (simp_all add: sample_of_def)
  ultimately show ?thesis
    using sample_of_line [OF assms(1), of "unat v"] by (simp add: parse_samples_def List.map_filter_simps)
qed

lemma parse_samples_Nil [simp]: "parse_samples [] = []"
  by (simp add: parse_samples_def List.map_filter_simps)

text \<open>The names under which the counters are exported, with their values.\<close>

definition exported_samples :: "(nat \<Rightarrow> metrics) \<Rightarrow> (bytes \<times> nat) list" where
  "exported_samples m =
     [(''event_received_total'', unat (total_received (m 0))),
      (''event_parsed_total'', unat (total_parsed (m 1))),
      (''event_valid_total'', unat (total_valid (m 2))),
      (''event_invalid_total'', unat (total_invalid (m 3))),
      (''event_parse_fail_total'', unat (total_parse_fail (m 4))),
      (''event_rate_limited_total'', unat (total_rate_limited (m 5))),
      (''event_kafka_ok_total'', unat (total_kafka_ok (m 6))),
      (''event_kafka_fail_total'', unat (total_kafka_fail (m 7))),
      (''event_stored_total'', unat (total_stored (m 8))),
      (''event_store_fail_total'', unat (total_store_fail (m 9))),
      (''event_store_dead_total'', unat (total_store_dead (m 10))),
      (''event_queue_drop_total'', unat (total_queue_drop (m 11)))]"

lemma parse_samples_text: "parse_samples (build_prometheus_text m) = exported_samples m"
proof -
  have last: "parse_samples (format_metric n h t v) = [(n, unat v)]"
    if "metric_name n" "newline \<notin> set h" "newline \<notin> set t" for n h t v
    using parse_samples_metric [OF that, of v "[]"] by simp
  show ?thesis
    unfolding build_prometheus_text_def exported_samples_def
    by (simp add: parse_samples_metric last metric_name_def newline_def load.simps)
qed

text \<open>
  C22: a scrape reports the counters exactly.  A client that reads the response by its
  \<open>Content-Length\<close> gets the whole text and nothing after it, and reading that text as
  Prometheus samples gives, under the twelve exported names, the values the counters had at
  their loads.
\<close>

theorem scrape_roundtrip:
  "\<exists>body. http_receive (http_response (build_prometheus_text m) @ rest) = Some (''HTTP/1.1 200 OK'', body, rest) \<and>
     parse_samples body = exported_samples m"
  using http_receive_response [of "build_prometheus_text m" rest] parse_samples_text [of m] by blast

end
