(* ===== verification/Startup.thy ===== *)
theory Startup
  imports Cpp_Numbers Processor Collector Monitor
begin

text \<open>
  Everything that runs before the first event: the constructors of \<open>Storage\<close> and \<open>Processor\<close>,
  \<open>Processor::start\<close> and \<open>main\<close> of \<open>src/main.cpp\<close> up to its I/O threads.  The environment
  variables are a function; whether ClickHouse accepts the connection, the Redis client can be
  created and the ports can be bound are parameters.  An exception is a value of
  \<open>startup_exn\<close>; the way the process ends is a value of \<open>proc_exit\<close>.
\<close>

section \<open>The settings of \<open>main\<close>\<close>

type_synonym environ = "string \<Rightarrow> string option"

definition collector_port :: "environ \<Rightarrow> u16" where
  "collector_port env =
     (case env ''EVENT_COLLECTOR_PORT'' of
        None \<Rightarrow> 8080
      | Some s \<Rightarrow> (case stoi s of Inr n \<Rightarrow> word_of_int n | Inl _ \<Rightarrow> 8080))"

definition monitor_port :: "environ \<Rightarrow> u16" where
  "monitor_port env =
     (case env ''EVENT_COLLECTOR_PROMETHEUS_PORT'' of
        None \<Rightarrow> 9090
      | Some s \<Rightarrow> (case stoi s of Inr n \<Rightarrow> word_of_int n | Inl _ \<Rightarrow> 9090))"

definition worker_count :: "environ \<Rightarrow> u64" where
  "worker_count env =
     (case env ''EVENT_COLLECTOR_WORKERS'' of
        None \<Rightarrow> 4
      | Some s \<Rightarrow> (case stoi s of Inr n \<Rightarrow> word_of_int (max 1 n) | Inl _ \<Rightarrow> 4))"

definition io_thread_count :: "environ \<Rightarrow> int" where
  "io_thread_count env =
     (case env ''EVENT_COLLECTOR_IO_THREADS'' of
        None \<Rightarrow> 2
      | Some s \<Rightarrow> (case stoi s of Inr n \<Rightarrow> max 1 n | Inl _ \<Rightarrow> 2))"

section \<open>Constructors\<close>

datatype startup_exn = Bad_number std_exn | Connect_failed | Bind_failed

text \<open>\<open>Storage::Storage\<close>; \<open>connect\<close> says whether the ClickHouse client could be created.\<close>

definition Storage_new :: "(string \<Rightarrow> int \<Rightarrow> bool) \<Rightarrow> environ \<Rightarrow> startup_exn + storage" where
  "Storage_new connect env =
     (let host = (case env ''EVENT_COLLECTOR_CLICKHOUSE_HOST'' of Some h \<Rightarrow> h | None \<Rightarrow> ''localhost'')
      in case (case env ''EVENT_COLLECTOR_CLICKHOUSE_PORT'' of Some s \<Rightarrow> stoi s | None \<Rightarrow> Inr 9000) of
           Inl e \<Rightarrow> Inl (Bad_number e)
         | Inr port \<Rightarrow> if connect host port then Inr Storage_init else Inl Connect_failed)"

record service_setup =
  su_kafka :: kafka_setup_env
  su_connect :: "string \<Rightarrow> int \<Rightarrow> bool"
  su_redis_new :: "string \<Rightarrow> int \<Rightarrow> bool"

text \<open>The ClickHouse part of \<open>Processor::Processor\<close>: an exception only disables the storage.\<close>

definition storage_setup :: "service_setup \<Rightarrow> environ \<Rightarrow> storage option" where
  "storage_setup su env =
     (case env ''EVENT_COLLECTOR_ENABLE_CLICKHOUSE'' of
        None \<Rightarrow> None
      | Some ck \<Rightarrow>
          if ck = ''1''
          then (case Storage_new (su_connect su) env of Inr st \<Rightarrow> Some st | Inl _ \<Rightarrow> None)
          else None)"

text \<open>The Redis part: the two numbers are read before the \<open>try\<close> block begins.\<close>

definition limiter_setup :: "service_setup \<Rightarrow> environ \<Rightarrow> startup_exn + rate_limiter option" where
  "limiter_setup su env =
     (case env ''EVENT_COLLECTOR_REDIS_ENABLE'' of
        None \<Rightarrow> Inr None
      | Some r \<Rightarrow>
          if r = ''1''
          then let host = (case env ''EVENT_COLLECTOR_REDIS_HOST'' of Some h \<Rightarrow> h | None \<Rightarrow> ''127.0.0.1'')
               in case (case env ''EVENT_COLLECTOR_REDIS_PORT'' of Some s \<Rightarrow> stoi s | None \<Rightarrow> Inr 6379) of
                    Inl e \<Rightarrow> Inl (Bad_number e)
                  | Inr port \<Rightarrow>
                      (case (case env ''EVENT_COLLECTOR_RATE_LIMIT'' of Some s \<Rightarrow> stoull s | None \<Rightarrow> Inr 100) of
                         Inl e \<Rightarrow> Inl (Bad_number e)
                       | Inr limit \<Rightarrow>
                           if su_redis_new su host port
                           then Inr (Some (RateLimiter (env ''EVENT_COLLECTOR_REDIS_PASSWORD'') host port limit))
                           else Inr None)
          else Inr None)"

text \<open>\<open>services\<close>: the states of Redis, Kafka, ClickHouse and the file system.\<close>

definition Processor_new :: "service_setup \<Rightarrow> environ \<Rightarrow> ts_queue \<Rightarrow> metrics \<Rightarrow> 'r \<times> 'k \<times> 'c \<times> file_sys
    \<Rightarrow> startup_exn + ('r, 'k, 'c) processor" where
  "Processor_new su env q m services =
     (let producer = kafka_setup (su_kafka su) (env ''EVENT_COLLECTOR_KAFKA_BOOTSTRAP'')
            (env ''EVENT_COLLECTOR_KAFKA_TOPIC'');
          st = storage_setup su env;
          (r, k, c, fs) = services
      in case limiter_setup su env of
           Inl e \<Rightarrow> Inl e
         | Inr rl \<Rightarrow>
             Inr \<lparr>p_queue = q, p_metrics = m, p_running = True, p_producer = producer, p_storage = st,
                  p_limiter = rl, p_redis = r, p_kafka = k, p_client = c, p_files = fs\<rparr>)"

datatype thread = Worker_thread | Kafka_poll_thread

definition Processor_start :: "u64 \<Rightarrow> ('r, 'k, 'c) processor \<Rightarrow> thread list" where
  "Processor_start thread_count p =
     replicate (unat thread_count) Worker_thread @ (if p_producer p \<noteq> None then [Kafka_poll_thread] else [])"

section \<open>\<open>main\<close>\<close>

datatype proc_exit = Exit_code int | Terminated

record ('r, 'k, 'c) server =
  sv_processor :: "('r, 'k, 'c) processor"
  sv_threads :: "thread list"
  sv_collector :: collector
  sv_monitor :: monitor
  sv_io_threads :: int

text \<open>
  An exception after \<open>processor.start\<close> destroys a processor whose threads were never joined:
  the destructor of a joinable \<open>std::thread\<close> calls \<open>std::terminate\<close>.
\<close>

definition unwind_processor :: "thread list \<Rightarrow> proc_exit" where
  "unwind_processor threads = (if threads \<noteq> [] then Terminated else Exit_code 1)"

text \<open>
  \<open>main\<close> up to the start of the I/O threads: \<open>Inl\<close> when it ends before that.  \<open>bind_collector\<close>
  and \<open>bind_monitor\<close> say whether the acceptors' ports can be bound.
\<close>

definition main_start :: "(u16 \<Rightarrow> bool) \<Rightarrow> (u16 \<Rightarrow> bool) \<Rightarrow> service_setup \<Rightarrow> environ \<Rightarrow> 'r \<times> 'k \<times> 'c \<times> file_sys
    \<Rightarrow> proc_exit + ('r, 'k, 'c) server" where
  "main_start bind_collector bind_monitor su env services =
     (let m = Metrics_init; q = ThreadSafeQueue 10000
      in if \<not> bind_collector (collector_port env) then Inl (Exit_code 1)
         else let co = Collector_start (Collector_init \<lparr>sh_queue = q, sh_metrics = m, sh_active = 0\<rparr>)
              in case Processor_new su env q m services of
                   Inl _ \<Rightarrow> Inl (Exit_code 1)
                 | Inr p \<Rightarrow>
                     let threads = Processor_start (worker_count env) p
                     in if \<not> bind_monitor (monitor_port env) then Inl (unwind_processor threads)
                        else Inr \<lparr>sv_processor = p, sv_threads = threads, sv_collector = co,
                               sv_monitor = Monitor_start Monitor_init,
                               sv_io_threads = io_thread_count env\<rparr>)"

section \<open>Properties\<close>

subsection \<open>Settings\<close>

lemma unat_worker_setting:
  assumes "stoi s = Inr n"
  shows "unat (word_of_int (max 1 n) :: u64) = nat (max 1 n)"
proof -
  have "max 1 n < 2 ^ 31" using stoi_range [OF assms] by simp
  then have "uint (word_of_int (max 1 n) :: u64) = max 1 n"
    by (simp add: unsigned_of_int take_bit_int_eq_self)
  then show ?thesis by (simp only: unat_eq_nat_uint)
qed

lemma worker_count_bounds: "1 \<le> unat (worker_count env) \<and> unat (worker_count env) < 2 ^ 31"
proof (cases "env ''EVENT_COLLECTOR_WORKERS''")
  case (Some s)
  show ?thesis
  proof (cases "stoi s")
    case (Inr n)
    have "unat (worker_count env) = nat (max 1 n)"
      using Some Inr unat_worker_setting [OF Inr] by (simp add: worker_count_def)
    with stoi_range [OF Inr] show ?thesis by (auto simp: max_def)
  qed (simp add: worker_count_def Some)
qed (simp add: worker_count_def)

lemma io_thread_count_bounds: "1 \<le> io_thread_count env \<and> io_thread_count env < 2 ^ 31"
  by (auto simp: io_thread_count_def split: option.splits sum.splits dest: stoi_range)

lemma uint_port: "uint (word_of_int n :: u16) = n mod 65536"
  by (simp add: unsigned_of_int take_bit_eq_mod)

text \<open>
  C37: what a configured number means.  A decimal port, followed by anything that is not a
  digit, is taken modulo 65536 (so every port from 0 to 65535 is used as given, and a larger
  or negative one silently becomes another port); thread counts are at least 1.
\<close>

theorem settings_of_number:
  assumes "- (2 ^ 31) \<le> n" and "n < 2 ^ 31" and "rest = [] \<or> \<not> is_digit (hd rest)"
  shows "(env ''EVENT_COLLECTOR_PORT'' = Some (show_int n @ rest) \<longrightarrow> uint (collector_port env) = n mod 65536) \<and>
    (env ''EVENT_COLLECTOR_PROMETHEUS_PORT'' = Some (show_int n @ rest) \<longrightarrow> uint (monitor_port env) = n mod 65536) \<and>
    (env ''EVENT_COLLECTOR_WORKERS'' = Some (show_int n @ rest) \<longrightarrow> int (unat (worker_count env)) = max 1 n) \<and>
    (env ''EVENT_COLLECTOR_IO_THREADS'' = Some (show_int n @ rest) \<longrightarrow> io_thread_count env = max 1 n)"
  using stoi_show_int [OF assms] unat_worker_setting [OF stoi_show_int [OF assms]]
  by (simp add: collector_port_def monitor_port_def worker_count_def io_thread_count_def uint_port max_def)

definition sample_environ :: environ where
  "sample_environ = [''EVENT_COLLECTOR_PORT'' \<mapsto> show_int 73616, ''EVENT_COLLECTOR_REDIS_ENABLE'' \<mapsto> ''1'',
     ''EVENT_COLLECTOR_RATE_LIMIT'' \<mapsto> ''none'']"

theorem settings_of_number_witness: "uint (collector_port sample_environ) = 8080"
proof -
  have "sample_environ ''EVENT_COLLECTOR_PORT'' = Some (show_int 73616 @ [])"
    by (simp add: sample_environ_def)
  with settings_of_number [of 73616 "[]" sample_environ] show ?thesis by simp
qed

subsection \<open>Starting up\<close>

text \<open>The numbers the rate limiter needs that cannot be read.\<close>

definition bad_limiter_number :: "environ \<Rightarrow> bool" where
  "bad_limiter_number env \<longleftrightarrow>
     env ''EVENT_COLLECTOR_REDIS_ENABLE'' = Some ''1'' \<and>
     ((\<exists>s e. env ''EVENT_COLLECTOR_REDIS_PORT'' = Some s \<and> stoi s = Inl e) \<or>
      (\<exists>s e. env ''EVENT_COLLECTOR_RATE_LIMIT'' = Some s \<and> stoull s = Inl e))"

lemma limiter_setup_fails: "(\<exists>e. limiter_setup su env = Inl e) \<longleftrightarrow> bad_limiter_number env"
  by (auto simp: limiter_setup_def bad_limiter_number_def Let_def split: option.splits sum.splits)

lemma Processor_new_fails: "(\<exists>e. Processor_new su env q m services = Inl e) \<longleftrightarrow> bad_limiter_number env"
  unfolding limiter_setup_fails [of su env, symmetric]
  by (auto simp: Processor_new_def Let_def split: sum.splits prod.splits)

lemma storage_setup_result: "storage_setup su env = None \<or> storage_setup su env = Some Storage_init"
  by (simp add: storage_setup_def Storage_new_def split: option.split sum.split)

lemma Processor_new_fields:
  assumes "Processor_new su env q m services = Inr p"
  shows "p_queue p = q" "p_metrics p = m" "p_running p" "p_storage p = None \<or> p_storage p = Some Storage_init"
proof -
  from assms show "p_queue p = q" "p_metrics p = m" "p_running p"
    by (auto simp: Processor_new_def Let_def split: prod.splits sum.splits)
  from assms have "p_storage p = storage_setup su env" by (auto simp: Processor_new_def Let_def split: prod.splits sum.splits)
  then show "p_storage p = None \<or> p_storage p = Some Storage_init" using storage_setup_result by metis
qed

lemma threads_started: "Processor_start (worker_count env) p \<noteq> []"
  using worker_count_bounds [of env] by (auto simp: Processor_start_def)

lemma main_start_cases:
  "main_start bc bm su env services = Inl (Exit_code 1) \<longleftrightarrow> \<not> bc (collector_port env) \<or> bad_limiter_number env"
  "main_start bc bm su env services = Inl Terminated \<longleftrightarrow>
     bc (collector_port env) \<and> \<not> bad_limiter_number env \<and> \<not> bm (monitor_port env)"
  "(\<exists>sv. main_start bc bm su env services = Inr sv) \<longleftrightarrow>
     bc (collector_port env) \<and> \<not> bad_limiter_number env \<and> bm (monitor_port env)"
  using Processor_new_fails [of su env "ThreadSafeQueue 10000" Metrics_init services]
  by (auto simp: main_start_def Let_def unwind_processor_def threads_started split: sum.splits)

text \<open>
  C23: how start-up ends.  \<open>main\<close> returns 1 when the collector's port cannot be bound or, with
  the rate limiter enabled, its port or limit is not a number; it is terminated by the
  runtime, instead of returning 1, when the monitor's port cannot be bound, because the
  worker threads already run; otherwise the server starts, whatever Kafka, ClickHouse and
  Redis answer.
\<close>

theorem startup_outcome:
  "(main_start bc bm su env services = Inl (Exit_code 1) \<longleftrightarrow> \<not> bc (collector_port env) \<or> bad_limiter_number env) \<and>
   (main_start bc bm su env services = Inl Terminated \<longleftrightarrow>
      bc (collector_port env) \<and> \<not> bad_limiter_number env \<and> \<not> bm (monitor_port env)) \<and>
   ((\<exists>sv. main_start bc bm su env services = Inr sv) \<longleftrightarrow>
      bc (collector_port env) \<and> \<not> bad_limiter_number env \<and> bm (monitor_port env))"
  by (intro conjI main_start_cases)

definition refusing_setup :: service_setup where
  "refusing_setup = \<lparr>su_kafka = \<lparr>ks_conf_set = (\<lambda>_ _. False), ks_new = False, ks_topic_new = (\<lambda>_. False)\<rparr>,
     su_connect = (\<lambda>_ _. False), su_redis_new = (\<lambda>_ _. False)\<rparr>"

theorem startup_outcome_witness:
  "main_start (\<lambda>_. True) (\<lambda>_. False) refusing_setup (\<lambda>_. None) ((), (), (), (\<lambda>_. None)) = Inl Terminated"
proof -
  have "\<not> bad_limiter_number (\<lambda>_. None)" by (simp add: bad_limiter_number_def)
  with startup_outcome [of "\<lambda>_. True" "\<lambda>_. False" refusing_setup "\<lambda>_. None" "((), (), (), (\<lambda>_. None))"]
  show ?thesis by simp
qed

end
