(* ===== verification/Shutdown.thy ===== *)
theory Shutdown
  imports Startup
begin

text \<open>
  The rest of \<open>main\<close> of \<open>src/main.cpp\<close>: the I/O threads run the handlers of the collector,
  the sessions, the monitor and the signal set until \<open>io_context::run\<close> returns, then the
  processor is stopped.  Boost.Asio documents that \<open>run\<close> returns only when no work is left
  (or after \<open>io_context::stop\<close>, which the program never calls); work is every registered
  handler and the work guard.
\<close>

section \<open>The handlers of one \<open>io_context\<close>\<close>

record io_system =
  io_collector :: collector
  io_monitor :: monitor
  io_signal :: bool  \<comment> \<open>the handler of the signal set is registered\<close>
  io_guard :: bool

text \<open>The handler of \<open>SIGINT\<close> and \<open>SIGTERM\<close>.\<close>

definition on_signal :: "bool \<Rightarrow> io_system \<Rightarrow> io_system" where
  "on_signal close_ec s = s\<lparr>io_collector := Collector_stop close_ec (io_collector s), io_guard := False\<rparr>"

definition io_start :: "('r, 'k, 'c) server \<Rightarrow> io_system" where
  "io_start sv = \<lparr>io_collector = sv_collector sv, io_monitor = sv_monitor sv, io_signal = True, io_guard = True\<rparr>"

text \<open>The work that keeps \<open>run\<close> going.\<close>

definition session_work :: "session \<Rightarrow> nat" where
  "session_work se = (if se_reading se \<noteq> Not_reading then 1 else 0) + (if se_waiting se then 1 else 0)"

definition outstanding :: "io_system \<Rightarrow> nat" where
  "outstanding s =
     co_accepts (io_collector s) + sum_list (map session_work (co_sessions (io_collector s)))
     + mo_accepts (io_monitor s) + mo_reading (io_monitor s) + length (mo_writing (io_monitor s))
     + (if io_signal s then 1 else 0) + (if io_guard s then 1 else 0)"

text \<open>The end of \<open>main\<close>: when every \<open>run\<close> has returned in state \<open>s\<close>, stop the processor.\<close>

definition main_finish :: "(io_system \<Rightarrow> bool) \<Rightarrow> ('r, 'k, 'c) proc_ext \<Rightarrow> (nat \<Rightarrow> iter_env) \<Rightarrow> iter_env \<Rightarrow> io_system
    \<Rightarrow> ('r, 'k, 'c) processor \<Rightarrow> proc_exit option" where
  "main_finish run_returns ext envs env s p =
     (if run_returns s
      then Some (case stop ext envs env p of Inr _ \<Rightarrow> Exit_code 0 | Inl _ \<Rightarrow> Terminated)
      else None)"

section \<open>Both accept loops always go on\<close>

definition io_init :: "io_system \<Rightarrow> bool" where
  "io_init s \<longleftrightarrow>
     coll_init (io_collector s) \<and> mon_init (io_monitor s) \<and> io_signal s \<and> io_guard s"

definition io_inv :: "io_system \<Rightarrow> bool" where
  "io_inv s \<longleftrightarrow> coll_inv (io_collector s) \<and> mon_inv (io_monitor s)"

lemma io_inv_init: "io_init s \<Longrightarrow> io_inv s"
  using cli.inv_init moi.inv_init by (simp add: io_init_def io_inv_def)

lemma io_inv_works: "io_inv s \<Longrightarrow> 0 < outstanding s"
  by (simp add: io_inv_def coll_inv_def outstanding_def)

lemma io_start_init:
  assumes "main_start bc bm su env services = Inr sv"
  shows "io_init (io_start sv)"
proof -
  from assms have "sv_collector sv = Collector_start (Collector_init
      \<lparr>sh_queue = ThreadSafeQueue 10000, sh_metrics = Metrics_init, sh_active = 0\<rparr>)"
    and "sv_monitor sv = Monitor_start Monitor_init"
    by (auto simp: main_start_def Let_def split: if_splits sum.splits)
  then show ?thesis using coll_init mon_init by (simp add: io_init_def io_start_def)
qed

text \<open>An accept that fails, as every accept on the closed acceptor does, restores the state.\<close>

lemma accept_error_spins:
  assumes "co_accepts co = 1" and "ac_ec env"
  shows "on_accept env (co\<lparr>co_accepts := co_accepts co - 1\<rparr>) = co"
  using assms by (simp add: on_accept_def accept_block_def Collector_start_def)

end
