(* ===== verification/Server_Run.thy ===== *)
theory Server_Run
  imports Exact_Counts Shutdown
begin

text \<open>
  The running server: the handlers of the \<open>io_context\<close> (accept loop, sessions, monitor, signal)
  and the threads of the processor (workers, flush thread, poll thread), all sharing one queue
  and one set of counters, in any interleaving.  The machine is the composition of those of
  \<open>Collector\<close>, \<open>Monitor\<close> and \<open>Pipeline\<close>; a scrape of the monitor loads the twelve counters one
  after the other, and a session pushes a body and counts a refused one in two steps, so other
  threads run in between.  The composition refines \<open>Pipeline\<close>
  and with it the \<open>Ledger\<close>.
\<close>

section \<open>The composition\<close>

text \<open>
  The queue and the counters are those of the collector's shared state; the processor sees
  them through \<open>pipe_of\<close>.  \<open>sr_scrapes\<close> holds the scrapes under way, each with the counters as
  they were at the loads made so far, \<open>sr_handlers\<close> the body handlers between their push and their
  end: the session, the answer of the queue and the body.  Until it ends the handler's read still
  counts as registered, but no read of that session completes.
\<close>

record ('r, 'k, 'c) running =
  sr_io :: io_system
  sr_pipe :: "('r, 'k, 'c) pipeline"
  sr_scrapes :: "metrics list list"
  sr_handlers :: "(nat \<times> bool \<times> bytes) list"

definition with_shared :: "shared \<Rightarrow> ('r, 'k, 'c) processor \<Rightarrow> ('r, 'k, 'c) processor" where
  "with_shared sh p = p\<lparr>p_queue := sh_queue sh, p_metrics := sh_metrics sh\<rparr>"

definition sr_collector :: "('r, 'k, 'c) running \<Rightarrow> collector" where
  "sr_collector s = io_collector (sr_io s)"

definition put_collector :: "collector \<Rightarrow> ('r, 'k, 'c) running \<Rightarrow> ('r, 'k, 'c) running" where
  "put_collector co s = s\<lparr>sr_io := (sr_io s)\<lparr>io_collector := co\<rparr>\<rparr>"

definition put_monitor :: "monitor \<Rightarrow> ('r, 'k, 'c) running \<Rightarrow> ('r, 'k, 'c) running" where
  "put_monitor mo s = s\<lparr>sr_io := (sr_io s)\<lparr>io_monitor := mo\<rparr>\<rparr>"

text \<open>The messages whose handler is about to count a drop, and the sessions with a handler under way.\<close>

definition refused :: "(nat \<times> bool \<times> bytes) list \<Rightarrow> bytes multiset" where
  "refused hs = mset (map (\<lambda>(i, ok, b). b) (filter (\<lambda>(i, ok, b). \<not> ok) hs))"

definition in_handler :: "nat \<Rightarrow> ('r, 'k, 'c) running \<Rightarrow> bool" where
  "in_handler i s \<longleftrightarrow> i \<in> fst ` set (sr_handlers s)"

definition pipe_of :: "('r, 'k, 'c) running \<Rightarrow> ('r, 'k, 'c) pipeline" where
  "pipe_of s = (sr_pipe s)\<lparr>pl_proc := with_shared (co_shared (sr_collector s)) (pl_proc (sr_pipe s)),
     pl_refused := refused (sr_handlers s)\<rparr>"

definition put_pipe :: "('r, 'k, 'c) pipeline \<Rightarrow> ('r, 'k, 'c) running \<Rightarrow> ('r, 'k, 'c) running" where
  "put_pipe t s =
     put_collector ((sr_collector s)\<lparr>co_shared := (co_shared (sr_collector s))
       \<lparr>sh_queue := p_queue (pl_proc t), sh_metrics := p_metrics (pl_proc t)\<rparr>\<rparr>) (s\<lparr>sr_pipe := t\<rparr>)"

text \<open>The history of pushed messages grows with each body a session has read.\<close>

definition note_arrival :: "bytes \<Rightarrow> ('r, 'k, 'c) running \<Rightarrow> ('r, 'k, 'c) running" where
  "note_arrival b s = s\<lparr>sr_pipe := (sr_pipe s)\<lparr>pl_pushed := add_mset b (pl_pushed (sr_pipe s))\<rparr>\<rparr>"

text \<open>The new state of session \<open>i\<close> and of what the sessions share.\<close>

definition put_session :: "nat \<Rightarrow> session \<times> shared \<Rightarrow> ('r, 'k, 'c) running \<Rightarrow> ('r, 'k, 'c) running" where
  "put_session i r s = put_collector ((sr_collector s)\<lparr>co_sessions := (co_sessions (sr_collector s))[i := fst r],
     co_shared := snd r\<rparr>) s"

definition get_session :: "nat \<Rightarrow> ('r, 'k, 'c) running \<Rightarrow> session \<times> shared" where
  "get_session i s = (co_sessions (sr_collector s) ! i, co_shared (sr_collector s))"

fun whole_handler :: "completion \<Rightarrow> bool" where
  "whole_handler (Body_done False b) \<longleftrightarrow> False"
| "whole_handler _ \<longleftrightarrow> True"

fun is_read :: "completion \<Rightarrow> bool" where
  "is_read (Timer_done ec) \<longleftrightarrow> False"
| "is_read _ \<longleftrightarrow> True"

inductive sr_step :: "('r, 'k, 'c) proc_ext \<Rightarrow> ('r, 'k, 'c) running \<Rightarrow> ('r, 'k, 'c) running \<Rightarrow> bool"
  for ext :: "('r, 'k, 'c) proc_ext" where
  sr_accept: "0 < co_accepts (sr_collector s) \<Longrightarrow> (co_open (sr_collector s) \<or> ac_ec env)
    \<Longrightarrow> sr_step ext s (put_collector
          (on_accept env ((sr_collector s)\<lparr>co_accepts := co_accepts (sr_collector s) - 1\<rparr>)) s)"
| sr_session: "i < length (co_sessions (sr_collector s)) \<Longrightarrow> whole_handler c \<Longrightarrow> is_read c \<longrightarrow> \<not> in_handler i s
    \<Longrightarrow> enabled c (fst (get_session i s)) \<Longrightarrow> complete c (get_session i s) = Inr r
    \<Longrightarrow> sr_step ext s (put_session i (registered r) s)"
| sr_body_push: "i < length (co_sessions (sr_collector s)) \<Longrightarrow> \<not> in_handler i s
    \<Longrightarrow> enabled (Body_done False b) (fst (get_session i s)) \<Longrightarrow> body_pushed b (get_session i s) = (ok, r)
    \<Longrightarrow> sr_step ext s (note_arrival b (put_session i r (s\<lparr>sr_handlers := (i, ok, b) # sr_handlers s\<rparr>)))"
| sr_body_rest: "sr_handlers s = xs @ (i, ok, b) # ys \<Longrightarrow> i < length (co_sessions (sr_collector s))
    \<Longrightarrow> sr_step ext s (put_session i (registered (body_rest ok (get_session i s))) (s\<lparr>sr_handlers := xs @ ys\<rparr>))"
| sr_signal: "io_signal (sr_io s)
    \<Longrightarrow> sr_step ext s (s\<lparr>sr_io := on_signal ec ((sr_io s)\<lparr>io_signal := False\<rparr>)\<rparr>)"
| sr_work: "work_step ext (pipe_of s) t \<Longrightarrow> sr_step ext s (put_pipe t s)"
| sr_scrape_accept: "0 < mo_accepts (io_monitor (sr_io s))
    \<Longrightarrow> sr_step ext s (put_monitor (on_mon_accept ec
          ((io_monitor (sr_io s))\<lparr>mo_accepts := mo_accepts (io_monitor (sr_io s)) - 1\<rparr>)) s)"
| sr_scrape_begin: "0 < mo_reading (io_monitor (sr_io s))
    \<Longrightarrow> sr_step ext s (put_monitor ((io_monitor (sr_io s))\<lparr>mo_reading := mo_reading (io_monitor (sr_io s)) - 1\<rparr>)
          (s\<lparr>sr_scrapes := (if ec then sr_scrapes s else [] # sr_scrapes s)\<rparr>))"
| sr_scrape_load: "sr_scrapes s = xs @ ms # ys \<Longrightarrow> length ms < 12
    \<Longrightarrow> sr_step ext s (s\<lparr>sr_scrapes := xs @ (ms @ [sh_metrics (co_shared (sr_collector s))]) # ys\<rparr>)"
| sr_scrape_respond: "sr_scrapes s = xs @ ms # ys \<Longrightarrow> length ms = 12
    \<Longrightarrow> sr_step ext s (put_monitor (on_request False (\<lambda>i. ms ! i) (io_monitor (sr_io s))) (s\<lparr>sr_scrapes := xs @ ys\<rparr>))"
| sr_scrape_written: "mo_writing (io_monitor (sr_io s)) = rs @ r # qs
    \<Longrightarrow> sr_step ext s (put_monitor ((io_monitor (sr_io s))\<lparr>mo_writing := rs @ qs\<rparr>) s)"

definition sr_init :: "('r, 'k, 'c) running \<Rightarrow> bool" where
  "sr_init s \<longleftrightarrow> io_init (sr_io s) \<and> pl_init (pipe_of s) \<and> sr_scrapes s = [] \<and> sr_handlers s = []"

section \<open>It refines the pipeline\<close>

lemma put_simps [simp]:
  "sr_collector (put_collector co s) = co" "sr_collector (put_monitor mo s) = sr_collector s"
  "sr_pipe (put_collector co s) = sr_pipe s" "sr_pipe (put_monitor mo s) = sr_pipe s"
  "io_monitor (sr_io (put_collector co s)) = io_monitor (sr_io s)" "io_monitor (sr_io (put_monitor mo s)) = mo"
  "sr_scrapes (put_collector co s) = sr_scrapes s" "sr_scrapes (put_monitor mo s) = sr_scrapes s"
  "sr_handlers (put_collector co s) = sr_handlers s" "sr_handlers (put_monitor mo s) = sr_handlers s"
  "sr_collector (s\<lparr>sr_pipe := t\<rparr>) = sr_collector s" "sr_collector (s\<lparr>sr_scrapes := xs\<rparr>) = sr_collector s"
  "sr_collector (s\<lparr>sr_handlers := hs\<rparr>) = sr_collector s"
  "sr_collector (note_arrival b s) = sr_collector s" "sr_scrapes (note_arrival b s) = sr_scrapes s"
  "sr_handlers (note_arrival b s) = sr_handlers s" "sr_io (note_arrival b s) = sr_io s"
  by (simp_all add: sr_collector_def put_collector_def put_monitor_def note_arrival_def)

lemma put_session_simps [simp]:
  "co_shared (sr_collector (put_session i r s)) = snd r" "sr_pipe (put_session i r s) = sr_pipe s"
  "co_sessions (sr_collector (put_session i r s)) = (co_sessions (sr_collector s))[i := fst r]"
  "sr_scrapes (put_session i r s) = sr_scrapes s" "sr_handlers (put_session i r s) = sr_handlers s"
  "io_monitor (sr_io (put_session i r s)) = io_monitor (sr_io s)"
  by (simp_all add: put_session_def)

lemma get_session_simps [simp]:
  "fst (get_session i s) = co_sessions (sr_collector s) ! i" "snd (get_session i s) = co_shared (sr_collector s)"
  by (simp_all add: get_session_def)

lemma refused_simps [simp]:
  "refused [] = {#}" "refused ((i, ok, b) # hs) = (if ok then refused hs else add_mset b (refused hs))"
  "refused (xs @ ys) = refused xs + refused ys"
  by (simp_all add: refused_def)

lemma pipe_of_same:
  "sh_queue (co_shared (sr_collector t)) = sh_queue (co_shared (sr_collector s)) \<Longrightarrow>
   sh_metrics (co_shared (sr_collector t)) = sh_metrics (co_shared (sr_collector s)) \<Longrightarrow>
   sr_pipe t = sr_pipe s \<Longrightarrow> sr_handlers t = sr_handlers s \<Longrightarrow> pipe_of t = pipe_of s"
  by (simp add: pipe_of_def with_shared_def)

lemma pipe_of_put_pipe: "pl_refused t = refused (sr_handlers s) \<Longrightarrow> pipe_of (put_pipe t s) = t"
  by (simp add: pipe_of_def put_pipe_def with_shared_def put_collector_def sr_collector_def)

lemma work_step_refused: "work_step ext s t \<Longrightarrow> pl_refused t = pl_refused s"
  by (erule work_stepE) (auto elim!: worker_stepE flusher_stepE poll_stepE)

lemma pipe_of_work: "work_step ext (pipe_of s) t \<Longrightarrow> pipe_of (put_pipe t s) = t"
  by (rule pipe_of_put_pipe) (simp add: work_step_refused, simp add: pipe_of_def)

lemma on_accept_shared [simp]:
  "sh_queue (co_shared (on_accept env co)) = sh_queue (co_shared co)"
  "sh_metrics (co_shared (on_accept env co)) = sh_metrics (co_shared co)"
  by (simp_all add: on_accept_def accept_block_def new_session_def Collector_start_def Let_def Session_new_def
      registered_def split: start_fault.splits)

text \<open>Handlers that are one step leave queue and counters alone; the two steps of a body are those of \<open>pl_step\<close>.\<close>

lemma complete_whole:
  assumes "complete c se = Inr r" and "whole_handler c"
  shows "sh_queue (snd (registered r)) = sh_queue (snd se)" and "sh_metrics (snd (registered r)) = sh_metrics (snd se)"
proof -
  have "(snd (registered r))\<lparr>sh_active := 0\<rparr> = (snd se)\<lparr>sh_active := 0\<rparr>"
    using complete_shared [OF assms(1), of 0] assms(2) by (cases c rule: whole_handler.cases) auto
  then show "sh_queue (snd (registered r)) = sh_queue (snd se)" "sh_metrics (snd (registered r)) = sh_metrics (snd se)"
    by (auto dest: arg_cong [where f = sh_queue] arg_cong [where f = sh_metrics])
qed

lemma pipe_of_push:
  assumes "body_pushed b (get_session i s) = (ok, r)"
  shows "pipe_of (note_arrival b (put_session i r (s\<lparr>sr_handlers := (i, ok, b) # sr_handlers s\<rparr>))) = session_push b (pipe_of s)"
  using assms
  by (auto simp: pipe_of_def with_shared_def note_arrival_def body_pushed_def session_push_def Let_def put_session_def
      put_collector_def sr_collector_def get_session_def split: prod.splits)

lemma pipe_of_rest:
  assumes "sr_handlers s = xs @ (i, ok, b) # ys"
  shows "pipe_of (put_session i (registered (body_rest ok (get_session i s))) (s\<lparr>sr_handlers := xs @ ys\<rparr>)) =
    (if ok then pipe_of s else session_count b (pipe_of s))"
  using assms
  by (auto simp: pipe_of_def with_shared_def session_count_def bump_def body_rest_def count_drop_def registered_def
      put_session_def put_collector_def sr_collector_def get_session_def)

lemma sr_step_pipe:
  assumes "sr_step ext s t"
  shows "pipe_of t = pipe_of s \<or> pl_step ext (pipe_of s) (pipe_of t)"
  using assms
proof cases
  case (sr_session i c r)
  with complete_whole [OF sr_session(6,3)] show ?thesis by (intro disjI1 pipe_of_same) simp_all
next
  case (sr_body_push i b ok r)
  then show ?thesis by (simp add: pipe_of_push pl_push)
next
  case (sr_body_rest xs i ok b ys)
  then have "\<not> ok \<Longrightarrow> b \<in># pl_refused (pipe_of s)" by (simp add: pipe_of_def)
  with sr_body_rest pl_drop [of b "pipe_of s"] show ?thesis by (simp add: pipe_of_rest)
next
  case (sr_work u)
  then show ?thesis by (simp add: pl_work pipe_of_work)
next
  case (sr_signal ec)
  then show ?thesis
    by (intro disjI1 pipe_of_same) (simp_all add: sr_collector_def on_signal_def Collector_stop_def)
qed (auto intro!: pipe_of_same)

interpretation srp: simulation sr_init "sr_step ext" pl_init "pl_step ext" "\<lambda>s a. a = pipe_of s"
  for ext :: "('r, 'k, 'c) proc_ext"
proof
  show "\<exists>a. pl_init a \<and> a = pipe_of s" if "sr_init s" for s using that by (simp add: sr_init_def)
  show "\<exists>b. (pl_step ext)\<^sup>*\<^sup>* a b \<and> b = pipe_of t" if "a = pipe_of s" "sr_step ext s t" for s a t
    using sr_step_pipe [OF that(2)] that(1) by auto
qed

text \<open>The I/O side keeps its invariant whatever the processor does to the queue and the counters.\<close>

lemma work_step_queue:
  assumes "work_step ext s t"
  shows "p_queue (pl_proc t) = p_queue (pl_proc s) \<or> p_queue (pl_proc t) = snd (snd (try_pop [] (p_queue (pl_proc s))))"
  using assms
proof cases
  case (work_worker i)
  then show ?thesis by cases (auto dest: check_limit_keeps(1) kafka_act_keeps(1))
qed (auto elim: flusher_stepE poll_stepE)

lemma coll_inv_push:
  assumes inv: "coll_inv co" and i: "i < length (co_sessions co)"
    and en: "enabled (Body_done False b) (co_sessions co ! i)"
    and r: "body_pushed b (co_sessions co ! i, co_shared co) = (ok, r)"
  shows "coll_inv (co\<lparr>co_sessions := (co_sessions co)[i := fst r], co_shared := snd r\<rparr>)"
proof -
  let ?se = "co_sessions co ! i"
  have ok: "body_ok ?se" using inv i by (simp add: coll_inv_def list_all_length)
  have f: "fst r = ?se\<lparr>se_body := b\<rparr>" "snd r = (co_shared co)\<lparr>sh_queue := snd (try_push b (sh_queue (co_shared co)))\<rparr>"
    using r by (auto simp: body_pushed_def split: prod.splits)
  have "0 < length b" "length b < 102400" using en ok by (auto simp: body_ok_def split: reading.splits)
  moreover have "list_all body_ok ((co_sessions co)[i := fst r])"
    using inv ok f(1) i by (auto simp: coll_inv_def list_all_length nth_list_update body_ok_def)
  ultimately show ?thesis
    using inv counted_update [OF i, of "fst r"] queue_sized_push [of "sh_queue (co_shared co)" b]
    by (simp add: coll_inv_def f)
qed

lemma coll_inv_rest:
  assumes inv: "coll_inv co" and i: "i < length (co_sessions co)"
  shows "coll_inv (co\<lparr>co_sessions := (co_sessions co)[i := fst (registered (body_rest ok (co_sessions co ! i, co_shared co)))],
    co_shared := snd (registered (body_rest ok (co_sessions co ! i, co_shared co)))\<rparr>)"
proof -
  let ?r = "registered (body_rest ok (co_sessions co ! i, co_shared co))"
  have f: "fst ?r = (co_sessions co ! i)\<lparr>se_reading := Reading_header\<rparr>" "snd ?r = count_drop ok (co_shared co)"
    by (simp_all add: body_rest_def registered_def do_read_header_def)
  have "list_all body_ok ((co_sessions co)[i := fst ?r])"
    using inv i by (auto simp: f(1) coll_inv_def list_all_length nth_list_update body_ok_def)
  then show ?thesis
    using inv counted_update [OF i, of "fst ?r"] by (simp add: coll_inv_def f count_drop_def)
qed

lemma sr_io_inv:
  assumes "io_inv (sr_io s)" and "sr_step ext s t"
  shows "io_inv (sr_io t)"
  using assms(2)
proof cases
  case (sr_accept env)
  with assms(1) coll_inv_accept show ?thesis by (simp add: io_inv_def put_collector_def sr_collector_def)
next
  case (sr_session i c r)
  with assms(1) coll_inv_session [of "sr_collector s" i c r] show ?thesis
    by (simp add: io_inv_def put_session_def put_collector_def sr_collector_def get_session_def)
next
  case (sr_body_push i b ok r)
  with assms(1) coll_inv_push [of "sr_collector s" i b ok r] show ?thesis
    by (simp add: io_inv_def put_session_def put_collector_def sr_collector_def note_arrival_def get_session_def)
next
  case (sr_body_rest xs i ok b ys)
  with assms(1) coll_inv_rest [of "sr_collector s" i ok] show ?thesis
    by (simp add: io_inv_def put_session_def put_collector_def sr_collector_def get_session_def)
next
  case (sr_signal ec)
  with assms(1) coll_inv_stop show ?thesis by (simp add: io_inv_def on_signal_def)
next
  case (sr_work u)
  have "queue_sized (p_queue (pl_proc u))"
    using work_step_queue [OF sr_work(2)] assms(1) queue_sized_pop
    by (auto simp: io_inv_def coll_inv_def pipe_of_def with_shared_def sr_collector_def)
  with sr_work(1) assms(1) show ?thesis
    by (simp add: io_inv_def coll_inv_def put_pipe_def put_collector_def sr_collector_def)
qed (use assms(1) in \<open>auto simp: io_inv_def put_monitor_def mon_inv_def on_mon_accept_def on_request_def
    do_accept_def handle_request_def\<close>)

interpretation sri: inductive_invariant sr_init "sr_step ext" "\<lambda>s. io_inv (sr_io s)"
  for ext :: "('r, 'k, 'c) proc_ext"
proof
  show "io_inv (sr_io s)" if "sr_init s" for s using that io_inv_init by (simp add: sr_init_def)
qed (rule sr_io_inv)

section \<open>From \<open>main\<close> to the running server\<close>

definition sr_start :: "('r, 'k, 'c) server \<Rightarrow> ('r, 'k, 'c) running" where
  "sr_start sv =
     \<lparr>sr_io = io_start sv,
      sr_pipe = \<lparr>pl_proc = sv_processor sv,
        pl_workers = map (\<lambda>_. Waiting) (filter (\<lambda>t. t = Worker_thread) (sv_threads sv)),
        pl_flusher = None, pl_pushed = {#}, pl_refused = {#}, pl_unstored = {#}, pl_lost = {#},
        pl_popped = 0, pl_admitted = 0\<rparr>,
      sr_scrapes = [], sr_handlers = []\<rparr>"

lemma main_start_parts:
  assumes "main_start bc bm su env services = Inr sv"
  shows "co_shared (sv_collector sv) = \<lparr>sh_queue = ThreadSafeQueue 10000, sh_metrics = Metrics_init, sh_active = 0\<rparr>"
    and "p_storage (sv_processor sv) = None \<or> p_storage (sv_processor sv) = Some Storage_init"
  using assms
  by (auto simp: main_start_def Let_def Collector_start_def Collector_init_def split: if_splits sum.splits
      dest: Processor_new_fields(4))

lemma sr_start_init:
  assumes "main_start bc bm su env services = Inr sv"
  shows "sr_init (sr_start sv)"
proof -
  have "pl_init (pipe_of (sr_start sv))"
    using main_start_parts [OF assms]
    by (auto simp: pl_init_def pipe_of_def sr_start_def with_shared_def sr_collector_def io_start_def list_all_iff
        ThreadSafeQueue_def Storage_init_def)
  with io_start_init [OF assms] show ?thesis by (simp add: sr_init_def sr_start_def)
qed

lemma sr_reachable:
  assumes "main_start bc bm su env services = Inr sv" and "(sr_step ext)\<^sup>*\<^sup>* (sr_start sv) s"
  shows "reachable sr_init (sr_step ext) s"
  by (rule reachable_steps [OF assms(2)]) (rule reach_init, rule sr_start_init [OF assms(1)])

section \<open>Scrapes\<close>

text \<open>A snapshot of the counters was taken at a moment before \<open>t\<close>.\<close>

definition taken_before :: "('r, 'k, 'c) proc_ext \<Rightarrow> metrics \<Rightarrow> ('r, 'k, 'c) running \<Rightarrow> bool" where
  "taken_before ext m t \<longleftrightarrow>
     (\<exists>s. reachable sr_init (sr_step ext) s \<and> (sr_step ext)\<^sup>*\<^sup>* s t \<and> m = p_metrics (pl_proc (pipe_of s)))"

definition honest_response :: "('r, 'k, 'c) proc_ext \<Rightarrow> ('r, 'k, 'c) running \<Rightarrow> bytes \<Rightarrow> bool" where
  "honest_response ext t r \<longleftrightarrow>
     (\<exists>m. r = http_response (build_prometheus_text m) \<and> (\<forall>i<12. taken_before ext (m i) t))"

definition honest :: "('r, 'k, 'c) proc_ext \<Rightarrow> ('r, 'k, 'c) running \<Rightarrow> bool" where
  "honest ext t \<longleftrightarrow>
     (\<forall>ms\<in>set (sr_scrapes t). \<forall>m\<in>set ms. taken_before ext m t) \<and>
     (\<forall>r\<in>set (mo_writing (io_monitor (sr_io t))). honest_response ext t r)"

lemma taken_before_step: "taken_before ext m s \<Longrightarrow> sr_step ext s t \<Longrightarrow> taken_before ext m t"
  unfolding taken_before_def by (blast intro: rtranclp.rtrancl_into_rtrancl)

lemma honest_response_step: "honest_response ext s r \<Longrightarrow> sr_step ext s t \<Longrightarrow> honest_response ext t r"
  unfolding honest_response_def by (blast intro: taken_before_step)

lemma taken_now: "reachable sr_init (sr_step ext) s \<Longrightarrow> taken_before ext (p_metrics (pl_proc (pipe_of s))) s"
  unfolding taken_before_def by blast

lemma pipe_of_metrics: "p_metrics (pl_proc (pipe_of s)) = sh_metrics (co_shared (sr_collector s))"
  by (simp add: pipe_of_def with_shared_def)

lemma honest_step:
  assumes "reachable sr_init (sr_step ext) s" and "honest ext s" and st: "sr_step ext s t"
  shows "honest ext t"
proof -
  note old = taken_before_step [OF _ st] honest_response_step [OF _ st]
  have ms: "taken_before ext m t" if "ms \<in> set (sr_scrapes s)" "m \<in> set ms" for ms m
    using assms(2) that old(1) by (auto simp: honest_def)
  have rs: "honest_response ext t r" if "r \<in> set (mo_writing (io_monitor (sr_io s)))" for r
    using assms(2) that old(2) by (auto simp: honest_def)
  have now: "taken_before ext (sh_metrics (co_shared (sr_collector s))) t"
    using old(1) [OF taken_now [OF assms(1)]] by (simp add: pipe_of_metrics)
  show ?thesis using st
  proof cases
    case (sr_scrape_load xs as ys)
    with ms rs now show ?thesis by (auto simp: honest_def)
  next
    case (sr_scrape_respond xs as ys)
    then have "honest_response ext t (http_response (build_prometheus_text (\<lambda>i. as ! i)))"
      unfolding honest_response_def using ms [of as] by (intro exI [of _ "\<lambda>i. as ! i"]) simp
    with sr_scrape_respond ms rs show ?thesis by (auto simp: honest_def on_request_def)
  qed (use ms rs in \<open>auto simp: honest_def on_signal_def put_pipe_def on_mon_accept_def do_accept_def handle_request_def
      split: if_splits\<close>)
qed

lemma reachable_honest: "reachable sr_init (sr_step ext) s \<Longrightarrow> honest ext s"
proof (induction rule: reachable.induct)
  case (reach_init s)
  then show ?case by (auto simp: honest_def sr_init_def io_init_def Monitor_start_def Monitor_init_def do_accept_def elim!: mon_init.cases)
next
  case (reach_step s t)
  then show ?case by (blast intro: honest_step)
qed

section \<open>Two sample runs\<close>

lemma server_starts:
  "\<exists>sv :: (unit, unit, unit) server.
     main_start (\<lambda>_. True) (\<lambda>_. True) refusing_setup (\<lambda>_. None) ((), (), (), (\<lambda>_. None)) = Inr sv"
  using main_start_cases(3) [of "\<lambda>_. True" "\<lambda>_. True" refusing_setup "\<lambda>_. None" "((), (), (), (\<lambda>_. None))"]
  by (auto simp: bad_limiter_number_def)

text \<open>The handlers of a first session, run on the server.\<close>

definition arrived_body :: "completion \<Rightarrow> bytes multiset" where
  "arrived_body c = (case c of Body_done False b \<Rightarrow> {#b#} | _ \<Rightarrow> {#})"

lemma sr_session_steps:
  assumes r: "complete c s = Inr r" "enabled c (fst s)" and h: "sr_handlers t = []"
    and co: "co_sessions (sr_collector t) = [fst s]" "co_shared (sr_collector t) = snd s"
  shows "\<exists>u. (sr_step ext)\<^sup>*\<^sup>* t u \<and> sr_handlers u = [] \<and>
    co_sessions (sr_collector u) = [fst (registered r)] \<and> co_shared (sr_collector u) = snd (registered r) \<and>
    sr_pipe u = (sr_pipe t)\<lparr>pl_pushed := arrived_body c + pl_pushed (sr_pipe t)\<rparr>"
proof (cases "whole_handler c")
  case True
  have g: "get_session 0 t = s" by (simp add: get_session_def co)
  have "sr_step ext t (put_session 0 (registered r) t)"
    using True r h co by (intro sr_session [where c = c]) (simp_all add: g in_handler_def)
  then have "(sr_step ext)\<^sup>*\<^sup>* t (put_session 0 (registered r) t)" by (rule r_into_rtranclp)
  moreover have "arrived_body c = {#}" using True by (cases c rule: whole_handler.cases) (simp_all add: arrived_body_def)
  ultimately show ?thesis using co h by (intro exI [of _ "put_session 0 (registered r) t"]) simp
next
  case False
  then obtain b where c: "c = Body_done False b" by (cases c rule: whole_handler.cases) simp_all
  obtain ok v where v: "body_pushed b s = (ok, v)" by (cases "body_pushed b s")
  have g: "get_session 0 t = s" by (simp add: get_session_def co)
  let ?t = "note_arrival b (put_session 0 v (t\<lparr>sr_handlers := (0, ok, b) # sr_handlers t\<rparr>))"
  have t: "sr_step ext t ?t" using r(2) v co h by (intro sr_body_push) (simp_all add: g c in_handler_def)
  let ?u = "put_session 0 (registered (body_rest ok (get_session 0 ?t))) (?t\<lparr>sr_handlers := [] @ []\<rparr>)"
  have "sr_step ext ?t ?u" using co h by (intro sr_body_rest) simp_all
  with t have "(sr_step ext)\<^sup>*\<^sup>* t ?u" by (simp add: converse_rtranclp_into_rtranclp)
  moreover have "get_session 0 ?t = v" using co by (simp add: get_session_def)
  moreover have "registered r = registered (body_rest ok v)"
    using r(1) v
    by (auto simp: c on_body_parts body_pushed_def body_rest_def registered_def do_read_header_def split: prod.splits)
  ultimately show ?thesis using co by (intro exI [of _ ?u]) (simp add: c arrived_body_def note_arrival_def)
qed

lemma sr_session_run:
  assumes "session_run cs s reqs = Some (s', reqs')" and "sr_handlers t = []"
    and "co_sessions (sr_collector t) = [fst s]" and "co_shared (sr_collector t) = snd s"
  shows "\<exists>u. (sr_step ext)\<^sup>*\<^sup>* t u \<and> sr_handlers u = [] \<and> co_shared (sr_collector u) = snd s' \<and>
    sr_pipe u = (sr_pipe t)\<lparr>pl_pushed := sum_list (map arrived_body cs) + pl_pushed (sr_pipe t)\<rparr>"
  using assms
proof (induction cs arbitrary: s reqs t)
  case (Cons c cs)
  from Cons.prems(1) obtain r where r: "complete c s = Inr r" "enabled c (fst s)"
    and run: "session_run cs (registered r) (reqs @ snd r) = Some (s', reqs')"
    by (auto split: if_splits sum.splits)
  from sr_session_steps [OF r Cons.prems(2-4)] obtain u where u: "(sr_step ext)\<^sup>*\<^sup>* t u" "sr_handlers u = []"
    "co_sessions (sr_collector u) = [fst (registered r)]" "co_shared (sr_collector u) = snd (registered r)"
    "sr_pipe u = (sr_pipe t)\<lparr>pl_pushed := arrived_body c + pl_pushed (sr_pipe t)\<rparr>" by blast
  from Cons.IH [OF run u(2-4)] u(1,5) show ?case by (auto simp: ac_simps intro: rtranclp_trans)
qed auto

lemma one_message_arrives:
  assumes sv: "main_start bc bm su env services = Inr sv"
  shows "\<exists>t. (sr_step ext)\<^sup>*\<^sup>* (sr_start sv) t \<and> reachable sr_init (sr_step ext) t \<and>
    tsq_queue (p_queue (pl_proc (pipe_of t))) = [''hi''] \<and>
    sr_pipe t = (sr_pipe (sr_start sv))\<lparr>pl_pushed := {#''hi''#}\<rparr>"
proof -
  let ?s = "sr_start sv"
  have co: "sr_collector ?s = Collector_start (Collector_init fresh_shared)"
    using sv by (auto simp: sr_collector_def sr_start_def io_start_def main_start_def Let_def fresh_shared_def
        split: if_splits sum.splits)
  let ?t = "put_collector one_client ?s"
  have step: "sr_step ext ?s ?t"
    using sr_accept [of ?s plain_accept ext] co
    by (simp add: one_client_def Collector_start_def Collector_init_def)
  obtain s reqs where run: "session_run one_message (session_accept fresh_shared) Session_start = Some (s, reqs)"
    "tsq_queue (sh_queue (snd s)) = [''hi'']"
    using one_message_run by blast
  from sr_session_run [OF run(1), of ?t ext] obtain u where u: "(sr_step ext)\<^sup>*\<^sup>* ?t u" "sr_handlers u = []"
    "co_shared (sr_collector u) = snd s" "sr_pipe u = (sr_pipe ?s)\<lparr>pl_pushed := {#''hi''#}\<rparr>"
    by (auto simp: one_client_fields one_message_def arrived_body_def sr_start_def)
  from step u(1) have "(sr_step ext)\<^sup>*\<^sup>* ?s u" by (rule converse_rtranclp_into_rtranclp)
  with sr_reachable [OF sv this] u(3,4) run(2) show ?thesis
    by (auto simp: one_client_fields one_message_def arrived_body_def pipe_of_def sr_start_def with_shared_def)
qed

text \<open>Steps of the processor's threads are steps of the server.\<close>

lemma work_steps_run:
  assumes "(work_step ext)\<^sup>*\<^sup>* (pipe_of s) u" and "reachable sr_init (sr_step ext) s"
  shows "\<exists>t. reachable sr_init (sr_step ext) t \<and> pipe_of t = u"
  using assms(1)
proof (induction rule: rtranclp_induct)
  case base
  then show ?case using assms(2) by blast
next
  case (step u v)
  then obtain t where t: "reachable sr_init (sr_step ext) t" "pipe_of t = u" by blast
  with step.hyps(2) have "sr_step ext t (put_pipe v t)" by (intro sr_work) simp
  with t(1) have "reachable sr_init (sr_step ext) (put_pipe v t)" by (rule reach_step)
  then show ?case using pipe_of_work [of ext t v] step.hyps(2) t(2) by blast
qed

text \<open>A scrape right after the start.\<close>

lemma loads_reachable:
  assumes "reachable sr_init (sr_step ext) s" and "sr_scrapes s = [[]]" and "n \<le> 12"
  shows "reachable sr_init (sr_step ext) (s\<lparr>sr_scrapes := [replicate n (sh_metrics (co_shared (sr_collector s)))]\<rparr>)"
  using assms(3)
proof (induction n)
  case 0
  have "s\<lparr>sr_scrapes := [[]]\<rparr> = s" using assms(2) by (metis running.surjective running.update_convs(3))
  then show ?case using assms(1) by simp
next
  case (Suc n)
  let ?m = "sh_metrics (co_shared (sr_collector s))"
  let ?s = "s\<lparr>sr_scrapes := [replicate n ?m]\<rparr>"
  have "sr_step ext ?s (?s\<lparr>sr_scrapes := [] @ (replicate n ?m @ [sh_metrics (co_shared (sr_collector ?s))]) # []\<rparr>)"
    using Suc.prems by (intro sr_scrape_load) simp_all
  then have "sr_step ext ?s (s\<lparr>sr_scrapes := [replicate (Suc n) ?m]\<rparr>)" by (simp add: replicate_append_same)
  moreover have "reachable sr_init (sr_step ext) ?s" using Suc by simp
  ultimately show ?case by (rule reach_step [rotated])
qed

lemma one_scrape:
  "\<exists>t r. reachable sr_init (sr_step bare_ext) t \<and> mo_writing (io_monitor (sr_io t)) = [r] \<and> pl_pushed (pipe_of t) = {#}"
proof -
  obtain sv :: "(unit, unit, unit) server" where
    sv: "main_start (\<lambda>_. True) (\<lambda>_. True) refusing_setup (\<lambda>_. None) ((), (), (), (\<lambda>_. None)) = Inr sv"
    using server_starts by blast
  let ?R = "reachable sr_init (sr_step bare_ext)" and ?s = "sr_start sv"
  have mo: "io_monitor (sr_io ?s) = \<lparr>mo_accepts = 1, mo_reading = 0, mo_writing = []\<rparr>"
    using sv by (auto simp: sr_start_def io_start_def main_start_def Let_def Monitor_start_def Monitor_init_def do_accept_def
        split: if_splits sum.splits)
  have init: "?R ?s" by (rule sr_reachable [OF sv]) simp
  define a where "a = put_monitor \<lparr>mo_accepts = 1, mo_reading = 1, mo_writing = []\<rparr> ?s"
  have "sr_step bare_ext ?s a"
    using sr_scrape_accept [of ?s bare_ext False] mo by (simp add: a_def on_mon_accept_def do_accept_def handle_request_def)
  with init have ra: "?R a" by (rule reach_step)
  define b where "b = put_monitor \<lparr>mo_accepts = 1, mo_reading = 0, mo_writing = []\<rparr> (a\<lparr>sr_scrapes := [[]]\<rparr>)"
  have "sr_step bare_ext a b"
    using sr_scrape_begin [of a bare_ext False] by (simp add: a_def b_def sr_start_def)
  with ra have rb: "?R b" by (rule reach_step)
  define c where "c = b\<lparr>sr_scrapes := [replicate 12 (sh_metrics (co_shared (sr_collector b)))]\<rparr>"
  have rc: "?R c" unfolding c_def by (rule loads_reachable [OF rb]) (simp_all add: b_def)
  define r where "r = http_response (build_prometheus_text
    (\<lambda>i. replicate 12 (sh_metrics (co_shared (sr_collector b))) ! i))"
  define d where "d = put_monitor \<lparr>mo_accepts = 1, mo_reading = 0, mo_writing = [r]\<rparr> (c\<lparr>sr_scrapes := []\<rparr>)"
  have "sr_scrapes c = [] @ replicate 12 (sh_metrics (co_shared (sr_collector b))) # []" by (simp add: c_def)
  from sr_scrape_respond [OF this, of bare_ext] have "sr_step bare_ext c d"
    by (simp add: d_def r_def on_request_def) (simp add: c_def b_def put_monitor_def)
  with rc have "?R d" by (rule reach_step)
  moreover have "mo_writing (io_monitor (sr_io d)) = [r]" "pl_pushed (pipe_of d) = {#}"
    by (simp_all add: d_def c_def b_def a_def pipe_of_def sr_start_def)
  ultimately show ?thesis by blast
qed

section \<open>Properties\<close>

text \<open>
  C1: no message is lost or duplicated in the running server.  However accept loop, sessions,
  workers, flush thread, poll thread, monitor and signal interleave, there is a run of the
  ledger that matches.  Every message a session has read is in exactly one place (refused by the
  queue but not counted yet, dropped, queued, held by a worker, unparsable, rejected, rate
  limited, left to Kafka for want of a storage, buffered, being flushed, stored, handed to the dead
  letter file, or given up because that file did not open); it got there along the places the
  specification allows, and each place only holds messages that meet its condition: the
  unparsable do not parse, the rejected parse and fail the validation, those beyond the checks
  passed them.  The places a message passes through are the contents of queue, workers, buffer and
  flushes; as long as fewer than \<open>2^64\<close> messages have come, each of the six counters of fates is the
  number of messages in its place; and the places without a counter are the messages recorded where
  the code lets go of them, of which the first kind exists only in a server without storage.  When
  nothing is under way the counters and those messages add up to all messages.
\<close>

theorem server_refines_ledger:
  assumes "reachable sr_init (sr_step ext) s"
  shows "\<exists>L. reachable ledger_init (ledger_step (fits ext)) L \<and> ledger_match (pipe_of s) L \<and>
    pl_pushed (pipe_of s) = (\<Sum>p\<in>UNIV. lg_at L p) \<and> well_placed (fits ext) L \<and>
    (size (pl_pushed (pipe_of s)) < 2 ^ 64 \<longrightarrow>
      (\<forall>c\<in>fate_counters. unat (pl_count c (pipe_of s)) = size (lg_at L (fate_of c)))) \<and>
    (pl_unstored (pipe_of s) = {#} \<or> p_storage (pl_proc (pipe_of s)) = None) \<and>
    (at_rest (pipe_of s) \<and> size (pl_pushed (pipe_of s)) < 2 ^ 64 \<longrightarrow>
      size (pl_pushed (pipe_of s)) = unat (pl_count Total_queue_drop (pipe_of s))
        + unat (pl_count Total_parse_fail (pipe_of s)) + unat (pl_count Total_invalid (pipe_of s))
        + unat (pl_count Total_rate_limited (pipe_of s)) + unat (pl_count Total_stored (pipe_of s))
        + unat (pl_count Total_store_dead (pipe_of s)) + size (pl_unstored (pipe_of s)) + size (pl_lost (pipe_of s)))"
proof -
  from srp.reachable_match [OF assms] have "reachable pl_init (pl_step ext) (pipe_of s)" by blast
  from psl.reachable_match [OF this] obtain L where
    L: "reachable ledger_init (ledger_step (fits ext)) L" "ledger_match (pipe_of s) L" unfolding tracked_def by blast
  have inv: "ledger_inv L" "well_placed (fits ext) L"
    by (rule lgi.reachable_inv [OF L(1)], rule lgw.reachable_inv [OF L(1)])
  moreover have "pl_pushed (pipe_of s) = (\<Sum>p\<in>UNIV. lg_at L p)"
    "pl_unstored (pipe_of s) = {#} \<or> p_storage (pl_proc (pipe_of s)) = None"
    using L(2) inv by (auto simp: ledger_match_def ledger_inv_def)
  ultimately show ?thesis using rest_counts [OF L(2) inv(1)] fate_exact [OF L(2) inv(1)] L by blast
qed

theorem server_refines_ledger_witness:
  "\<exists>s L. reachable sr_init (sr_step bare_ext) s \<and> pl_pushed (pipe_of s) = {#''hi''#} \<and>
     reachable ledger_init (ledger_step (fits bare_ext)) L \<and> (\<Sum>p\<in>UNIV. lg_at L p) = {#''hi''#}"
proof -
  obtain sv :: "(unit, unit, unit) server" where
    "main_start (\<lambda>_. True) (\<lambda>_. True) refusing_setup (\<lambda>_. None) ((), (), (), (\<lambda>_. None)) = Inr sv"
    using server_starts by blast
  from one_message_arrives [OF this, of bare_ext] obtain s where
    s: "reachable sr_init (sr_step bare_ext) s" "pl_pushed (pipe_of s) = {#''hi''#}"
    by (auto simp: pipe_of_def)
  from server_refines_ledger [OF s(1)] obtain L where
    "reachable ledger_init (ledger_step (fits bare_ext)) L" "pl_pushed (pipe_of s) = (\<Sum>p\<in>UNIV. lg_at L p)" by blast
  with s show ?thesis by metis
qed

text \<open>
  C26: a scrape of the running server is well formed and never ahead of the truth.  Every
  response the monitor is writing reads back, by its \<open>Content-Length\<close> and as Prometheus
  samples, as the counters of twelve moments of the past; and as long as fewer than \<open>2^64\<close>
  messages have come, each of the nine counters of messages it reports (drops, received, parsed,
  unparsable, valid, invalid, rate limited, stored, dead-lettered) is at most its present value
  (so these exported counters never decrease), although other threads run between the loads.
\<close>

theorem scrape_reports_past:
  assumes "reachable sr_init (sr_step ext) t" and "r \<in> set (mo_writing (io_monitor (sr_io t)))"
    and "size (pl_pushed (pipe_of t)) < 2 ^ 64"
  shows "\<exists>m body. http_receive r = Some (''HTTP/1.1 200 OK'', body, []) \<and> parse_samples body = exported_samples m \<and>
    (\<forall>i<12. taken_before ext (m i) t \<and>
      (\<forall>c\<in>message_counters. unat (load c (m i)) \<le> unat (pl_count c (pipe_of t))))"
proof -
  from reachable_honest [OF assms(1)] assms(2) obtain m where
    r: "r = http_response (build_prometheus_text m)" and m: "\<forall>i<12. taken_before ext (m i) t"
    by (auto simp: honest_def honest_response_def)
  have "unat (load c (m i)) \<le> unat (pl_count c (pipe_of t))" if "i < 12" "c \<in> message_counters" for i c
  proof -
    from m that(1) obtain s where s: "reachable sr_init (sr_step ext) s" "(sr_step ext)\<^sup>*\<^sup>* s t"
      "m i = p_metrics (pl_proc (pipe_of s))" by (auto simp: taken_before_def)
    have "reachable pl_init (pl_step ext) (pipe_of s)" using srp.reachable_match [OF s(1)] by blast
    moreover have "(pl_step ext)\<^sup>*\<^sup>* (pipe_of s) (pipe_of t)" using srp.steps_match [OF s(2) refl] by blast
    ultimately have "unat (pl_count c (pipe_of s)) \<le> unat (pl_count c (pipe_of t))"
      using message_monotone assms(3) that(2) by blast
    then show ?thesis by (simp add: pl_count_def s(3))
  qed
  with m r show ?thesis
    using http_receive_response [of "build_prometheus_text m" "[]"] parse_samples_text [of m]
    by (intro exI [of _ m] exI [of _ "build_prometheus_text m"]) simp
qed

theorem scrape_reports_past_witness:
  "\<exists>t r body. reachable sr_init (sr_step bare_ext) t \<and> r \<in> set (mo_writing (io_monitor (sr_io t))) \<and>
     http_receive r = Some (''HTTP/1.1 200 OK'', body, [])"
proof -
  obtain t r where t: "reachable sr_init (sr_step bare_ext) t" "mo_writing (io_monitor (sr_io t)) = [r]"
    "pl_pushed (pipe_of t) = {#}" using one_scrape by blast
  then have r: "r \<in> set (mo_writing (io_monitor (sr_io t)))" and n: "size (pl_pushed (pipe_of t)) < 2 ^ 64" by simp_all
  from scrape_reports_past [OF t(1) r n] t(1) r show ?thesis by blast
qed

text \<open>
  C21: the graceful shutdown is never reached.  From a started server, after any handlers and
  any actions of the processor's threads, the signal handler included, an accept of the
  collector is registered; so with the documented behaviour of \<open>run\<close>, which returns only when no
  work is left, \<open>main\<close> never gets to \<open>processor.stop()\<close>.  Such an accept can always fail, on the
  closed acceptor it must, and then registers the next at once and leaves the server as it was:
  a busy loop.
\<close>

theorem shutdown_never_completes:
  assumes "main_start bc bm su env services = Inr sv" and "(sr_step ext)\<^sup>*\<^sup>* (sr_start sv) s"
    and "\<forall>s. run_returns s \<longrightarrow> outstanding s = 0"
  shows "main_finish run_returns ext envs stop_env (sr_io s) (pl_proc (pipe_of s)) = None \<and>
    (\<exists>accept. sr_step ext s (put_collector (on_accept accept
        ((sr_collector s)\<lparr>co_accepts := co_accepts (sr_collector s) - 1\<rparr>)) s) \<and>
      put_collector (on_accept accept ((sr_collector s)\<lparr>co_accepts := co_accepts (sr_collector s) - 1\<rparr>)) s = s)"
proof
  have inv: "io_inv (sr_io s)" by (rule sri.reachable_inv [OF sr_reachable [OF assms(1,2)]])
  with assms(3) io_inv_works show "main_finish run_returns ext envs stop_env (sr_io s) (pl_proc (pipe_of s)) = None"
    by (fastforce simp: main_finish_def)
  let ?e = "plain_accept\<lparr>ac_ec := True\<rparr>"
  let ?t = "put_collector (on_accept ?e ((sr_collector s)\<lparr>co_accepts := co_accepts (sr_collector s) - 1\<rparr>)) s"
  have a: "co_accepts (sr_collector s) = 1" using inv by (simp add: io_inv_def coll_inv_def sr_collector_def)
  have "on_accept ?e ((sr_collector s)\<lparr>co_accepts := co_accepts (sr_collector s) - 1\<rparr>) = sr_collector s"
    using a by (rule accept_error_spins) simp
  then have "?t = s" by (simp add: put_collector_def sr_collector_def)
  moreover have "sr_step ext s ?t" by (rule sr_accept) (simp_all add: a)
  ultimately show "\<exists>accept. sr_step ext s (put_collector (on_accept accept
        ((sr_collector s)\<lparr>co_accepts := co_accepts (sr_collector s) - 1\<rparr>)) s) \<and>
      put_collector (on_accept accept ((sr_collector s)\<lparr>co_accepts := co_accepts (sr_collector s) - 1\<rparr>)) s = s"
    by blast
qed

text \<open>The server after a signal: acceptor closed, guard released, no connection.\<close>

lemma signalled_server:
  "\<exists>s. (sr_step ext)\<^sup>*\<^sup>* (sr_start sv) s \<and> \<not> io_guard (sr_io s) \<and> \<not> co_open (sr_collector s)"
proof (intro exI conjI)
  let ?s = "(sr_start sv)\<lparr>sr_io := on_signal False ((io_start sv)\<lparr>io_signal := False\<rparr>)\<rparr>"
  have "sr_step ext (sr_start sv) ((sr_start sv)\<lparr>sr_io := on_signal False ((sr_io (sr_start sv))\<lparr>io_signal := False\<rparr>)\<rparr>)"
    by (rule sr_signal) (simp add: sr_start_def io_start_def)
  then show "(sr_step ext)\<^sup>*\<^sup>* (sr_start sv) ?s" by (intro r_into_rtranclp) (simp add: sr_start_def)
  show "\<not> io_guard (sr_io ?s)" "\<not> co_open (sr_collector ?s)"
    by (simp_all add: on_signal_def Collector_stop_def sr_collector_def)
qed

theorem shutdown_never_completes_witness:
  "\<exists>sv s. main_start (\<lambda>_. True) (\<lambda>_. True) refusing_setup (\<lambda>_. None) ((), (), (), (\<lambda>_. None)) = Inr sv \<and>
     (sr_step bare_ext)\<^sup>*\<^sup>* (sr_start sv) s \<and> \<not> io_guard (sr_io s) \<and> \<not> co_open (sr_collector s) \<and>
     main_finish (\<lambda>s. outstanding s = 0) bare_ext (\<lambda>_. sample_env) sample_env (sr_io s) (pl_proc (pipe_of s)) = None"
proof -
  obtain sv :: "(unit, unit, unit) server" where
    sv: "main_start (\<lambda>_. True) (\<lambda>_. True) refusing_setup (\<lambda>_. None) ((), (), (), (\<lambda>_. None)) = Inr sv"
    using server_starts by blast
  obtain s where s: "(sr_step bare_ext)\<^sup>*\<^sup>* (sr_start sv) s" "\<not> io_guard (sr_io s)" "\<not> co_open (sr_collector s)"
    using signalled_server by blast
  from shutdown_never_completes [OF sv s(1), of "\<lambda>s. outstanding s = 0" "\<lambda>_. sample_env" sample_env]
  have "main_finish (\<lambda>s. outstanding s = 0) bare_ext (\<lambda>_. sample_env) sample_env (sr_io s) (pl_proc (pipe_of s)) = None"
    by simp
  with sv s show ?thesis by blast
qed

end
