(* ===== verification/Stored_Rows.thy ===== *)
theory Stored_Rows
  imports Server_Run
begin

text \<open>
  What ClickHouse is given.  The table \<open>events\<close> of \<open>init/clickhouse-schema.sql\<close> fixes names,
  order and types of the columns; the block that \<open>Storage::do_flush\<close> builds has to fit it.  In the
  running server only messages that have been parsed and validated reach the storage, so the
  rows also hold what the events say: the fallback row for a message that does not parse is
  never written, and the conversion of the time stamp to an unsigned value loses nothing.
\<close>

section \<open>The table\<close>

datatype ch_type = CH_String | CH_UInt64

definition events_table :: "(string \<times> ch_type) list" where
  "events_table = [(''event_id'', CH_String), (''user_id'', CH_String), (''event_type'', CH_String),
     (''platform'', CH_String), (''ts'', CH_UInt64), (''payload'', CH_String)]"

fun column_type :: "column \<Rightarrow> ch_type" where
  "column_type (ColumnString _) = CH_String"
| "column_type (ColumnUInt64 _) = CH_UInt64"

fun column_length :: "column \<Rightarrow> nat" where
  "column_length (ColumnString xs) = length xs"
| "column_length (ColumnUInt64 ns) = length ns"

text \<open>The columns of the table in its order, each with one cell for every row.\<close>

definition block_fits :: "(string \<times> ch_type) list \<Rightarrow> nat \<Rightarrow> block \<Rightarrow> bool" where
  "block_fits table rows block \<longleftrightarrow>
     map (\<lambda>(name, c). (name, column_type c)) block = table \<and> list_all (\<lambda>(name, c). column_length c = rows) block"

lemma columns_of_rows:
  "build_columns parse batch =
     (let rows = map (row_of parse) batch in
      \<lparr>event_id_col = map event_id rows, user_id_col = map user_id rows, event_type_col = map event_type rows,
       platform_col = map platform rows, ts_col = map ts rows, payload_col = map payload rows\<rparr>)"
  by (simp add: build_columns_def fold_append_row no_columns_def Let_def)

lemma block_fits_batch: "block_fits events_table (length batch) (make_block (build_columns parse batch))"
  by (simp add: block_fits_def events_table_def columns_of_rows make_block_def Let_def)

section \<open>The flushes under way\<close>

text \<open>The workers' and the flush thread's.\<close>

definition flushing :: "flush \<Rightarrow> ('r, 'k, 'c) pipeline \<Rightarrow> bool" where
  "flushing f s \<longleftrightarrow> Flushing f \<in> set (pl_workers s) \<or> pl_flusher s = Some f"

lemma flushing_vetted: "store_vetted ext s \<Longrightarrow> flushing f s \<Longrightarrow> list_all (vetted ext) (flush_batch f)"
  by (auto simp: store_vetted_def flushing_def list_all_iff flusher_vetted_def split: option.splits)

section \<open>Properties\<close>

text \<open>
  C24: ClickHouse is given well-typed rows of valid events only.  For every batch any thread of
  the running server is flushing, the block has the columns of the table \<open>events\<close>, by name,
  order and type, with one cell for each message; and row \<open>i\<close> is the parsed event of message
  \<open>i\<close>: it names a user and a type, and its unsigned time stamp is the event's positive one.
\<close>

theorem stored_rows_typed:
  assumes "reachable sr_init (sr_step ext) s" and "flushing f (pipe_of s)" and "i < length (flush_batch f)"
  shows "let cols = build_columns (parse_event (px_store ext)) (flush_batch f)
    in block_fits events_table (length (flush_batch f)) (make_block cols) \<and>
       (\<exists>evt. parse_event (px_store ext) (flush_batch f ! i) = Some evt \<and>
          event_id_col cols ! i = event_id evt \<and> user_id_col cols ! i = user_id evt \<and> user_id evt \<noteq> [] \<and>
          event_type_col cols ! i = event_type evt \<and> event_type evt \<noteq> [] \<and>
          platform_col cols ! i = platform evt \<and> payload_col cols ! i = payload evt \<and>
          uint (ts_col cols ! i) = sint (ts evt) \<and> 0 < sint (ts evt))"
proof -
  have "reachable pl_init (pl_step ext) (pipe_of s)" using srp.reachable_match [OF assms(1)] by blast
  then have "vetted ext (flush_batch f ! i)"
    using flushing_vetted [OF svi.reachable_inv assms(2)] assms(3) by (simp add: list_all_length)
  then obtain evt time where e: "parse_event (px_store ext) (flush_batch f ! i) = Some evt" "validate_event time evt"
    by (auto simp: vetted_def validate_def)
  have "event_type evt \<noteq> []" using e(2) by (auto simp: validate_event_def split: if_splits)
  with e valid_ts_unsigned [OF e(2)] valid_user_nonempty [OF e(2)] assms(3) show ?thesis
    by (simp add: Let_def block_fits_batch) (simp add: columns_of_rows row_of_def)
qed

text \<open>A server with ClickHouse enabled, whose flush thread takes the first valid message.\<close>

definition hi_ext :: "(unit, unit, unit) proc_ext" where
  "hi_ext = bare_ext\<lparr>px_store := (px_store bare_ext)
     \<lparr>parse_event := (\<lambda>d. if d = ''hi'' then Some sample_event else None)\<rparr>\<rparr>"

definition storing_environ :: environ where
  "storing_environ = [''EVENT_COLLECTOR_ENABLE_CLICKHOUSE'' \<mapsto> ''1'']"

lemma storing_server:
  "\<exists>sv :: (unit, unit, unit) server.
     main_start (\<lambda>_. True) (\<lambda>_. True) (refusing_setup\<lparr>su_connect := \<lambda>_ _. True\<rparr>) storing_environ
       ((), (), (), (\<lambda>_. None)) = Inr sv \<and>
     p_storage (sv_processor sv) = Some Storage_init \<and> p_limiter (sv_processor sv) = None \<and>
     p_producer (sv_processor sv) = None"
  by (simp add: main_start_def Processor_new_def storage_setup_def limiter_setup_def Storage_new_def kafka_setup_def
      storing_environ_def refusing_setup_def Let_def)

lemma worker_waits: "at_stage 0 Waiting (pipe_of (sr_start sv))" if "main_start bc bm su env services = Inr sv"
proof -
  have "sv_threads sv = Processor_start (worker_count env) (sv_processor sv)"
    using that by (auto simp: main_start_def Let_def split: if_splits sum.splits)
  moreover have "0 < unat (worker_count env)" using worker_count_bounds [of env] by linarith
  ultimately show ?thesis
    by (simp add: at_stage_def pipe_of_def sr_start_def Processor_start_def)
qed

lemma hi_is_buffered:
  assumes "p_storage p = Some Storage_init" and "p_limiter p = None" and "p_producer p = None"
  shows "\<exists>p'. work_event hi_ext sample_env ''hi'' p = Inr p' \<and> p_storage p' = Some (Storage_init\<lparr>st_buffer := [''hi'']\<rparr>)"
  using assms sample_valid
  by (simp add: work_event_def hi_ext_def check_limit_def deliver_def kafka_event_def produce_to_kafka_def
      save_event_def save_def save_locked_def Storage_init_def BATCH_SIZE_def flush_opt_def put_store_def Let_def)

lemma hi_is_flushed: "\<exists>t. reachable sr_init (sr_step hi_ext) t \<and> flushing (start_flush [''hi'']) (pipe_of t)"
proof -
  obtain sv :: "(unit, unit, unit) server" where sv: "main_start (\<lambda>_. True) (\<lambda>_. True)
      (refusing_setup\<lparr>su_connect := \<lambda>_ _. True\<rparr>) storing_environ ((), (), (), (\<lambda>_. None)) = Inr sv"
    and p: "p_storage (sv_processor sv) = Some Storage_init" "p_limiter (sv_processor sv) = None"
      "p_producer (sv_processor sv) = None"
    using storing_server by blast
  from one_message_arrives [OF sv, of hi_ext] obtain t where t: "reachable sr_init (sr_step hi_ext) t"
    "tsq_queue (p_queue (pl_proc (pipe_of t))) = [''hi'']" "sr_pipe t = (sr_pipe (sr_start sv))\<lparr>pl_pushed := {#''hi''#}\<rparr>"
    by blast
  let ?q = "(p_queue (pl_proc (pipe_of t)))\<lparr>tsq_queue := []\<rparr>"
  define u where "u = move 0 (Popped ''hi'') ((pl_proc (pipe_of t))\<lparr>p_queue := ?q\<rparr>)
    ((pipe_of t)\<lparr>pl_popped := Suc (pl_popped (pipe_of t))\<rparr>)"
  have a: "at_stage 0 Waiting (pipe_of t)"
    using worker_waits [OF sv] t(3) by (simp add: at_stage_def pipe_of_def)
  have pop: "work_step hi_ext (pipe_of t) u"
    unfolding u_def by (rule work_worker [OF pl_pop [OF a]]) (simp add: try_pop_def t(2))
  have au: "at_stage 0 (Popped ''hi'') u" using a by (simp add: u_def at_stage_def move_def)
  have pu: "p_storage (pl_proc u) = Some Storage_init" "p_limiter (pl_proc u) = None" "p_producer (pl_proc u) = None"
    "pl_flusher u = None"
    using p t(3) by (simp_all add: u_def pipe_of_def with_shared_def sr_start_def)
  from hi_is_buffered [OF pu(1-3)] obtain p' where p': "work_event hi_ext sample_env ''hi'' (pl_proc u) = Inr p'"
    "p_storage p' = Some (Storage_init\<lparr>st_buffer := [''hi'']\<rparr>)" by blast
  from work_event_steps [OF au p'(1)] pu(4) obtain v where v': "(worker_step hi_ext 0)\<^sup>*\<^sup>* u v" and v: "pl_proc v = p'" "pl_flusher v = None"
    by (auto simp: ends_with_def)
  have vs: "(work_step hi_ext)\<^sup>*\<^sup>* u v" by (rule mono_rtranclp [rule_format, OF _ v']) (rule work_worker)
  define w where "w = v\<lparr>pl_flusher := Some (start_flush [''hi'']), pl_proc := (pl_proc v)\<lparr>p_storage := Some Storage_init\<rparr>\<rparr>"
  have "work_step hi_ext v w"
    unfolding w_def by (rule work_flusher [OF pl_swap [OF v(2), of "Storage_init\<lparr>st_buffer := [''hi'']\<rparr>"]])
      (simp_all add: v(1) p'(2) swap_locked_def, simp add: Storage_init_def)
  with pop vs have "(work_step hi_ext)\<^sup>*\<^sup>* (pipe_of t) w"
    by (meson converse_rtranclp_into_rtranclp rtranclp.rtrancl_into_rtrancl)
  from work_steps_run [OF this t(1)] obtain s where "reachable sr_init (sr_step hi_ext) s" "pipe_of s = w" by blast
  moreover have "flushing (start_flush [''hi'']) w" by (simp add: flushing_def w_def)
  ultimately show ?thesis by metis
qed

theorem stored_rows_typed_witness:
  "\<exists>s. reachable sr_init (sr_step hi_ext) s \<and> flushing (start_flush [''hi'']) (pipe_of s) \<and>
     block_fits events_table 1 (make_block (build_columns (parse_event (px_store hi_ext)) [''hi'']))"
proof -
  obtain s where s: "reachable sr_init (sr_step hi_ext) s" "flushing (start_flush [''hi'']) (pipe_of s)"
    using hi_is_flushed by blast
  have "0 < length (flush_batch (start_flush [''hi'']))" by (simp add: start_flush_def)
  from stored_rows_typed [OF s this] s show ?thesis by (auto simp: Let_def start_flush_def)
qed

end
