(* ===== verification/Kafka_Counts.thy ===== *)
theory Kafka_Counts
  imports Server_Run
begin

text \<open>
  The two counters of Kafka in the running server.  The callback's pointer is null in every
  configuration the constructor builds (\<open>delivery_report_crashes\<close>), so a server that still runs has
  served no delivery report: its success counter is zero, and its failure counter counts the
  events the local buffer refused twice.  With the other ten counters this gives what Prometheus
  requires of the metrics of type \<open>counter\<close>: none decreases.
\<close>

section \<open>Production without reports\<close>

lemma kafka_poll_null: "kafka_poll lib Opaque_null (k, m) = Inr (k', m') \<Longrightarrow> m' = m"
  by (auto simp: kafka_poll_def serve_reports_null Let_def split: prod.splits sum.splits if_splits)

lemma kafka_act_null:
  assumes "kafka_act ext evt d a p = Inr (r, p')" and "px_opaque ext = Opaque_null"
  shows "p_metrics p' = (if a = Refused then fetch_add Total_kafka_fail 1 (p_metrics p) else p_metrics p)"
    and "a = Refused \<Longrightarrow> r = None"
  using assms
  by (cases a; auto simp: kafka_act_def Let_def split: sum.splits option.splits prod.splits if_splits dest: kafka_poll_null)+

section \<open>The invariant\<close>

text \<open>Each failure counted is of one admitted event that has left the production.\<close>

definition kafka_inv :: "('r, 'k, 'c) pipeline \<Rightarrow> bool" where
  "kafka_inv s \<longleftrightarrow> pl_count Total_kafka_ok s = 0 \<and>
     ncount Total_kafka_fail s + nstaged is_producing s \<le> pl_admitted s"

definition kafka_kept :: "('r, 'k, 'c) pipeline \<Rightarrow> ('r, 'k, 'c) pipeline \<Rightarrow> bool" where
  "kafka_kept s t \<longleftrightarrow> kafka_inv t \<and> ncount Total_kafka_fail s \<le> ncount Total_kafka_fail t"

lemma producing_stages [simp]: "\<not> is_producing (after_flush f)" "is_producing (after_produce d evt r) \<longleftrightarrow> r \<noteq> None"
  by (simp_all add: after_flush_def after_produce_def split: option.splits)

lemma admitted_small: "pl_exact s \<Longrightarrow> pl_admitted s \<le> size (pl_pushed s)"
  by (simp add: pl_exact_def)

lemma kafka_move:
  assumes inv: "kafka_inv s" and a: "at_stage i old s" and s': "pl_workers s' = pl_workers s"
    and adm: "pl_admitted s' + (if is_producing old then 1 else 0) = pl_admitted s + (if is_producing new then 1 else 0)
      \<or> pl_admitted s' = pl_admitted s \<and> is_producing old \<and> \<not> is_producing new"
    and m: "load Total_kafka_ok (p_metrics p) = pl_count Total_kafka_ok s"
      "load Total_kafka_fail (p_metrics p) = pl_count Total_kafka_fail s"
  shows "kafka_kept s (move i new p s')"
proof -
  have a': "at_stage i old s'" using a s' by (simp add: at_stage_def)
  have n: "nstaged is_producing s' = nstaged is_producing s" using s' by (simp add: nstaged_def)
  show ?thesis
    using inv adm nstaged_move(1) [OF a', of is_producing new p] n nstaged_move(2) [OF a, of is_producing]
    by (auto simp: kafka_kept_def kafka_inv_def ncount_def m split: if_splits)
qed

lemma kafka_produced:
  assumes inv: "kafka_inv s" and e: "pl_exact s" "small s" and a: "at_stage i (Producing d evt Refused) s"
    and p: "p_metrics p = fetch_add Total_kafka_fail 1 (p_metrics (pl_proc s))"
  shows "kafka_kept s (move i (Produced d) p s)"
proof -
  have n: "0 < nstaged is_producing s" by (rule nstaged_move(2) [OF a]) simp
  then have "ncount Total_kafka_fail s + 1 < 2 ^ 64"
    using inv e admitted_small [OF e(1)] by (simp add: kafka_inv_def small_def)
  then have "ncount Total_kafka_fail (move i (Produced d) p s) = ncount Total_kafka_fail s + 1"
    using unat_inc [of "load Total_kafka_fail (p_metrics (pl_proc s))"] by (simp add: ncount_load p)
  then show ?thesis
    using inv n nstaged_move(1) [OF a, of is_producing "Produced d" p]
    by (simp add: kafka_kept_def kafka_inv_def pl_count_def p)
qed

lemma kafka_worker:
  assumes op: "px_opaque ext = Opaque_null" and inv: "kafka_inv s" and e: "pl_exact s" "small s"
    and w: "worker_step ext i s t"
  shows "kafka_kept s t"
  using w
proof cases
  case (pl_produce d evt a r p)
  note k = kafka_act_null [OF pl_produce(3) op]
  show ?thesis
  proof (cases "a = Refused")
    case True
    with k have r: "r = None" and m: "p_metrics p = fetch_add Total_kafka_fail 1 (p_metrics (pl_proc s))" by simp_all
    show ?thesis unfolding pl_produce(1) r
      using kafka_produced [OF inv e pl_produce(2) [unfolded True] m] by (simp add: after_produce_def)
  next
    case False
    then show ?thesis unfolding pl_produce(1)
      by (intro kafka_move [OF inv pl_produce(2)]) (use k in \<open>auto simp: pl_count_def\<close>)
  qed
next
  case (pl_deny d evt env p)
  show ?thesis unfolding pl_deny(1)
    by (rule kafka_move [OF inv pl_deny(2)]) (use check_limit_keeps [OF pl_deny(3)] in \<open>simp_all add: pl_count_def\<close>)
next
  case (pl_admit d evt env p)
  show ?thesis unfolding pl_admit(1)
    by (rule kafka_move [OF inv pl_admit(2)]) (use check_limit_keeps [OF pl_admit(3)] in \<open>simp_all add: pl_count_def\<close>)
next
  case (pl_flush f env r w)
  show ?thesis unfolding pl_flush(1)
    by (rule kafka_move [OF inv pl_flush(2)])
      (use flush_act_load [OF pl_flush(3)] in \<open>simp_all add: pl_count_def put_world_def store_world_of_def split: flush.splits\<close>)
qed (hypsubst, (erule kafka_move [OF inv]; simp add: pl_count_def))+

lemma kafka_same:
  assumes "kafka_inv s" and "pl_workers t = pl_workers s" and "pl_admitted t = pl_admitted s"
    and "pl_count Total_kafka_ok t = pl_count Total_kafka_ok s" "pl_count Total_kafka_fail t = pl_count Total_kafka_fail s"
  shows "kafka_kept s t"
  using assms by (simp add: kafka_kept_def kafka_inv_def ncount_def nstaged_def)

lemma kafka_step:
  assumes op: "px_opaque ext = Opaque_null" and inv: "kafka_inv s" and e: "pl_exact s" "small s" and st: "pl_step ext s t"
  shows "kafka_kept s t"
  using st
proof cases
  case pl_work
  then show ?thesis
  proof cases
    case (work_worker i)
    with kafka_worker [OF op inv e] show ?thesis by blast
  next
    case work_flusher
    then show ?thesis
    proof cases
      case (pl_flush_thread f env r w)
      with flush_act_load [OF pl_flush_thread(3)] show ?thesis
        by (intro kafka_same [OF inv]) (simp_all add: pl_count_def put_world_def store_world_of_def split: flush.splits)
    qed (auto intro!: kafka_same [OF inv] simp: pl_count_def)
  next
    case work_poll
    then show ?thesis
    proof cases
      case (pl_poll k m)
      then have "m = p_metrics (pl_proc s)" using op by (auto dest: kafka_poll_null)
      with pl_poll(1) show ?thesis by (intro kafka_same [OF inv]) (simp_all add: pl_count_def)
    qed
  qed
qed (auto intro!: kafka_same [OF inv] simp: pl_count_def)

lemma kafka_reachable:
  assumes "px_opaque ext = Opaque_null" and "reachable pl_init (pl_step ext) s" and "small s"
  shows "kafka_inv s"
  using assms(2,3)
proof (induction rule: reachable.induct)
  case (reach_init s)
  then show ?case
    by (auto simp: kafka_inv_def pl_init_def pl_count_def ncount_load nstaged_def list_all_iff filter_empty_conv)
next
  case (reach_step s t)
  note small = small_before [OF reach_step.hyps(2) reach_step.prems]
  from kafka_step [OF assms(1) reach_step.IH [OF small] exact_reachable [OF reach_step.hyps(1) small] small reach_step.hyps(2)]
  show ?case by (simp add: kafka_kept_def)
qed

lemma kafka_monotone:
  assumes "px_opaque ext = Opaque_null" and "(pl_step ext)\<^sup>*\<^sup>* s t" and "reachable pl_init (pl_step ext) s" and "small t"
  shows "ncount Total_kafka_fail s \<le> ncount Total_kafka_fail t"
  using assms(2,4)
proof (induction rule: rtranclp_induct)
  case (step u v)
  note small = small_before [OF step.hyps(2) step.prems]
  have r: "reachable pl_init (pl_step ext) u" using step.hyps(1) assms(3) by (rule reachable_steps)
  from kafka_step [OF assms(1) kafka_reachable [OF assms(1) r small] exact_reachable [OF r small] small step.hyps(2)]
    step.IH [OF small]
  show ?case by (simp add: kafka_kept_def)
qed simp

section \<open>All twelve counters\<close>

lemma every_counter: "c \<in> message_counters \<or> c = Total_kafka_ok \<or> c = Total_kafka_fail \<or> c = Total_store_fail"
  by (cases c) (simp_all add: message_counters_def exact_counters_def fate_counters_def)

lemma counters_monotone:
  assumes "px_opaque ext = Opaque_null" and s: "reachable pl_init (pl_step ext) s" and st: "(pl_step ext)\<^sup>*\<^sup>* s t"
    and b: "size (pl_pushed t) < 2 ^ 64"
  shows "unat (pl_count c s) \<le> unat (pl_count c t)"
proof -
  have t: "reachable pl_init (pl_step ext) t" by (rule reachable_steps [OF st s])
  have small: "small t" "small s"
    using b size_mset_mono [OF pl_pushed_steps [OF st]] by (simp_all add: small_def)
  have "pl_count Total_kafka_ok u = 0" "pl_count Total_store_fail u = 0" if "reachable pl_init (pl_step ext) u" "small u" for u
    using kafka_reachable [OF assms(1) that] pli.reachable_inv [OF that(1)] by (simp_all add: kafka_inv_def pl_inv_def)
  with every_counter [of c] message_monotone [OF s st b, of c] kafka_monotone [OF assms(1) st s small(1)] s small(2)
  show ?thesis by (auto simp: ncount_def)
qed

lemma started_conf:
  assumes "main_start bc bm su env services = Inr sv" and "p_producer (sv_processor sv) = Some p"
    and "opaque_from_conf cb_opaque"
  shows "cb_opaque (pr_conf p) = Opaque_null"
proof -
  have "kafka_setup (su_kafka su) (env ''EVENT_COLLECTOR_KAFKA_BOOTSTRAP'') (env ''EVENT_COLLECTOR_KAFKA_TOPIC'') = Some p"
    using assms(1,2) by (auto simp: main_start_def Processor_new_def Let_def split: if_splits prod.splits sum.splits)
  from kafka_setup_conf [OF this] have "\<forall>q. Set_opaque q \<notin> set (pr_conf p)" by auto
  with assms(3) show ?thesis by (simp add: opaque_from_conf_def)
qed

section \<open>Properties\<close>

text \<open>
  C25: no exported counter decreases, and Kafka's success counter never leaves zero.  Take a
  server that \<open>main\<close> has started with Kafka, where the library passes the configuration's opaque
  to the callback, as documented.  As long as fewer than \<open>2^64\<close> messages have come, each of the
  twelve counters is at most what it will be later, whatever runs in between; the number of
  successes is zero at every moment, because the first delivery report would have ended the
  process; and the number of failures is at most the number of events admitted, those still
  being produced not counted.  (\<open>README.md\<close> and \<open>perf_report.md\<close> report successes counted by the
  callback; the code of this commit cannot count one and go on.)
\<close>

theorem running_counters:
  assumes "main_start bc bm su env services = Inr sv" and "p_producer (sv_processor sv) = Some p"
    and "opaque_from_conf cb_opaque" and "px_opaque ext = cb_opaque (pr_conf p)"
    and "(sr_step ext)\<^sup>*\<^sup>* (sr_start sv) s" and "(sr_step ext)\<^sup>*\<^sup>* s t" and "size (pl_pushed (pipe_of t)) < 2 ^ 64"
  shows "(\<forall>c. unat (pl_count c (pipe_of s)) \<le> unat (pl_count c (pipe_of t))) \<and>
    pl_count Total_kafka_ok (pipe_of t) = 0 \<and>
    unat (pl_count Total_kafka_fail (pipe_of t)) + nstaged is_producing (pipe_of t) \<le> pl_admitted (pipe_of t)"
proof -
  have op: "px_opaque ext = Opaque_null" using started_conf [OF assms(1-3)] assms(4) by simp
  have r: "reachable pl_init (pl_step ext) (pipe_of s)"
    using srp.reachable_match [OF sr_reachable [OF assms(1,5)]] by blast
  have st: "(pl_step ext)\<^sup>*\<^sup>* (pipe_of s) (pipe_of t)" using srp.steps_match [OF assms(6) refl] by blast
  have "kafka_inv (pipe_of t)"
    using kafka_reachable [OF op reachable_steps [OF st r]] assms(7) by (simp add: small_def)
  with counters_monotone [OF op r st assms(7)] show ?thesis by (simp add: kafka_inv_def ncount_def)
qed

definition kafka_environ :: environ where
  "kafka_environ = [''EVENT_COLLECTOR_KAFKA_BOOTSTRAP'' \<mapsto> ''localhost:9092'']"

lemma kafka_server:
  "\<exists>(sv :: (unit, unit, unit) server) p.
     main_start (\<lambda>_. True) (\<lambda>_. True) (refusing_setup\<lparr>su_kafka := accepting_setup\<rparr>) kafka_environ
       ((), (), (), (\<lambda>_. None)) = Inr sv \<and> p_producer (sv_processor sv) = Some p"
  by (simp add: main_start_def Processor_new_def storage_setup_def limiter_setup_def kafka_setup_def
      accepting_setup_def kafka_settings_def kafka_environ_def refusing_setup_def Let_def)

theorem running_counters_witness:
  "\<exists>(sv :: (unit, unit, unit) server) p t. p_producer (sv_processor sv) = Some p \<and>
     (sr_step (bare_ext\<lparr>px_opaque := last_opaque (pr_conf p)\<rparr>))\<^sup>*\<^sup>* (sr_start sv) t \<and>
     pl_pushed (pipe_of t) = {#''hi''#} \<and> pl_count Total_kafka_ok (pipe_of t) = 0"
proof -
  obtain sv :: "(unit, unit, unit) server" and p where sv: "main_start (\<lambda>_. True) (\<lambda>_. True)
      (refusing_setup\<lparr>su_kafka := accepting_setup\<rparr>) kafka_environ ((), (), (), (\<lambda>_. None)) = Inr sv"
    and p: "p_producer (sv_processor sv) = Some p" using kafka_server by blast
  let ?ext = "bare_ext\<lparr>px_opaque := last_opaque (pr_conf p)\<rparr>"
  obtain t where t: "(sr_step ?ext)\<^sup>*\<^sup>* (sr_start sv) t" "pl_pushed (pipe_of t) = {#''hi''#}"
    using one_message_arrives [OF sv, of ?ext] by (auto simp: pipe_of_def)
  then have "size (pl_pushed (pipe_of t)) < 2 ^ 64" by simp
  with running_counters [OF sv p last_opaque_documented, of ?ext "sr_start sv" t] t have "pl_count Total_kafka_ok (pipe_of t) = 0"
    by simp
  with p t show ?thesis by blast
qed

end
