(* ===== verification/Session_Stream.thy ===== *)
theory Session_Stream
  imports Session
begin

text \<open>
  A session at the end of a TCP stream: the bytes the client sent, then the end of the
  stream, with no timeout in between.  Each read takes as many bytes as its buffer holds, or
  fails when fewer are left.
\<close>

section \<open>Reading a stream\<close>

function feed :: "bytes \<Rightarrow> session \<times> shared \<Rightarrow> session \<times> shared" where
  "feed stream s =
     (case se_reading (fst s) of
        Not_reading \<Rightarrow> s
      | Reading_header \<Rightarrow>
          (if length stream < 4
           then (case complete (Header_done False True []) s of Inr r \<Rightarrow> registered r | Inl _ \<Rightarrow> s)
           else (case complete (Header_done False False (take 4 stream)) s of
                   Inr r \<Rightarrow> feed (drop 4 stream) (registered r)
                 | Inl _ \<Rightarrow> s))
      | Reading_body n \<Rightarrow>
          (if length stream < n
           then (case complete (Body_done True []) s of Inr r \<Rightarrow> registered r | Inl _ \<Rightarrow> s)
           else (case complete (Body_done False (take n stream)) s of
                   Inr r \<Rightarrow> feed (drop n stream) (registered r)
                 | Inl _ \<Rightarrow> s)))"
  by pat_completeness auto
termination
proof (relation "measure (\<lambda>(stream, s). 2 * length stream +
    (case se_reading (fst s) of Reading_body _ \<Rightarrow> 1 | _ \<Rightarrow> 0))")
qed (auto simp: on_body_def registered_def Let_def do_read_header_def split: reading.splits)

declare feed.simps [simp del]

text \<open>What a client puts on the wire for a list of messages.\<close>

fun frames :: "bytes list \<Rightarrow> bytes option" where
  "frames [] = Some []"
| "frames (d # ds) =
     (case frame d of
        None \<Rightarrow> None
      | Some f \<Rightarrow> (case frames ds of None \<Rightarrow> None | Some fs \<Rightarrow> Some (f @ fs)))"

definition legal_body :: "bytes \<Rightarrow> bool" where
  "legal_body d \<longleftrightarrow> 0 < length d \<and> length d < 102400"

section \<open>One frame\<close>

lemma feed_body:
  assumes "se_reading (fst s) = Reading_body (length d)"
  shows "\<exists>se. feed (d @ rest) s = feed rest (se, push_body d (snd s)) \<and>
    se_reading se = Reading_header \<and> se_cleaned_up se = se_cleaned_up (fst s)"
  using assms
  by (simp add: feed.simps [of "d @ rest" s] on_body_def registered_def do_read_header_def Let_def)
    (rule exI, rule conjI, rule refl, simp)

lemma feed_header:
  assumes "se_reading (fst s) = Reading_header" and "length h = 4"
    and "complete (Header_done False False h) s = Inr r"
  shows "feed (h @ rest) s = feed rest (registered r)"
  using assms by (simp add: feed.simps [of "h @ rest" s])

lemma frame_header_len:
  assumes "frame d = Some f" and "legal_body d"
  shows "\<exists>h. f = h @ d \<and> length h = 4 \<and> unat (header_len h) = length d \<and>
    0 < header_len h \<and> header_len h < 102400"
proof -
  from assms(1) obtain h where h: "pack_le32 (length d) = Some h" and f: "f = h @ d"
    by (auto simp: frame_def split: option.splits)
  from header_len_value have v: "unat (header_len h) = length d"
    using pack_le32_value [OF h] by simp
  with assms(2) have "0 < header_len h" "header_len h < 102400"
    by (simp_all add: legal_body_def word_less_nat_alt)
  with f v pack_le32_length [OF h] show ?thesis by blast
qed

lemma feed_frame:
  assumes "frame d = Some f" and "legal_body d" and "se_reading (fst s) = Reading_header"
  shows "\<exists>se. feed (f @ rest) s = feed rest (se, push_body d (snd s)) \<and>
    se_reading se = Reading_header \<and> se_cleaned_up se = se_cleaned_up (fst s)"
proof -
  from frame_header_len [OF assms(1,2)] obtain h where h: "f = h @ d" "length h = 4"
    "unat (header_len h) = length d" "0 < header_len h" "header_len h < 102400" by blast
  let ?r = "((fst s\<lparr>se_reading := Not_reading, se_header := h, se_body := resize (length d) (se_body (fst s))\<rparr>,
    snd s), do_read_body (length d))"
  have "complete (Header_done False False h) s = Inr ?r"
    using h by (simp add: on_header_def Let_def)
  from feed_header [OF assms(3) h(2) this, of "d @ rest"] h(1)
  have "feed (f @ rest) s = feed (d @ rest) (registered ?r)" by simp
  moreover have "se_reading (fst (registered ?r)) = Reading_body (length d)"
    "snd (registered ?r) = snd s" "se_cleaned_up (fst (registered ?r)) = se_cleaned_up (fst s)"
    by (simp_all add: registered_def do_read_body_def)
  ultimately show ?thesis using feed_body [of "registered ?r" d rest] by simp
qed

lemma feed_eof:
  "se_reading (fst s) = Reading_header \<Longrightarrow> feed [] s = cleanup (fst s\<lparr>se_reading := Not_reading\<rparr>, snd s)"
  by (simp add: feed.simps [of "[]" s] on_header_def registered_def)

lemma feed_frames:
  assumes "frames ds = Some bs" and "list_all legal_body ds" and "se_reading (fst s) = Reading_header"
  shows "\<exists>se. feed (bs @ rest) s = feed rest (se, fold push_body ds (snd s)) \<and>
    se_reading se = Reading_header \<and> se_cleaned_up se = se_cleaned_up (fst s)"
  using assms
proof (induction ds arbitrary: bs s)
  case Nil
  then show ?case by (auto intro!: exI [of _ "fst s"])
next
  case (Cons d ds)
  from Cons.prems(1) obtain f fs where f: "frame d = Some f" "frames ds = Some fs" "bs = f @ fs"
    by (auto split: option.splits)
  from feed_frame [OF f(1) _ Cons.prems(3), of "fs @ rest"] Cons.prems(2) obtain se where
    se: "feed (bs @ rest) s = feed (fs @ rest) (se, push_body d (snd s))" "se_reading se = Reading_header"
    "se_cleaned_up se = se_cleaned_up (fst s)" using f(3) by auto
  from Cons.IH [OF f(2), of "(se, push_body d (snd s))"] Cons.prems(2) se show ?case by auto
qed

section \<open>What the queue receives\<close>

lemma fold_push_body:
  assumes "wf_queue (sh_queue sh)"
  shows "tsq_queue (sh_queue (fold push_body ds sh)) =
      take (unat (tsq_capacity (sh_queue sh))) (tsq_queue (sh_queue sh) @ ds) \<and>
    sh_active (fold push_body ds sh) = sh_active sh \<and>
    load Total_queue_drop (sh_metrics (fold push_body ds sh)) =
      load Total_queue_drop (sh_metrics sh) +
        of_nat (length ds - (unat (tsq_capacity (sh_queue sh)) - length (tsq_queue (sh_queue sh))))"
  using assms
proof (induction ds arbitrary: sh)
  case (Cons d ds)
  have "wf_queue (sh_queue (push_body d sh))" and "tsq_capacity (sh_queue (push_body d sh)) = tsq_capacity (sh_queue sh)"
    using Cons.prems by (auto simp: wf_queue_def try_push_cases)
  with Cons.IH [of "push_body d sh"] Cons.prems show ?case
    by (auto simp: try_push_cases wf_queue_def Suc_diff_le take_Cons')
qed (simp add: wf_queue_def)

lemma fold_push_body_frame:
  "c \<noteq> Total_queue_drop \<Longrightarrow> load c (sh_metrics (fold push_body ds sh)) = load c (sh_metrics sh)"
  by (induction ds arbitrary: sh) simp_all

lemma fold_push_body_queue:
  assumes "wf_queue (sh_queue sh)"
  shows "sh_queue (fold push_body ds sh) =
    (sh_queue sh)\<lparr>tsq_queue := take (unat (tsq_capacity (sh_queue sh))) (tsq_queue (sh_queue sh) @ ds)\<rparr>"
proof -
  have "tsq_capacity (sh_queue (fold push_body ds sh)) = tsq_capacity (sh_queue sh)"
    by (induction ds arbitrary: sh) (simp_all add: try_push_cases)
  with fold_push_body [OF assms, of ds] show ?thesis by (simp add: ts_queue.equality)
qed

lemma feed_accepted:
  assumes "frames ds = Some bs" and "list_all legal_body ds"
  shows "\<exists>se. feed bs (session_accept sh) =
    cleanup (se, fold push_body ds (sh\<lparr>sh_active := sh_active sh + 1\<rparr>)) \<and> \<not> se_cleaned_up se"
proof -
  obtain se where se: "feed bs (session_accept sh) = feed [] (se, fold push_body ds (sh\<lparr>sh_active := sh_active sh + 1\<rparr>))"
    "se_reading se = Reading_header" "\<not> se_cleaned_up se"
    using feed_frames [OF assms, of "session_accept sh" "[]"] by auto
  then show ?thesis by (intro exI [of _ "se\<lparr>se_reading := Not_reading\<rparr>"]) (simp add: feed_eof)
qed

text \<open>
  C5: what a client sends is what the workers get.  For any messages of legal size, framed
  and sent on one connection that then closes, the session appends exactly those messages,
  whole and in order, to the queue, up to the queue's capacity; it counts each message that
  did not fit as a drop; and it gives its connection slot back.
\<close>

theorem stream_delivers_messages:
  assumes "frames ds = Some bs" and "list_all legal_body ds" and "wf_queue (sh_queue sh)"
  shows "let sh' = snd (feed bs (session_accept sh));
             cap = unat (tsq_capacity (sh_queue sh)); q = tsq_queue (sh_queue sh)
         in tsq_queue (sh_queue sh') = take cap (q @ ds) \<and>
            load Total_queue_drop (sh_metrics sh') =
              load Total_queue_drop (sh_metrics sh) + of_nat (length ds - (cap - length q)) \<and>
            sh_active sh' = sh_active sh"
proof -
  let ?sh = "sh\<lparr>sh_active := sh_active sh + 1\<rparr>"
  from feed_accepted [OF assms(1,2)] obtain se where
    "feed bs (session_accept sh) = cleanup (se, fold push_body ds ?sh)" "\<not> se_cleaned_up se" by blast
  with fold_push_body [of ?sh ds] assms(3) show ?thesis by (simp add: Let_def cleanup_def)
qed

theorem stream_delivers_messages_witness:
  "\<exists>bs. frames [''hi'', ''you''] = Some bs \<and>
     tsq_queue (sh_queue (snd (feed bs (session_accept fresh_shared)))) = [''hi'', ''you'']"
proof -
  obtain bs where f: "frames [''hi'', ''you''] = Some bs"
    by (simp add: frame_def pack_le32_def)
  have l: "list_all legal_body [''hi'', ''you'']" by (simp add: legal_body_def)
  have w: "wf_queue (sh_queue fresh_shared)" by (simp add: fresh_shared_def ThreadSafeQueue_def wf_queue_def)
  from f stream_delivers_messages [OF f l w] show ?thesis
    by (simp add: fresh_shared_def ThreadSafeQueue_def Let_def)
qed

section \<open>A bad length\<close>

text \<open>Wherever it comes, the handler of such a header ends the session, or the process if \<open>close\<close> raises.\<close>

lemma bad_header:
  assumes "se_reading (fst s) = Reading_header" and "length h = 4" and "\<not> (0 < header_len h \<and> header_len h < 102400)"
  shows "feed (h @ rest) s = cleanup (fst s\<lparr>se_reading := Not_reading, se_header := h, se_open := False\<rparr>, snd s)"
    and "complete (Header_done True False h) s = Inl Uncaught_exception"
proof -
  let ?r = "(cleanup (fst s\<lparr>se_reading := Not_reading, se_header := h, se_open := False\<rparr>, snd s), [Close_socket])"
  have "complete (Header_done False False h) s = Inr ?r"
    using assms(3) by (auto simp: on_header_def Let_def)
  from feed_header [OF assms(1,2) this, of rest]
  have "feed (h @ rest) s = feed rest (registered ?r)" .
  also have "\<dots> = fst ?r" by (simp add: feed.simps [of rest] registered_def)
  finally show "feed (h @ rest) s = cleanup (fst s\<lparr>se_reading := Not_reading, se_header := h, se_open := False\<rparr>, snd s)"
    by simp
  show "complete (Header_done True False h) s = Inl Uncaught_exception"
    using assms(3) by (auto simp: on_header_def Let_def)
qed

text \<open>
  C28: a header with a length of zero or of 100 KiB and more ends the connection, the first header
  or a later one.  A client sends any messages of legal size, then such a header, then anything.
  The messages before it are queued, as far as they fit, and the others counted as drops; nothing
  after it is read, queued or counted; the socket is closed, no read is registered and the slot is
  given back.  All this if \<open>close\<close> returns: the call is the one that raises on an error, and no
  handler catches the exception, so if it does, in any session that reads such a header, it ends
  the process.
\<close>

theorem bad_length_disconnects:
  assumes "frames ds = Some bs" and "list_all legal_body ds" and "wf_queue (sh_queue sh)"
    and "length h = 4" and "\<not> (0 < header_len h \<and> header_len h < 102400)"
  shows "let s' = feed (bs @ h @ rest) (session_accept sh);
             cap = unat (tsq_capacity (sh_queue sh)); q = tsq_queue (sh_queue sh)
         in sh_queue (snd s') = (sh_queue sh)\<lparr>tsq_queue := take cap (q @ ds)\<rparr> \<and>
            (\<forall>c. load c (sh_metrics (snd s')) = load c (sh_metrics sh) +
               (if c = Total_queue_drop then of_nat (length ds - (cap - length q)) else 0)) \<and>
            sh_active (snd s') = sh_active sh \<and>
            \<not> se_open (fst s') \<and> se_cleaned_up (fst s') \<and> se_reading (fst s') = Not_reading \<and>
            (\<forall>s. se_reading (fst s) = Reading_header \<longrightarrow> complete (Header_done True False h) s = Inl Uncaught_exception)"
proof -
  let ?sh = "sh\<lparr>sh_active := sh_active sh + 1\<rparr>"
  from feed_frames [OF assms(1,2), of "session_accept sh" "h @ rest"] obtain se where
    se: "feed (bs @ h @ rest) (session_accept sh) = feed (h @ rest) (se, fold push_body ds ?sh)"
    "se_reading se = Reading_header" "\<not> se_cleaned_up se" by auto
  have b: "feed (bs @ h @ rest) (session_accept sh) =
      cleanup (se\<lparr>se_reading := Not_reading, se_header := h, se_open := False\<rparr>, fold push_body ds ?sh)"
    using bad_header(1) [of "(se, fold push_body ds ?sh)" h rest] se assms(4,5) by simp
  have w: "wf_queue (sh_queue ?sh)" using assms(3) by simp
  have m: "load c (sh_metrics (fold push_body ds ?sh)) = load c (sh_metrics sh) +
      (if c = Total_queue_drop then of_nat (length ds - (unat (tsq_capacity (sh_queue sh)) - length (tsq_queue (sh_queue sh)))) else 0)" for c
    using fold_push_body [OF w, of ds] fold_push_body_frame [of c ds ?sh] by simp
  show ?thesis
    using fold_push_body [OF w, of ds] fold_push_body_queue [OF w, of ds] m se(3) bad_header(2) [OF _ assms(4,5)]
    unfolding b by (simp add: Let_def) (simp add: cleanup_def)
qed

theorem bad_length_disconnects_witness:
  "\<exists>bs. frames [''hi''] = Some bs \<and>
     sh_queue (snd (feed (bs @ replicate 4 (CHR 0x00) @ ''xyz'') (session_accept fresh_shared))) =
       (sh_queue fresh_shared)\<lparr>tsq_queue := [''hi'']\<rparr>"
proof -
  obtain bs where f: "frames [''hi''] = Some bs" by (simp add: frame_def pack_le32_def)
  have l: "list_all legal_body [''hi'']" by (simp add: legal_body_def)
  have w: "wf_queue (sh_queue fresh_shared)" by (simp add: fresh_shared_def ThreadSafeQueue_def wf_queue_def)
  have h: "\<not> (0 < header_len (replicate 4 (CHR 0x00)) \<and> header_len (replicate 4 (CHR 0x00)) < 102400)"
    by (simp add: header_len_def header_byte_def)
  from f bad_length_disconnects [OF f l w _ h, of "''xyz''"] show ?thesis
    by (simp add: fresh_shared_def ThreadSafeQueue_def Let_def)
qed

end
