(* ===== verification/Cleanup_Race.thy ===== *)
theory Cleanup_Race
  imports Collector
begin

text \<open>
  The connection count under real concurrency.  Several threads run \<open>io_context::run\<close>, so the
  timer handler and a read handler of one session can call \<open>Session::cleanup\<close> at the same time,
  while the accept handler compares the count and increments it in two separate steps.  Here
  each atomic operation of \<open>cleanup\<close> (\<open>exchange\<close>, \<open>fetch_sub\<close>) and of the accept path (the load
  of \<open>active_connections\<close>, the \<open>fetch_add\<close> of the constructor, the registration of the next
  accept) is a step of its own.  An exception in \<open>Session::start\<close> leaves a session whose \<open>cleanup\<close>
  no handler may ever call, which the machine allows.
\<close>

section \<open>Atomic steps\<close>

text \<open>Where an I/O thread is: outside these functions, or between two of their atomic operations.\<close>

datatype io_pc = Idle | Below_limit | Session_created | Exchanged

record slots =
  sl_shared :: shared
  sl_cleaned :: "bool list"  \<comment> \<open>\<open>cleaned_up_\<close> of each session\<close>
  sl_accept :: bool  \<comment> \<open>an accept handler is registered\<close>
  sl_threads :: "io_pc list"

definition goto :: "nat \<Rightarrow> io_pc \<Rightarrow> slots \<Rightarrow> slots" where
  "goto t pc s = s\<lparr>sl_threads := (sl_threads s)[t := pc]\<rparr>"

definition at_pc :: "nat \<Rightarrow> io_pc \<Rightarrow> slots \<Rightarrow> bool" where
  "at_pc t pc s \<longleftrightarrow> t < length (sl_threads s) \<and> sl_threads s ! t = pc"

definition add_active :: "i32 \<Rightarrow> slots \<Rightarrow> slots" where
  "add_active k s = s\<lparr>sl_shared := sl_shared s\<lparr>sh_active := sh_active (sl_shared s) + k\<rparr>\<rparr>"

text \<open>\<open>if (active_connections() >= MAX_CONNECTIONS)\<close>, with the early return.\<close>

definition check_limit_step :: "nat \<Rightarrow> slots \<Rightarrow> slots" where
  "check_limit_step t s =
     (if over_limit (sl_shared s) then s else goto t Below_limit (s\<lparr>sl_accept := False\<rparr>))"

text \<open>\<open>cleaned_up_.exchange(true)\<close>: the caller that finds \<open>false\<close> goes on to \<open>fetch_sub\<close>.\<close>

definition exchange_step :: "nat \<Rightarrow> nat \<Rightarrow> slots \<Rightarrow> slots" where
  "exchange_step t i s =
     (if sl_cleaned s ! i then s else goto t Exchanged (s\<lparr>sl_cleaned := (sl_cleaned s)[i := True]\<rparr>))"

inductive slots_init :: "slots \<Rightarrow> bool" where
  slots_init: "sh_active sh = 0 \<Longrightarrow>
     slots_init \<lparr>sl_shared = sh, sl_cleaned = [], sl_accept = True, sl_threads = replicate n Idle\<rparr>"

inductive slots_step :: "slots \<Rightarrow> slots \<Rightarrow> bool" where
  accept_check: "at_pc t Idle s \<Longrightarrow> sl_accept s \<Longrightarrow> slots_step s (check_limit_step t s)"
| accept_refuse: "at_pc t Below_limit s \<Longrightarrow> slots_step s (goto t Idle (s\<lparr>sl_accept := True\<rparr>))"
| accept_create: "at_pc t Below_limit s \<Longrightarrow>
    slots_step s (goto t Session_created (add_active 1 (s\<lparr>sl_cleaned := sl_cleaned s @ [False]\<rparr>)))"
| accept_again: "at_pc t Session_created s \<Longrightarrow> slots_step s (goto t Idle (s\<lparr>sl_accept := True\<rparr>))"
| cleanup_exchange: "at_pc t Idle s \<Longrightarrow> i < length (sl_cleaned s) \<Longrightarrow> slots_step s (exchange_step t i s)"
| cleanup_sub: "at_pc t Exchanged s \<Longrightarrow> slots_step s (goto t Idle (add_active (- 1) s))"

section \<open>The invariant\<close>

definition threads_at :: "io_pc \<Rightarrow> slots \<Rightarrow> nat" where
  "threads_at pc s = length (filter (\<lambda>p. p = pc) (sl_threads s))"

definition uncleaned :: "slots \<Rightarrow> nat" where
  "uncleaned s = length (filter Not (sl_cleaned s))"

definition slots_inv :: "slots \<Rightarrow> bool" where
  "slots_inv s \<longleftrightarrow>
     sint (sh_active (sl_shared s)) = int (uncleaned s + threads_at Exchanged s) \<and>
     uncleaned s + threads_at Exchanged s + threads_at Below_limit s \<le> 20000 \<and>
     threads_at Below_limit s + threads_at Session_created s + (if sl_accept s then 1 else 0) = 1"

lemma threads_at_goto:
  assumes "at_pc t old s"
  shows "threads_at pc (goto t new s) + (if old = pc then 1 else 0) = threads_at pc s + (if new = pc then 1 else 0)"
  using assms length_filter_update [of t "sl_threads s" "\<lambda>p. p = pc" new]
  by (auto simp: threads_at_def goto_def at_pc_def)

lemma goto_fields [simp]:
  "sl_shared (goto t pc s) = sl_shared s" "sl_accept (goto t pc s) = sl_accept s"
  "uncleaned (goto t pc s) = uncleaned s"
  by (simp_all add: goto_def uncleaned_def)

lemma slot_updates [simp]:
  "threads_at pc (s\<lparr>sl_accept := b\<rparr>) = threads_at pc s" "threads_at pc (s\<lparr>sl_cleaned := cs\<rparr>) = threads_at pc s"
  "threads_at pc (add_active k s) = threads_at pc s" "uncleaned (add_active k s) = uncleaned s"
  "uncleaned (s\<lparr>sl_accept := b\<rparr>) = uncleaned s" "sl_accept (add_active k s) = sl_accept s"
  "uncleaned (s\<lparr>sl_cleaned := sl_cleaned s @ [False]\<rparr>) = Suc (uncleaned s)"
  "sh_active (sl_shared (add_active k s)) = sh_active (sl_shared s) + k"
  "at_pc t pc (s\<lparr>sl_accept := b\<rparr>) = at_pc t pc s" "at_pc t pc (s\<lparr>sl_cleaned := cs\<rparr>) = at_pc t pc s"
  "at_pc t pc (add_active k s) = at_pc t pc s"
  by (simp_all add: threads_at_def uncleaned_def add_active_def at_pc_def)

lemma uncleaned_exchange:
  "i < length (sl_cleaned s) \<Longrightarrow> \<not> sl_cleaned s ! i
    \<Longrightarrow> Suc (uncleaned (s\<lparr>sl_cleaned := (sl_cleaned s)[i := True]\<rparr>)) = uncleaned s"
  using length_filter_update [of i "sl_cleaned s" Not True] by (simp add: uncleaned_def)

lemma slots_inv_accept:
  assumes "slots_inv s" and "at_pc t Idle s" and "sl_accept s"
  shows "slots_inv (check_limit_step t s)"
proof -
  note at = threads_at_goto [of t Idle "s\<lparr>sl_accept := False\<rparr>" _ Below_limit]
  from over_limit_iff [of "sl_shared s" "uncleaned s + threads_at Exchanged s"] assms
    at [of Exchanged] at [of Below_limit] at [of Session_created]
  show ?thesis by (auto simp: slots_inv_def check_limit_step_def)
qed

lemma slots_inv_leave:
  assumes "slots_inv s" and "at_pc t pc s" and "pc = Below_limit \<or> pc = Session_created"
  shows "slots_inv (goto t Idle (s\<lparr>sl_accept := True\<rparr>))"
proof -
  note at = threads_at_goto [of t pc "s\<lparr>sl_accept := True\<rparr>" _ Idle]
  from assms at [of Exchanged] at [of Below_limit] at [of Session_created] show ?thesis
    by (auto simp: slots_inv_def split: if_splits)
qed

lemma slots_inv_create:
  assumes "slots_inv s" and "at_pc t Below_limit s"
  shows "slots_inv (goto t Session_created (add_active 1 (s\<lparr>sl_cleaned := sl_cleaned s @ [False]\<rparr>)))"
proof -
  note at = threads_at_goto [of t Below_limit "add_active 1 (s\<lparr>sl_cleaned := sl_cleaned s @ [False]\<rparr>)" _ Session_created]
  from assms at [of Exchanged] at [of Below_limit] at [of Session_created] sint_add_one [of "sh_active (sl_shared s)"]
  show ?thesis by (auto simp: slots_inv_def split: if_splits)
qed

lemma slots_inv_exchange:
  assumes "slots_inv s" and "at_pc t Idle s" and "i < length (sl_cleaned s)"
  shows "slots_inv (exchange_step t i s)"
proof -
  note at = threads_at_goto [of t Idle "s\<lparr>sl_cleaned := (sl_cleaned s)[i := True]\<rparr>" _ Exchanged]
  from assms at [of Exchanged] at [of Below_limit] at [of Session_created] uncleaned_exchange [of i s]
  show ?thesis by (auto simp: slots_inv_def exchange_step_def split: if_splits)
qed

lemma slots_inv_sub:
  assumes "slots_inv s" and "at_pc t Exchanged s"
  shows "slots_inv (goto t Idle (add_active (- 1) s))"
proof -
  note at = threads_at_goto [of t Exchanged "add_active (- 1) s" _ Idle]
  from assms at [of Exchanged] at [of Below_limit] at [of Session_created] sint_sub_one [of "sh_active (sl_shared s)"]
  show ?thesis by (auto simp: slots_inv_def split: if_splits)
qed

interpretation sli: inductive_invariant slots_init slots_step slots_inv
proof
  show "slots_inv s" if "slots_init s" for s
    using that by cases (simp add: slots_inv_def uncleaned_def threads_at_def)
  show "slots_inv t" if "slots_inv s" "slots_step s t" for s t
    using that(2,1)
    by cases (auto intro: slots_inv_accept slots_inv_leave slots_inv_create slots_inv_exchange slots_inv_sub)
qed

section \<open>Properties\<close>

text \<open>
  C10: racing handlers release a connection slot exactly once.  With any number of I/O
  threads, whatever the order of the atomic operations, the count is the number of sessions
  whose flag is not yet set plus the number of threads that have set one and are about to
  decrement; so it never goes negative, never exceeds 20000, and equals the number of open
  sessions whenever no thread is in between.  The limit holds although check and increment
  are separate, because at most one thread is between them.
\<close>

theorem slot_released_once:
  assumes "reachable slots_init slots_step s"
  shows "sint (active_connections (sl_shared s)) = int (uncleaned s + threads_at Exchanged s) \<and>
    uncleaned s + threads_at Exchanged s \<le> unat MAX_CONNECTIONS \<and>
    threads_at Below_limit s + threads_at Session_created s \<le> 1"
  using sli.reachable_inv [OF assms]
  by (simp add: slots_inv_def active_connections_def MAX_CONNECTIONS_def split: if_splits)

text \<open>Two threads race to clean up the same session: both handlers have run, one decrement.\<close>

definition race_state :: "bool list \<Rightarrow> bool \<Rightarrow> i32 \<Rightarrow> io_pc list \<Rightarrow> slots" where
  "race_state cs acc n pcs =
     \<lparr>sl_shared = fresh_shared\<lparr>sh_active := n\<rparr>, sl_cleaned = cs, sl_accept = acc, sl_threads = pcs\<rparr>"

lemma race_reachable: "reachable slots_init slots_step (race_state [True] True 1 [Exchanged, Idle])"
proof -
  let ?R = "reachable slots_init slots_step"
  have "?R (race_state [] True 0 [Idle, Idle])"
    unfolding race_state_def
    by (rule reach_init) (use slots_init [of "fresh_shared\<lparr>sh_active := 0\<rparr>" 2] in \<open>simp add: numeral_2_eq_2\<close>)
  from reach_step [OF this accept_check [of 0]]
  have "?R (race_state [] False 0 [Below_limit, Idle])"
    by (simp add: race_state_def at_pc_def check_limit_step_def goto_def over_limit_def active_connections_def
        MAX_CONNECTIONS_def)
  from reach_step [OF this accept_create [of 0]]
  have "?R (race_state [False] False 1 [Session_created, Idle])"
    by (simp add: race_state_def at_pc_def goto_def add_active_def)
  from reach_step [OF this accept_again [of 0]]
  have "?R (race_state [False] True 1 [Idle, Idle])" by (simp add: race_state_def at_pc_def goto_def)
  from reach_step [OF this cleanup_exchange [of 0 _ 0]]
  show ?thesis by (simp add: race_state_def at_pc_def goto_def exchange_step_def)
qed

theorem slot_released_once_witness:
  "reachable slots_init slots_step (race_state [True] True 1 [Exchanged, Idle]) \<and>
   sint (active_connections (sl_shared (race_state [True] True 1 [Exchanged, Idle]))) = 1"
  using slot_released_once [OF race_reachable] race_reachable
  by (simp add: uncleaned_def threads_at_def race_state_def)

end
