(* ===== verification/Queue_Wakeup.thy ===== *)
theory Queue_Wakeup
  imports Event_Queue
begin

text \<open>
  The threads around \<open>include/queue.h\<close>: which consumers are parked on the condition
  variable \<open>not_empty_\<close>, which have been woken and still have to take the mutex again, and
  which were woken by their deadline.  One step is one critical section, so the steps of the
  threads interleave freely; the condition variable may also wake a thread spuriously.
\<close>

section \<open>State and steps\<close>

record cv_queue =
  cv_queue :: ts_queue
  cv_parked :: "nat set"
  cv_woken :: "nat set"
  cv_expired :: "nat set"

definition cv_init :: "cv_queue \<Rightarrow> bool" where
  "cv_init s \<longleftrightarrow> tsq_queue (cv_queue s) = [] \<and> cv_parked s = {} \<and> cv_woken s = {} \<and> cv_expired s = {}"

text \<open>
  \<open>notify_one\<close> wakes one parked thread, if there is one; \<open>who\<close> is the thread the condition
  variable picks.
\<close>

definition notify_one :: "nat option \<Rightarrow> cv_queue \<Rightarrow> cv_queue" where
  "notify_one who s =
     (case who of
        None \<Rightarrow> s
      | Some t \<Rightarrow> s\<lparr>cv_parked := cv_parked s - {t}, cv_woken := insert t (cv_woken s)\<rparr>)"

definition may_pick :: "nat option \<Rightarrow> cv_queue \<Rightarrow> bool" where
  "may_pick who s \<longleftrightarrow>
     (case who of None \<Rightarrow> cv_parked s = {} | Some t \<Rightarrow> t \<in> cv_parked s)"

text \<open>The critical section of \<open>try_push\<close>: a successful push notifies one consumer.\<close>

definition cv_push :: "bytes \<Rightarrow> nat option \<Rightarrow> cv_queue \<Rightarrow> bool \<times> cv_queue" where
  "cv_push v who s =
     (let (ok, q') = try_push v (cv_queue s)
      in if \<not> ok then (False, s)
         else (True, notify_one who (s\<lparr>cv_queue := q'\<rparr>)))"

inductive cv_step :: "cv_queue \<Rightarrow> cv_queue \<Rightarrow> bool" where
  push: "may_pick who s \<Longrightarrow> cv_push v who s = (ok, t) \<Longrightarrow> cv_step s t"
  \<comment> \<open>a pop that finds an element at once: \<open>try_pop\<close>, or \<open>try_pop_for\<close> at its first test\<close>
| pop_now: "try_pop d (cv_queue s) = (True, x, q') \<Longrightarrow> cv_step s (s\<lparr>cv_queue := q'\<rparr>)"
  \<comment> \<open>\<open>try_pop_for\<close> finds the queue empty and parks\<close>
| park: "tsq_queue (cv_queue s) = [] \<Longrightarrow> i \<notin> cv_parked s \<union> cv_woken s \<union> cv_expired s \<Longrightarrow>
    cv_step s (s\<lparr>cv_parked := insert i (cv_parked s)\<rparr>)"
| spurious: "i \<in> cv_parked s \<Longrightarrow>
    cv_step s (s\<lparr>cv_parked := cv_parked s - {i}, cv_woken := insert i (cv_woken s)\<rparr>)"
| deadline: "i \<in> cv_parked s \<Longrightarrow>
    cv_step s (s\<lparr>cv_parked := cv_parked s - {i}, cv_expired := insert i (cv_expired s)\<rparr>)"
  \<comment> \<open>a woken thread holds the mutex again and tests the predicate\<close>
| resume_pop: "i \<in> cv_woken s \<union> cv_expired s \<Longrightarrow> try_pop d (cv_queue s) = (True, x, q') \<Longrightarrow>
    cv_step s (s\<lparr>cv_queue := q', cv_woken := cv_woken s - {i}, cv_expired := cv_expired s - {i}\<rparr>)"
| resume_park: "i \<in> cv_woken s \<Longrightarrow> tsq_queue (cv_queue s) = [] \<Longrightarrow>
    cv_step s (s\<lparr>cv_woken := cv_woken s - {i}, cv_parked := insert i (cv_parked s)\<rparr>)"
| resume_nullopt: "i \<in> cv_expired s \<Longrightarrow> tsq_queue (cv_queue s) = [] \<Longrightarrow>
    cv_step s (s\<lparr>cv_expired := cv_expired s - {i}\<rparr>)"

inductive_cases cv_stepE: "cv_step s t"

section \<open>No wake-up is lost\<close>

definition cv_inv :: "cv_queue \<Rightarrow> bool" where
  "cv_inv s \<longleftrightarrow>
     finite (cv_woken s) \<and> finite (cv_expired s) \<and>
     cv_parked s \<inter> (cv_woken s \<union> cv_expired s) = {} \<and> cv_woken s \<inter> cv_expired s = {} \<and>
     (cv_parked s = {} \<or>
      length (tsq_queue (cv_queue s)) \<le> card (cv_woken s \<union> cv_expired s)) \<and>
     wf_queue (cv_queue s)"

lemma try_pop_True:
  "try_pop d q = (True, x, q') \<longleftrightarrow> tsq_queue q = x # tsq_queue q' \<and> tsq_capacity q' = tsq_capacity q"
  by (cases q; cases q') (auto simp: try_pop_def split: list.splits)

lemma cv_inv_init: "cv_init s \<Longrightarrow> cv_inv s"
  by (simp add: cv_init_def cv_inv_def wf_queue_def)

lemma card_wake_up:
  assumes "cv_inv s" and "i \<in> cv_parked s"
  shows "card (insert i (cv_woken s \<union> cv_expired s)) = Suc (card (cv_woken s \<union> cv_expired s))"
proof (rule card_insert_disjoint)
  show "finite (cv_woken s \<union> cv_expired s)" using assms by (simp add: cv_inv_def)
  show "i \<notin> cv_woken s \<union> cv_expired s" using assms unfolding cv_inv_def by blast
qed

lemma cv_inv_push:
  assumes "cv_inv s" and "may_pick who s" and "cv_push v who s = (ok, t)"
  shows "cv_inv t"
proof (cases "fst (try_push v (cv_queue s))")
  case False
  with assms show ?thesis by (auto simp: cv_push_def split: prod.splits)
next
  case True
  then have len: "length (tsq_queue (snd (try_push v (cv_queue s)))) = Suc (length (tsq_queue (cv_queue s)))"
    and wf: "wf_queue (snd (try_push v (cv_queue s)))"
    by (auto simp: try_push_cases wf_queue_def)
  from True assms(3) have t: "t = notify_one who (s\<lparr>cv_queue := snd (try_push v (cv_queue s))\<rparr>)"
    by (auto simp: cv_push_def split: prod.splits)
  show ?thesis
  proof (cases who)
    case None
    with assms(1,2) wf t show ?thesis by (auto simp: cv_inv_def notify_one_def may_pick_def)
  next
    case (Some i)
    with assms(2) have i: "i \<in> cv_parked s" by (simp add: may_pick_def)
    with Some len wf t assms(1) card_wake_up [OF assms(1) i] show ?thesis
      by (auto simp: cv_inv_def notify_one_def)
  qed
qed

lemma cv_inv_resume_pop:
  assumes "cv_inv s" and "i \<in> cv_woken s \<union> cv_expired s" and "try_pop d (cv_queue s) = (True, x, q')"
  shows "cv_inv (s\<lparr>cv_queue := q', cv_woken := cv_woken s - {i}, cv_expired := cv_expired s - {i}\<rparr>)"
proof -
  define A where "A = cv_woken s \<union> cv_expired s"
  have A: "cv_woken s - {i} \<union> (cv_expired s - {i}) = A - {i}" unfolding A_def by blast
  have "card (A - {i}) = card A - 1"
    using assms(2) unfolding A_def by (rule card_Diff_singleton)
  moreover have q: "length (tsq_queue (cv_queue s)) = Suc (length (tsq_queue q'))"
    "tsq_capacity q' = tsq_capacity (cv_queue s)"
    using assms(3) by (simp_all add: try_pop_True)
  moreover have "cv_parked s = {} \<or> length (tsq_queue (cv_queue s)) \<le> card A"
    using assms(1) by (simp add: cv_inv_def A_def)
  ultimately have "cv_parked s = {} \<or> length (tsq_queue q') \<le> card (A - {i})" by linarith
  moreover have "wf_queue q'"
    using assms(1) q by (simp add: cv_inv_def wf_queue_def)
  moreover have "finite (cv_woken s)" "finite (cv_expired s)"
    "cv_parked s \<inter> (A - {i}) = {}" "(cv_woken s - {i}) \<inter> (cv_expired s - {i}) = {}"
    using assms(1) unfolding cv_inv_def A_def by (elim conjE; blast)+
  ultimately show ?thesis by (simp add: cv_inv_def A)
qed

lemma cv_inv_move:
  assumes "cv_inv s" and "i \<in> cv_parked s"
  shows "cv_inv (s\<lparr>cv_parked := cv_parked s - {i}, cv_woken := insert i (cv_woken s)\<rparr>)"
    and "cv_inv (s\<lparr>cv_parked := cv_parked s - {i}, cv_expired := insert i (cv_expired s)\<rparr>)"
  using assms card_wake_up [OF assms] by (auto simp: cv_inv_def)

lemma cv_inv_step [ec_inv]: "cv_inv s \<Longrightarrow> cv_step s t \<Longrightarrow> cv_inv t"
proof (erule cv_stepE, goal_cases)
  case (1 who v ok)
  then show ?case by (auto intro: cv_inv_push)
next
  case (2 d x q')
  then show ?case by (auto simp: cv_inv_def try_pop_True wf_queue_def)
next
  case (3 i)
  then show ?case by (auto simp: cv_inv_def)
next
  case (4 i)
  then show ?case by (simp add: cv_inv_move)
next
  case (5 i)
  then show ?case by (simp add: cv_inv_move)
next
  case (6 i d x q')
  then show ?case using cv_inv_resume_pop by blast
next
  case (7 i)
  then show ?case by (auto simp: cv_inv_def)
next
  case (8 i)
  then show ?case by (auto simp: cv_inv_def)
qed

interpretation cvi: inductive_invariant cv_init cv_step cv_inv
  by unfold_locales (auto intro: cv_inv_init cv_inv_step)

text \<open>
  C11: no wake-up is lost.  In every state the threads can reach, as long as some consumer is
  parked on the condition variable, at least as many consumers are awake and on their way
  back to the queue as there are events in it, so no event waits for a consumer that nobody
  will wake; and the queue is within its capacity.
\<close>

theorem no_lost_wakeup:
  assumes "reachable cv_init cv_step s" and "cv_parked s \<noteq> {}"
  shows "length (tsq_queue (cv_queue s)) \<le> card (cv_woken s \<union> cv_expired s)
    \<and> wf_queue (cv_queue s)"
  using cvi.reachable_inv [OF assms(1)] assms(2) by (auto simp: cv_inv_def)

text \<open>Two consumers park on an empty queue, then an event is pushed and wakes the first.\<close>

theorem no_lost_wakeup_witness:
  "length (tsq_queue (cv_queue
      \<lparr>cv_queue = \<lparr>tsq_queue = [''e''], tsq_capacity = 10\<rparr>, cv_parked = {1}, cv_woken = {0},
       cv_expired = {}\<rparr>)) \<le> card ({0} \<union> {} :: nat set)"
proof -
  define q where "q = \<lparr>tsq_queue = [] :: bytes list, tsq_capacity = 10\<rparr>"
  define s0 where "s0 = \<lparr>cv_queue = q, cv_parked = {}, cv_woken = {}, cv_expired = {}\<rparr>"
  define s1 where "s1 = s0\<lparr>cv_parked := insert 0 (cv_parked s0)\<rparr>"
  define s2 where "s2 = s1\<lparr>cv_parked := insert 1 (cv_parked s1)\<rparr>"
  define s3 where "s3 = \<lparr>cv_queue = \<lparr>tsq_queue = [''e''], tsq_capacity = 10\<rparr>, cv_parked = {1 :: nat},
    cv_woken = {0}, cv_expired = {}\<rparr>"
  note defs = q_def s0_def s1_def s2_def s3_def
  have r0: "reachable cv_init cv_step s0"
    by (rule reach_init) (simp add: cv_init_def defs)
  have "cv_step s0 s1" unfolding s1_def by (rule cv_step.park) (simp_all add: defs)
  with r0 have r1: "reachable cv_init cv_step s1" by (rule reach_step)
  have "cv_step s1 s2" unfolding s2_def by (rule cv_step.park) (simp_all add: defs)
  with r1 have r2: "reachable cv_init cv_step s2" by (rule reach_step)
  have "cv_push ''e'' (Some 0) s2 = (True, s3)"
    by (simp add: cv_push_def try_push_def notify_one_def defs insert_Diff_if)
  then have "cv_step s2 s3" by (rule cv_step.push [rotated]) (simp add: may_pick_def defs)
  with r2 have r3: "reachable cv_init cv_step s3" by (rule reach_step)
  from no_lost_wakeup [OF r3] show ?thesis by (simp add: s3_def)
qed

end
