(* ===== verification/Lifetime.thy ===== *)
theory Lifetime
  imports Ledger Shutdown
begin

text \<open>
  The life of a processor from \<open>start\<close> to its destruction, with its threads: the loops of the
  workers and of the poll thread test \<open>running_\<close> before every round, the flush thread of the
  storage tests the flag of the storage, and the thread that calls \<open>Processor::stop\<close> clears the
  flag, joins the workers and the poll thread, empties the queue, flushes the buffer and Kafka.
  \<open>stop\<close> does not join the flush thread: that thread may still be writing a batch when \<open>stop\<close>
  returns, and is joined by the destructor of the storage.

  The state is a pipeline with one slot more than there are workers: the last belongs to the
  thread that calls \<open>stop\<close>.
\<close>

section \<open>The threads and their loops\<close>

text \<open>A thread is about to test its flag, in a round of its loop, or has returned.\<close>

datatype loop = At_head | In_round | Ended

text \<open>\<open>flush_and_stop\<close> is called by \<open>stop\<close> and by the destructor of the storage.\<close>

datatype caller = From_stop | From_destructor

datatype phase =
    Serving | Joining | Draining | Swap_buffer caller | Flush_batch caller | Kafka_stop | Stopped | Join_flusher
  | Destroyed

fun return_to :: "caller \<Rightarrow> phase" where
  "return_to From_stop = Kafka_stop"
| "return_to From_destructor = Destroyed"

record ('r, 'k, 'c) lifetime =
  lt_pipe :: "('r, 'k, 'c) pipeline"
  lt_loops :: "loop list"
  lt_poller :: loop
  lt_flusher :: loop
  lt_phase :: phase

definition main_slot :: "('r, 'k, 'c) lifetime \<Rightarrow> nat" where
  "main_slot s = length (lt_loops s)"

definition lt_proc :: "('r, 'k, 'c) lifetime \<Rightarrow> ('r, 'k, 'c) processor" where
  "lt_proc s = pl_proc (lt_pipe s)"

definition put_proc :: "('r, 'k, 'c) processor \<Rightarrow> ('r, 'k, 'c) lifetime \<Rightarrow> ('r, 'k, 'c) lifetime" where
  "put_proc p s = s\<lparr>lt_pipe := (lt_pipe s)\<lparr>pl_proc := p\<rparr>\<rparr>"

definition storage_running :: "('r, 'k, 'c) processor \<Rightarrow> bool" where
  "storage_running p = (case p_storage p of None \<Rightarrow> False | Some st \<Rightarrow> st_running st)"

text \<open>The loop of worker \<open>i\<close>: the test of \<open>running_\<close>, the wait of \<open>try_pop_for\<close>, the event.\<close>

inductive worker_loop :: "('r, 'k, 'c) proc_ext \<Rightarrow> nat \<Rightarrow> ('r, 'k, 'c) lifetime \<Rightarrow> ('r, 'k, 'c) lifetime \<Rightarrow> bool"
  for ext :: "('r, 'k, 'c) proc_ext" and i :: nat where
  wl_enter: "lt_loops s ! i = At_head \<Longrightarrow> p_running (lt_proc s)
    \<Longrightarrow> worker_loop ext i s (s\<lparr>lt_loops := (lt_loops s)[i := In_round]\<rparr>)"
| wl_leave: "lt_loops s ! i = At_head \<Longrightarrow> \<not> p_running (lt_proc s)
    \<Longrightarrow> worker_loop ext i s (s\<lparr>lt_loops := (lt_loops s)[i := Ended]\<rparr>)"
| wl_timeout: "lt_loops s ! i = In_round \<Longrightarrow> at_stage i Waiting (lt_pipe s) \<Longrightarrow> tsq_queue (p_queue (lt_proc s)) = []
    \<Longrightarrow> worker_loop ext i s (s\<lparr>lt_loops := (lt_loops s)[i := At_head]\<rparr>)"
| wl_work: "lt_loops s ! i = In_round \<Longrightarrow> worker_step ext i (lt_pipe s) t
    \<Longrightarrow> worker_loop ext i s
          (s\<lparr>lt_pipe := t, lt_loops := (lt_loops s)[i := (if at_stage i Waiting t then At_head else In_round)]\<rparr>)"

text \<open>The poll thread.\<close>

inductive poll_loop :: "('r, 'k, 'c) proc_ext \<Rightarrow> ('r, 'k, 'c) lifetime \<Rightarrow> ('r, 'k, 'c) lifetime \<Rightarrow> bool"
  for ext :: "('r, 'k, 'c) proc_ext" where
  po_enter: "lt_poller s = At_head \<Longrightarrow> p_running (lt_proc s) \<Longrightarrow> poll_loop ext s (s\<lparr>lt_poller := In_round\<rparr>)"
| po_leave: "lt_poller s = At_head \<Longrightarrow> \<not> p_running (lt_proc s) \<Longrightarrow> poll_loop ext s (s\<lparr>lt_poller := Ended\<rparr>)"
| po_poll: "lt_poller s = In_round \<Longrightarrow> poll_step ext (lt_pipe s) t
    \<Longrightarrow> poll_loop ext s (s\<lparr>lt_pipe := t, lt_poller := At_head\<rparr>)"

text \<open>
  \<open>Storage::periodic_flush\<close>.  A round that finds the flag set and the buffer empty is idle: it
  changes nothing but the place in the loop, and comes back every five seconds.
\<close>

inductive flush_loop :: "('r, 'k, 'c) proc_ext \<Rightarrow> ('r, 'k, 'c) lifetime \<Rightarrow> ('r, 'k, 'c) lifetime \<Rightarrow> bool"
  for ext :: "('r, 'k, 'c) proc_ext" where
  fl_leave: "lt_flusher s = At_head \<Longrightarrow> \<not> storage_running (lt_proc s) \<Longrightarrow> flush_loop ext s (s\<lparr>lt_flusher := Ended\<rparr>)"
| fl_empty: "lt_flusher s = In_round \<Longrightarrow> pl_flusher (lt_pipe s) = None \<Longrightarrow> p_storage (lt_proc s) = Some st
    \<Longrightarrow> swap_locked st = (None, st') \<Longrightarrow> \<not> storage_running (lt_proc s)
    \<Longrightarrow> flush_loop ext s (put_proc ((lt_proc s)\<lparr>p_storage := Some st'\<rparr>) (s\<lparr>lt_flusher := At_head\<rparr>))"
| fl_flush: "lt_flusher s = In_round \<Longrightarrow> flusher_step ext (lt_pipe s) t
    \<Longrightarrow> flush_loop ext s (s\<lparr>lt_pipe := t, lt_flusher := (if pl_flusher t = None then At_head else In_round)\<rparr>)"

inductive lt_idle :: "('r, 'k, 'c) lifetime \<Rightarrow> ('r, 'k, 'c) lifetime \<Rightarrow> bool" where
  id_enter: "lt_flusher s = At_head \<Longrightarrow> storage_running (lt_proc s) \<Longrightarrow> lt_idle s (s\<lparr>lt_flusher := In_round\<rparr>)"
| id_empty: "lt_flusher s = In_round \<Longrightarrow> pl_flusher (lt_pipe s) = None \<Longrightarrow> p_storage (lt_proc s) = Some st
    \<Longrightarrow> swap_locked st = (None, st') \<Longrightarrow> storage_running (lt_proc s)
    \<Longrightarrow> lt_idle s (put_proc ((lt_proc s)\<lparr>p_storage := Some st'\<rparr>) (s\<lparr>lt_flusher := At_head\<rparr>))"

section \<open>The thread that stops the processor\<close>

text \<open>The loop of \<open>stop\<close> over the events left in the queue, in slot \<open>i\<close>; it asks no limiter.\<close>

inductive drain_step :: "('r, 'k, 'c) proc_ext \<Rightarrow> nat \<Rightarrow> ('r, 'k, 'c) pipeline \<Rightarrow> ('r, 'k, 'c) pipeline \<Rightarrow> bool"
  for ext :: "('r, 'k, 'c) proc_ext" and i :: nat where
  dr_pop: "at_stage i Waiting s \<Longrightarrow> try_pop [] (p_queue (pl_proc s)) = (True, d, q)
    \<Longrightarrow> drain_step ext i s (move i (Popped d) ((pl_proc s)\<lparr>p_queue := q\<rparr>) (s\<lparr>pl_popped := Suc (pl_popped s)\<rparr>))"
| dr_receive: "at_stage i (Popped d) s
    \<Longrightarrow> drain_step ext i s (move i (Received d) (bump Total_received (pl_proc s)) s)"
| dr_parse_fail: "at_stage i (Received d) s \<Longrightarrow> parse_event (px_store ext) d = None
    \<Longrightarrow> drain_step ext i s (move i Waiting (bump Total_parse_fail (pl_proc s)) s)"
| dr_parse: "at_stage i (Received d) s \<Longrightarrow> parse_event (px_store ext) d = Some evt
    \<Longrightarrow> drain_step ext i s (move i (Parsed d evt) (bump Total_parsed (pl_proc s)) s)"
| dr_invalid: "at_stage i (Parsed d evt) s \<Longrightarrow> \<not> validate (it_time (env :: iter_env)) evt
    \<Longrightarrow> drain_step ext i s (move i Waiting (bump Total_invalid (pl_proc s)) s)"
| dr_valid: "at_stage i (Parsed d evt) s \<Longrightarrow> validate (it_time (env :: iter_env)) evt
    \<Longrightarrow> drain_step ext i s (move i (Producing d evt Attempt) (bump Total_valid (pl_proc s))
          (s\<lparr>pl_admitted := Suc (pl_admitted s)\<rparr>))"
| dr_produce: "at_stage i (Producing d evt a) s \<Longrightarrow> kafka_act ext evt d a (pl_proc s) = Inr (r, p)
    \<Longrightarrow> drain_step ext i s (move i (after_produce d evt r) p s)"
| dr_no_store: "at_stage i (Produced d) s \<Longrightarrow> p_storage (pl_proc s) = None
    \<Longrightarrow> drain_step ext i s (move i Waiting (pl_proc s) (note_unstored d s))"
| dr_buffer: "at_stage i (Produced d) s \<Longrightarrow> p_storage (pl_proc s) = Some st \<Longrightarrow> save_locked d st = (None, st')
    \<Longrightarrow> drain_step ext i s (move i Waiting ((pl_proc s)\<lparr>p_storage := Some st'\<rparr>) s)"
| dr_full: "at_stage i (Produced d) s \<Longrightarrow> p_storage (pl_proc s) = Some st \<Longrightarrow> save_locked d st = (Some b, st')
    \<Longrightarrow> drain_step ext i s (move i (Flushing (start_flush b)) ((pl_proc s)\<lparr>p_storage := Some st'\<rparr>) s)"
| dr_flush: "at_stage i (Flushing f) s
    \<Longrightarrow> flush_act (px_store ext) (it_dl (env :: iter_env)) f (store_world_of (pl_proc s)) = (r', w)
    \<Longrightarrow> drain_step ext i s (move i (after_flush r') (put_world w (pl_proc s)) (note_lost (it_dl env) f s))"

inductive_cases drain_stepE: "drain_step ext i s t"

text \<open>\<open>flush_and_stop\<close> in slot \<open>i\<close>: take the buffer, then flush what was in it.\<close>

inductive swap_step :: "nat \<Rightarrow> ('r, 'k, 'c) pipeline \<Rightarrow> ('r, 'k, 'c) pipeline \<Rightarrow> bool" for i :: nat where
  sw_none: "at_stage i Waiting s \<Longrightarrow> p_storage (pl_proc s) = None \<Longrightarrow> swap_step i s (move i Waiting (pl_proc s) s)"
| sw_swap: "at_stage i Waiting s \<Longrightarrow> p_storage (pl_proc s) = Some st \<Longrightarrow> swap_locked st = (b, st')
    \<Longrightarrow> swap_step i s (move i (after_flush (map_option start_flush b)) ((pl_proc s)\<lparr>p_storage := Some st'\<rparr>) s)"

inductive slot_flush :: "('r, 'k, 'c) proc_ext \<Rightarrow> nat \<Rightarrow> ('r, 'k, 'c) pipeline \<Rightarrow> ('r, 'k, 'c) pipeline \<Rightarrow> bool"
  for ext :: "('r, 'k, 'c) proc_ext" and i :: nat where
  sl_flush: "at_stage i (Flushing f) s
    \<Longrightarrow> flush_act (px_store ext) (it_dl (env :: iter_env)) f (store_world_of (pl_proc s)) = (r, w)
    \<Longrightarrow> slot_flush ext i s (move i (after_flush r) (put_world w (pl_proc s)) (note_lost (it_dl env) f s))"

text \<open>
  The destructor of \<open>Processor\<close>: Kafka's handles go in its body, the limiter and the storage as
  members; the destructor of \<open>Storage\<close> begins by clearing its flag.
\<close>

definition Processor_release :: "('r, 'k, 'c) processor \<Rightarrow> ('r, 'k, 'c) processor" where
  "Processor_release p = p\<lparr>p_producer := None, p_limiter := None\<rparr>"

definition Storage_clear_flag :: "('r, 'k, 'c) processor \<Rightarrow> ('r, 'k, 'c) processor" where
  "Storage_clear_flag p = p\<lparr>p_storage := map_option (\<lambda>st. st\<lparr>st_running := False\<rparr>) (p_storage p)\<rparr>"

inductive stop_thread :: "('r, 'k, 'c) proc_ext \<Rightarrow> ('r, 'k, 'c) lifetime \<Rightarrow> ('r, 'k, 'c) lifetime \<Rightarrow> bool"
  for ext :: "('r, 'k, 'c) proc_ext" where
  st_call: "lt_phase s = Serving \<Longrightarrow> pl_refused (lt_pipe s) = {#}
    \<Longrightarrow> stop_thread ext s (put_proc ((lt_proc s)\<lparr>p_running := False\<rparr>) (s\<lparr>lt_phase := Joining\<rparr>))"
| st_joined: "lt_phase s = Joining \<Longrightarrow> list_all (\<lambda>l. l = Ended) (lt_loops s) \<Longrightarrow> lt_poller s = Ended
    \<Longrightarrow> stop_thread ext s (s\<lparr>lt_phase := Draining\<rparr>)"
| st_drain: "lt_phase s = Draining \<Longrightarrow> drain_step ext (main_slot s) (lt_pipe s) t
    \<Longrightarrow> stop_thread ext s (s\<lparr>lt_pipe := t\<rparr>)"
| st_drained: "lt_phase s = Draining \<Longrightarrow> at_stage (main_slot s) Waiting (lt_pipe s)
    \<Longrightarrow> try_pop [] (p_queue (lt_proc s)) = (False, d, q)
    \<Longrightarrow> stop_thread ext s (s\<lparr>lt_phase := Swap_buffer From_stop\<rparr>)"
| st_swap: "lt_phase s = Swap_buffer c \<Longrightarrow> swap_step (main_slot s) (lt_pipe s) t
    \<Longrightarrow> stop_thread ext s (s\<lparr>lt_pipe := t, lt_phase := Flush_batch c\<rparr>)"
| st_flush: "lt_phase s = Flush_batch c \<Longrightarrow> slot_flush ext (main_slot s) (lt_pipe s) t
    \<Longrightarrow> stop_thread ext s (s\<lparr>lt_pipe := t\<rparr>)"
| st_flushed: "lt_phase s = Flush_batch c \<Longrightarrow> at_stage (main_slot s) Waiting (lt_pipe s)
    \<Longrightarrow> stop_thread ext s (s\<lparr>lt_phase := return_to c\<rparr>)"
| st_kafka: "lt_phase s = Kafka_stop \<Longrightarrow> stop_kafka ext (lt_proc s) = Inr p
    \<Longrightarrow> stop_thread ext s (put_proc p (s\<lparr>lt_phase := Stopped\<rparr>))"
| st_destroy: "lt_phase s = Stopped
    \<Longrightarrow> stop_thread ext s (put_proc (Storage_clear_flag (Processor_release (lt_proc s))) (s\<lparr>lt_phase := Join_flusher\<rparr>))"
| st_flusher_joined: "lt_phase s = Join_flusher \<Longrightarrow> lt_flusher s = Ended
    \<Longrightarrow> stop_thread ext s (s\<lparr>lt_phase := Swap_buffer From_destructor\<rparr>)"

section \<open>All threads together\<close>

text \<open>
  Sessions push, and count what the queue refused, only while the processor serves: \<open>main\<close> has
  joined the I/O threads when it calls \<open>stop\<close>, so no handler is between the two.
\<close>

inductive lt_step :: "('r, 'k, 'c) proc_ext \<Rightarrow> ('r, 'k, 'c) lifetime \<Rightarrow> ('r, 'k, 'c) lifetime \<Rightarrow> bool"
  for ext :: "('r, 'k, 'c) proc_ext" where
  lt_push: "lt_phase s = Serving
    \<Longrightarrow> lt_step ext s (s\<lparr>lt_pipe := session_push d (lt_pipe s)\<rparr>)"
| lt_drop: "lt_phase s = Serving \<Longrightarrow> d \<in># pl_refused (lt_pipe s)
    \<Longrightarrow> lt_step ext s (s\<lparr>lt_pipe := session_count d (lt_pipe s)\<rparr>)"
| lt_worker: "i < length (lt_loops s) \<Longrightarrow> worker_loop ext i s t \<Longrightarrow> lt_step ext s t"
| lt_poll: "poll_loop ext s t \<Longrightarrow> lt_step ext s t"
| lt_flush: "flush_loop ext s t \<Longrightarrow> lt_step ext s t"
| lt_stop: "stop_thread ext s t \<Longrightarrow> lt_step ext s t"

definition lt_move :: "('r, 'k, 'c) proc_ext \<Rightarrow> ('r, 'k, 'c) lifetime \<Rightarrow> ('r, 'k, 'c) lifetime \<Rightarrow> bool" where
  "lt_move ext s t \<longleftrightarrow> lt_step ext s t \<or> lt_idle s t"

inductive_cases worker_loopE: "worker_loop ext i s t"
inductive_cases poll_loopE: "poll_loop ext s t"
inductive_cases flush_loopE: "flush_loop ext s t"
inductive_cases stop_threadE: "stop_thread ext s t"
inductive_cases lt_stepE: "lt_step ext s t"
inductive_cases lt_idleE: "lt_idle s t"

definition lt_init :: "('r, 'k, 'c) lifetime \<Rightarrow> bool" where
  "lt_init s \<longleftrightarrow> pl_init (lt_pipe s) \<and> length (pl_workers (lt_pipe s)) = Suc (length (lt_loops s)) \<and>
     list_all (\<lambda>l. l = At_head) (lt_loops s) \<and> p_running (lt_proc s) \<and> lt_phase s = Serving \<and>
     lt_poller s = (if p_producer (lt_proc s) = None then Ended else At_head) \<and>
     lt_flusher s = (if p_storage (lt_proc s) = None then Ended else At_head) \<and>
     (case p_storage (lt_proc s) of None \<Rightarrow> True | Some st \<Rightarrow> st_running st)"

text \<open>The processor that \<open>main\<close> has started is such a state.\<close>

definition lt_start :: "('r, 'k, 'c) server \<Rightarrow> ('r, 'k, 'c) lifetime" where
  "lt_start sv =
     (let workers = filter (\<lambda>t. t = Worker_thread) (sv_threads sv)
      in \<lparr>lt_pipe = \<lparr>pl_proc = sv_processor sv, pl_workers = map (\<lambda>_. Waiting) workers @ [Waiting], pl_flusher = None,
            pl_pushed = {#}, pl_refused = {#}, pl_unstored = {#}, pl_lost = {#}, pl_popped = 0, pl_admitted = 0\<rparr>,
          lt_loops = map (\<lambda>_. At_head) workers,
          lt_poller = (if Kafka_poll_thread \<in> set (sv_threads sv) then At_head else Ended),
          lt_flusher = (if p_storage (sv_processor sv) = None then Ended else At_head), lt_phase = Serving\<rparr>)"

lemma lt_start_init:
  assumes "main_start bc bm su env services = Inr sv"
  shows "lt_init (lt_start sv)"
proof -
  from assms have new: "Processor_new su env (ThreadSafeQueue 10000) Metrics_init services = Inr (sv_processor sv)"
    and th: "sv_threads sv = Processor_start (worker_count env) (sv_processor sv)"
    by (auto simp: main_start_def Let_def split: if_splits sum.splits)
  from Processor_new_fields [OF new] th show ?thesis
    by (auto simp: lt_init_def lt_start_def lt_proc_def pl_init_def Processor_start_def list_all_iff ThreadSafeQueue_def
        Storage_init_def Let_def)
qed

section \<open>It refines the ledger\<close>

lemma drain_step_worker:
  assumes "drain_step ext i s t"
  shows "worker_step ext i s t \<or>
    (\<exists>d evt time. at_stage i (Parsed d evt) s \<and> validate time evt \<and>
       t = move i (Producing d evt Attempt) (bump Total_valid (pl_proc s)) (s\<lparr>pl_admitted := Suc (pl_admitted s)\<rparr>))"
  using assms by cases (auto intro: worker_step.intros)

lemma slot_flush_worker: "slot_flush ext i s t \<Longrightarrow> worker_step ext i s t"
  by (erule slot_flush.cases) (blast intro: pl_flush)

text \<open>A step of the pipeline's own threads keeps the relation.\<close>

lemma tracked_worker: "tracked ext s L \<Longrightarrow> worker_step ext i s t \<Longrightarrow> \<exists>L'. (ledger_step (fits ext))\<^sup>*\<^sup>* L L' \<and> tracked ext t L'"
  using match_worker [of s L ext i t] store_vetted_worker [of ext s i t] unfolding tracked_def by blast

lemma tracked_flusher: "tracked ext s L \<Longrightarrow> flusher_step ext s t \<Longrightarrow> \<exists>L'. (ledger_step (fits ext))\<^sup>*\<^sup>* L L' \<and> tracked ext t L'"
  using match_flusher [of s L ext t] store_vetted_flusher [of ext s t] unfolding tracked_def by blast

lemma tracked_poll: "tracked ext s L \<Longrightarrow> poll_step ext s t \<Longrightarrow> \<exists>L'. (ledger_step (fits ext))\<^sup>*\<^sup>* L L' \<and> tracked ext t L'"
  using match_poll [of s L ext t] store_vetted_poll [of ext s t] unfolding tracked_def by blast

lemma tracked_session:
  assumes "tracked ext s L"
  shows "\<exists>L'. (ledger_step (fits ext))\<^sup>*\<^sup>* L L' \<and> tracked ext (session_push d s) L'"
    and "d \<in># pl_refused s \<Longrightarrow> \<exists>L'. (ledger_step (fits ext))\<^sup>*\<^sup>* L L' \<and> tracked ext (session_count d s) L'"
  using assms psl.match_step [OF assms] pl_push [of ext s d] pl_drop [of d s ext] by blast+

lemma tracked_drain:
  assumes m: "tracked ext s L" and "drain_step ext i s t"
  shows "\<exists>L'. (ledger_step (fits ext))\<^sup>*\<^sup>* L L' \<and> tracked ext t L'"
  using drain_step_worker [OF assms(2)]
proof
  assume "worker_step ext i s t"
  with m show ?thesis by (rule tracked_worker)
next
  assume "\<exists>d evt time. at_stage i (Parsed d evt) s \<and> validate time evt \<and>
       t = move i (Producing d evt Attempt) (bump Total_valid (pl_proc s)) (s\<lparr>pl_admitted := Suc (pl_admitted s)\<rparr>)"
  then obtain d evt time where a: "at_stage i (Parsed d evt) s" "validate time evt"
    and t: "t = move i (Producing d evt Attempt) (bump Total_valid (pl_proc s)) (s\<lparr>pl_admitted := Suc (pl_admitted s)\<rparr>)"
    by blast
  have v: "vetted ext d" "buffer_vetted ext (p_storage (pl_proc s))"
    using m a stage_vetted_at [of ext s i "Parsed d evt"] unfolding vetted_def by (auto simp: tracked_def store_vetted_def)
  have "ledger_match t L"
    unfolding t by (rule match_on [where old = "Parsed d evt"]) (use m a in \<open>auto simp: fate_counters_def tracked_def\<close>)
  moreover have "store_vetted ext t" unfolding t using m v by (simp add: store_vetted_move tracked_def)
  ultimately show ?thesis unfolding tracked_def by blast
qed

lemma tracked_swap:
  assumes m: "tracked ext s L" and "swap_step i s t"
  shows "\<exists>L'. (ledger_step (fits ext))\<^sup>*\<^sup>* L L' \<and> tracked ext t L'"
  using assms(2)
proof cases
  case sw_none
  with m have "ledger_match t L" by (simp add: match_on [of s L i Waiting] tracked_def)
  moreover have "store_vetted ext t" using m sw_none by (simp add: store_vetted_move tracked_def buffer_vetted_def)
  ultimately show ?thesis unfolding tracked_def by blast
next
  case (sw_swap st b st')
  let ?new = "after_flush (map_option start_flush b)"
  note h = held_move [OF sw_swap(2), of ?new] and f = flushed_move [OF sw_swap(2), of ?new]
  have bv: "buffer_vetted ext (Some st)" using m sw_swap(3) by (simp add: tracked_def store_vetted_def)
  have b: "(b = None \<and> st' = st) \<or> (b = Some (st_buffer st) \<and> st_buffer st' = [])"
    using sw_swap(4) by (auto simp: swap_locked_def split: if_splits)
  then have "stage_vetted ext ?new" "buffer_vetted ext (Some st')"
    using bv by (auto simp: after_flush_def start_flush_def buffer_vetted_def)
  with m sw_swap have v: "store_vetted ext t" by (simp add: store_vetted_move tracked_def)
  from b show ?thesis
  proof
    assume "b = None \<and> st' = st"
    with m h f sw_swap have "ledger_match t L" by (simp add: tracked_def ledger_match_def pl_count_def thread_batch_def)
    with v show ?thesis unfolding tracked_def by blast
  next
    assume b: "b = Some (st_buffer st) \<and> st_buffer st' = []"
    have "(ledger_step (fits ext))\<^sup>*\<^sup>* L (transfer Buffered In_flush (mset (st_buffer st)) L)"
      using m sw_swap(3) bv
      by (intro transferI) (auto simp: tracked_def ledger_match_def buffered_def buffer_vetted_def list_all_iff)
    moreover have "ledger_match t (transfer Buffered In_flush (mset (st_buffer st)) L)"
      using m h f sw_swap b
      by (simp add: tracked_def ledger_match_def transfer_def pl_count_def buffered_def thread_batch_def start_flush_def)
    ultimately show ?thesis using v unfolding tracked_def by blast
  qed
qed

lemma stop_kafka_fates:
  "stop_kafka ext p = Inr p' \<Longrightarrow> c \<in> fate_counters \<Longrightarrow> load c (p_metrics p') = load c (p_metrics p)"
  by (auto simp: stop_kafka_def Let_def fate_counters_def split: option.splits prod.splits sum.splits
      dest: serve_reports_frame)

lemma tracked_proc:
  assumes "tracked ext (lt_pipe s) L" and "p_queue p = p_queue (lt_proc s)"
    and "map_option st_buffer (p_storage p) = map_option st_buffer (p_storage (lt_proc s))"
    and "\<And>c. c \<in> fate_counters \<Longrightarrow> load c (p_metrics p) = load c (p_metrics (lt_proc s))"
  shows "tracked ext (lt_pipe (put_proc p s)) L"
proof -
  have "buffered (p_storage p) = buffered (p_storage (lt_proc s))"
    and "buffer_vetted ext (p_storage p) = buffer_vetted ext (p_storage (lt_proc s))"
    and "p_storage p = None \<longleftrightarrow> p_storage (lt_proc s) = None"
    using assms(3) by (auto simp: buffered_def buffer_vetted_def split: option.splits)
  with assms show ?thesis
    by (simp add: tracked_def ledger_match_def store_vetted_def put_proc_def lt_proc_def pl_count_def fate_counters_def)
qed

lemma put_proc_other [simp]:
  "put_proc p (s\<lparr>lt_phase := ph\<rparr>) = (put_proc p s)\<lparr>lt_phase := ph\<rparr>"
  "put_proc p (s\<lparr>lt_flusher := l\<rparr>) = (put_proc p s)\<lparr>lt_flusher := l\<rparr>"
  by (simp_all add: put_proc_def)

lemma tracked_stop:
  assumes m: "tracked ext (lt_pipe s) L" and "stop_thread ext s t"
  shows "\<exists>L'. (ledger_step (fits ext))\<^sup>*\<^sup>* L L' \<and> tracked ext (lt_pipe t) L'"
  using assms(2)
proof cases
  case st_call
  then have "tracked ext (lt_pipe t) L" by (simp add: tracked_proc [OF m])
  then show ?thesis by blast
next
  case (st_drain u)
  with tracked_drain [OF m] show ?thesis by auto
next
  case (st_swap c u)
  with tracked_swap [OF m] show ?thesis by auto
next
  case (st_flush c u)
  with tracked_worker [OF m slot_flush_worker] show ?thesis by auto
next
  case (st_kafka p)
  then have "tracked ext (lt_pipe t) L"
    using stop_kafka_fates [OF st_kafka(3)] stop_kafka_keeps(1,3) [OF st_kafka(3)] by (simp add: tracked_proc [OF m])
  then show ?thesis by blast
next
  case st_destroy
  then have "tracked ext (lt_pipe t) L"
    by (auto intro!: tracked_proc [OF m] simp: Storage_clear_flag_def Processor_release_def option.map_comp comp_def)
  then show ?thesis by blast
qed (use m in auto)

lemma tracked_flush_loop:
  assumes m: "tracked ext (lt_pipe s) L" and "flush_loop ext s t"
  shows "\<exists>L'. (ledger_step (fits ext))\<^sup>*\<^sup>* L L' \<and> tracked ext (lt_pipe t) L'"
  using assms(2)
proof cases
  case (fl_empty st st')
  then have "tracked ext (lt_pipe t) L"
    by (auto intro!: tracked_proc [OF m] simp: swap_locked_def split: if_splits)
  then show ?thesis by blast
next
  case (fl_flush u)
  with tracked_flusher [OF m] show ?thesis by auto
qed (use m in auto)

lemma tracked_idle: "tracked ext (lt_pipe s) L \<Longrightarrow> lt_idle s t \<Longrightarrow> tracked ext (lt_pipe t) L"
  by (erule lt_idleE) (auto intro!: tracked_proc simp: swap_locked_def split: if_splits)

lemma tracked_lt_step:
  assumes m: "tracked ext (lt_pipe s) L" and "lt_step ext s t"
  shows "\<exists>L'. (ledger_step (fits ext))\<^sup>*\<^sup>* L L' \<and> tracked ext (lt_pipe t) L'"
  using assms(2)
proof cases
  case (lt_push d)
  with tracked_session(1) [OF m, of d] show ?thesis by simp
next
  case (lt_drop d)
  with tracked_session(2) [OF m, of d] show ?thesis by simp
next
  case (lt_worker i)
  from lt_worker(2) show ?thesis using tracked_worker [OF m] m by cases auto
next
  case lt_poll
  then show ?thesis using tracked_poll [OF m] m by cases auto
next
  case lt_flush
  then show ?thesis using tracked_flush_loop [OF m] by blast
next
  case lt_stop
  then show ?thesis using tracked_stop [OF m] by blast
qed

interpretation ltl: simulation lt_init "lt_move ext" ledger_init "ledger_step (fits ext)" "\<lambda>s. tracked ext (lt_pipe s)"
  for ext :: "('r, 'k, 'c) proc_ext"
proof
  show "\<exists>L. ledger_init L \<and> tracked ext (lt_pipe s) L" if "lt_init s" for s :: "('r, 'k, 'c) lifetime"
    using that psl.match_init [of "lt_pipe s"] by (simp add: lt_init_def)
  show "\<exists>b. (ledger_step (fits ext))\<^sup>*\<^sup>* a b \<and> tracked ext (lt_pipe t) b"
    if "tracked ext (lt_pipe s) a" "lt_move ext s t" for s t :: "('r, 'k, 'c) lifetime" and a
    using that unfolding lt_move_def by (blast intro: tracked_lt_step tracked_idle)
qed

section \<open>The threads keep to their places\<close>

text \<open>How far the life of the processor has to go.\<close>

fun rank :: "phase \<Rightarrow> nat" where
  "rank Serving = 10"
| "rank Joining = 9"
| "rank Draining = 8"
| "rank (Swap_buffer From_stop) = 7"
| "rank (Flush_batch From_stop) = 6"
| "rank Kafka_stop = 5"
| "rank Stopped = 4"
| "rank Join_flusher = 3"
| "rank (Swap_buffer From_destructor) = 2"
| "rank (Flush_batch From_destructor) = 1"
| "rank Destroyed = 0"

lemma rank_swap [simp]: "rank (Swap_buffer c) = Suc (rank (Flush_batch c))"
  by (cases c) simp_all

lemma rank_return: "rank (return_to c) < rank (Flush_batch c)"
  by (cases c) simp_all

text \<open>Without a producer an event never gets past the first attempt.\<close>

fun stage_ok :: "('r, 'k, 'c) processor \<Rightarrow> stage \<Rightarrow> bool" where
  "stage_ok p (Producing d evt a) \<longleftrightarrow> p_producer p \<noteq> None \<or> a = Attempt"
| "stage_ok p _ \<longleftrightarrow> True"

lemma stage_ok_other: "p_producer p' = p_producer p \<Longrightarrow> stage_ok p' = stage_ok p"
proof
  show "stage_ok p' st = stage_ok p st" if "p_producer p' = p_producer p" for st
    using that by (cases st) simp_all
qed

text \<open>The stages of the thread in \<open>stop\<close>.\<close>

fun phase_stage :: "phase \<Rightarrow> stage \<Rightarrow> bool" where
  "phase_stage Draining st \<longleftrightarrow> \<not> is_checked st \<and> \<not> is_denied st"
| "phase_stage (Flush_batch c) st \<longleftrightarrow> st = Waiting \<or> (\<exists>f. st = Flushing f)"
| "phase_stage _ st \<longleftrightarrow> st = Waiting"

definition threads_ok :: "('r, 'k, 'c) lifetime \<Rightarrow> bool" where
  "threads_ok s \<longleftrightarrow>
     length (pl_workers (lt_pipe s)) = Suc (length (lt_loops s)) \<and>
     (\<forall>i<length (lt_loops s). lt_loops s ! i \<noteq> In_round \<longrightarrow> at_stage i Waiting (lt_pipe s)) \<and>
     list_all (stage_ok (lt_proc s)) (pl_workers (lt_pipe s)) \<and>
     phase_stage (lt_phase s) (pl_workers (lt_pipe s) ! main_slot s) \<and>
     (lt_flusher s \<noteq> In_round \<longrightarrow> pl_flusher (lt_pipe s) = None) \<and>
     (p_storage (lt_proc s) = None \<longrightarrow> lt_flusher s = Ended) \<and>
     (lt_poller s \<noteq> Ended \<longrightarrow> p_producer (lt_proc s) \<noteq> None)"

text \<open>What each phase has achieved.\<close>

definition joined :: "('r, 'k, 'c) lifetime \<Rightarrow> bool" where
  "joined s \<longleftrightarrow> list_all (\<lambda>l. l = Ended) (lt_loops s) \<and> lt_poller s = Ended"

definition phase_ok :: "('r, 'k, 'c) lifetime \<Rightarrow> bool" where
  "phase_ok s \<longleftrightarrow>
     (p_running (lt_proc s) \<longleftrightarrow> lt_phase s = Serving) \<and>
     (lt_phase s \<noteq> Serving \<longrightarrow> pl_refused (lt_pipe s) = {#}) \<and>
     (rank (lt_phase s) \<le> 8 \<longrightarrow> joined s) \<and>
     (rank (lt_phase s) \<le> 7 \<longrightarrow> tsq_queue (p_queue (lt_proc s)) = []) \<and>
     (rank (lt_phase s) \<le> 6 \<longrightarrow> buffered (p_storage (lt_proc s)) = {#}) \<and>
     (rank (lt_phase s) \<le> 3 \<longrightarrow> \<not> storage_running (lt_proc s)) \<and>
     (rank (lt_phase s) \<le> 2 \<longrightarrow> lt_flusher s = Ended)"

definition lt_inv :: "('r, 'k, 'c) lifetime \<Rightarrow> bool" where
  "lt_inv s \<longleftrightarrow> threads_ok s \<and> phase_ok s"

subsection \<open>Steps of a slot\<close>

text \<open>What a thread in slot \<open>i\<close> leaves alone.\<close>

definition slot_frame :: "nat \<Rightarrow> ('r, 'k, 'c) pipeline \<Rightarrow> ('r, 'k, 'c) pipeline \<Rightarrow> bool" where
  "slot_frame i s t \<longleftrightarrow>
     (\<exists>st. pl_workers t = (pl_workers s)[i := st] \<and> (list_all (stage_ok (pl_proc s)) (pl_workers s) \<longrightarrow> stage_ok (pl_proc t) st)) \<and>
     pl_flusher t = pl_flusher s \<and> pl_pushed t = pl_pushed s \<and> pl_refused t = pl_refused s \<and>
     p_running (pl_proc t) = p_running (pl_proc s) \<and> p_producer (pl_proc t) = p_producer (pl_proc s) \<and>
     storage_running (pl_proc t) = storage_running (pl_proc s) \<and>
     (p_storage (pl_proc t) = None \<longleftrightarrow> p_storage (pl_proc s) = None)"

lemma slot_frame_move:
  assumes "pl_workers s' = pl_workers s" and "pl_flusher s' = pl_flusher s" and "pl_pushed s' = pl_pushed s"
    and "pl_refused s' = pl_refused s" and "list_all (stage_ok (pl_proc s)) (pl_workers s) \<Longrightarrow> stage_ok p st" and "p_running p = p_running (pl_proc s)"
    and "p_producer p = p_producer (pl_proc s)"
    and "map_option st_running (p_storage p) = map_option st_running (p_storage (pl_proc s))"
  shows "slot_frame i s (move i st p s')"
proof -
  have "p_storage p = None \<longleftrightarrow> p_storage (pl_proc s) = None" using assms(8) by (metis option.map_disc_iff)
  moreover have "storage_running p = storage_running (pl_proc s)"
    using assms(8) by (auto simp: storage_running_def split: option.splits)
  ultimately show ?thesis using assms(1-7) by (auto simp: slot_frame_def move_def)
qed

lemma save_locked_flag: "save_locked d st = (b, st') \<Longrightarrow> st_running st' = st_running st"
  by (auto simp: save_locked_def Let_def split: if_splits)

lemma swap_locked_flag: "swap_locked st = (b, st') \<Longrightarrow> st_running st' = st_running st"
  by (auto simp: swap_locked_def split: if_splits)

lemma stage_ok_at: "list_all (stage_ok p) (pl_workers s) \<Longrightarrow> at_stage i st s \<Longrightarrow> stage_ok p st"
  by (auto simp: at_stage_def list_all_length)

lemma after_produce_ok:
  assumes "kafka_act ext evt d a p = Inr (r, p')" and "stage_ok p (Producing d evt a)"
  shows "stage_ok p' (after_produce d evt r)"
proof (cases "p_producer p")
  case None
  with assms have "r = None" by (auto simp: kafka_act_def split: sum.splits)
  then show ?thesis by (simp add: after_produce_def)
next
  case (Some pr)
  with kafka_act_keeps(3) [OF assms(1)] show ?thesis by (simp add: after_produce_def split: option.splits)
qed

lemma after_flush_ok [simp]: "stage_ok p (after_flush r)"
  by (simp add: after_flush_def split: option.splits)

lemma worker_step_frame:
  assumes "worker_step ext i s t"
  shows "slot_frame i s t"
  using assms
proof cases
  case (pl_produce d evt a r p)
  show ?thesis unfolding pl_produce(1)
    by (rule slot_frame_move)
      (use kafka_act_keeps [OF pl_produce(3)] after_produce_ok [OF pl_produce(3)] stage_ok_at [OF _ pl_produce(2)] in auto)
next
  case (pl_deny d evt env p)
  show ?thesis unfolding pl_deny(1) by (rule slot_frame_move) (use check_limit_keeps [OF pl_deny(3)] in auto)
next
  case (pl_admit d evt env p)
  show ?thesis unfolding pl_admit(1) by (rule slot_frame_move) (use check_limit_keeps [OF pl_admit(3)] in auto)
qed (auto intro!: slot_frame_move dest: save_locked_flag)

lemma drain_step_frame: "drain_step ext i s t \<Longrightarrow> slot_frame i s t"
  using drain_step_worker [of ext i s t] by (auto intro!: slot_frame_move dest: worker_step_frame)

lemma swap_step_frame: "swap_step i s t \<Longrightarrow> slot_frame i s t"
  by (erule swap_step.cases) (auto intro!: slot_frame_move dest: swap_locked_flag)

subsection \<open>The invariant is kept\<close>

lemma lt_simps [simp]:
  "lt_proc (put_proc p s) = p" "lt_proc (s\<lparr>lt_phase := ph\<rparr>) = lt_proc s" "lt_proc (s\<lparr>lt_flusher := l\<rparr>) = lt_proc s"
  "lt_proc (s\<lparr>lt_poller := l\<rparr>) = lt_proc s" "lt_proc (s\<lparr>lt_loops := ls\<rparr>) = lt_proc s"
  "lt_proc (s\<lparr>lt_pipe := t\<rparr>) = pl_proc t" "lt_loops (put_proc p s) = lt_loops s" "lt_poller (put_proc p s) = lt_poller s"
  "lt_flusher (put_proc p s) = lt_flusher s" "lt_phase (put_proc p s) = lt_phase s"
  "lt_pipe (put_proc p s) = (lt_pipe s)\<lparr>pl_proc := p\<rparr>" "at_stage i st (u\<lparr>pl_proc := p\<rparr>) = at_stage i st u"
  "main_slot (put_proc p s) = main_slot s" "main_slot (s\<lparr>lt_phase := ph\<rparr>) = main_slot s"
  "main_slot (s\<lparr>lt_flusher := l\<rparr>) = main_slot s" "main_slot (s\<lparr>lt_poller := l\<rparr>) = main_slot s"
  "main_slot (s\<lparr>lt_pipe := t\<rparr>) = main_slot s" "main_slot (s\<lparr>lt_loops := (lt_loops s)[i := l]\<rparr>) = main_slot s"
  by (simp_all add: lt_proc_def put_proc_def main_slot_def at_stage_def)

lemma slot_frame_stages:
  assumes "slot_frame i u t" and "list_all (stage_ok (pl_proc u)) (pl_workers u)"
  shows "list_all (stage_ok (pl_proc t)) (pl_workers t)" and "length (pl_workers t) = length (pl_workers u)"
    and "j \<noteq> i \<Longrightarrow> pl_workers t ! j = pl_workers u ! j"
proof -
  obtain st where st: "pl_workers t = (pl_workers u)[i := st]" "stage_ok (pl_proc t) st"
    using assms by (auto simp: slot_frame_def)
  have "stage_ok (pl_proc t) = stage_ok (pl_proc u)" using assms(1) by (auto simp: slot_frame_def intro: stage_ok_other)
  with st assms(2) set_update_subset_insert [of "pl_workers u" i st]
  show "list_all (stage_ok (pl_proc t)) (pl_workers t)" by (auto simp: list_all_iff)
  show "length (pl_workers t) = length (pl_workers u)" "j \<noteq> i \<Longrightarrow> pl_workers t ! j = pl_workers u ! j"
    using st(1) by simp_all
qed

lemma threads_ok_worker:
  assumes ok: "threads_ok s" and "i < length (lt_loops s)" and fr: "slot_frame i (lt_pipe s) t"
    and "l \<noteq> In_round \<Longrightarrow> at_stage i Waiting t"
  shows "threads_ok (s\<lparr>lt_pipe := t, lt_loops := (lt_loops s)[i := l]\<rparr>)"
proof -
  have "list_all (stage_ok (pl_proc (lt_pipe s))) (pl_workers (lt_pipe s))"
    using ok by (simp add: threads_ok_def lt_proc_def)
  note sf = slot_frame_stages [OF fr this]
  have "at_stage j Waiting t" if "j < length (lt_loops s)" "(lt_loops s)[i := l] ! j \<noteq> In_round" for j
    using that assms(2,4) ok sf by (cases "j = i") (auto simp: threads_ok_def at_stage_def)
  moreover have "pl_workers t ! length (lt_loops s) = pl_workers (lt_pipe s) ! length (lt_loops s)"
    using assms(2) by (intro sf(3)) simp
  ultimately show ?thesis using ok fr sf(1,2) by (auto simp: threads_ok_def slot_frame_def lt_proc_def main_slot_def)
qed

lemma threads_ok_main:
  assumes ok: "threads_ok s" and fr: "slot_frame (main_slot s) (lt_pipe s) t"
    and "phase_stage ph (pl_workers t ! main_slot s)"
  shows "threads_ok (s\<lparr>lt_pipe := t, lt_phase := ph\<rparr>)"
proof -
  have "list_all (stage_ok (pl_proc (lt_pipe s))) (pl_workers (lt_pipe s))"
    using ok by (simp add: threads_ok_def lt_proc_def)
  note sf = slot_frame_stages [OF fr this]
  have "at_stage j Waiting t" if "j < length (lt_loops s)" "lt_loops s ! j \<noteq> In_round" for j
    using that ok sf(2) sf(3) [of j] by (auto simp: threads_ok_def at_stage_def main_slot_def)
  with assms ok sf(1,2) show ?thesis by (auto simp: threads_ok_def slot_frame_def lt_proc_def main_slot_def)
qed

lemma not_joined:
  assumes "phase_ok s" and "i < length (lt_loops s)" and "lt_loops s ! i \<noteq> Ended"
  shows "8 < rank (lt_phase s)"
  using assms by (auto simp: phase_ok_def joined_def list_all_length not_less)

lemma lt_inv_worker:
  assumes inv: "lt_inv s" and i: "i < length (lt_loops s)" and "worker_loop ext i s t"
  shows "lt_inv t"
proof -
  have early: "phase_ok (s\<lparr>lt_pipe := u, lt_loops := ls\<rparr>)"
    if "lt_loops s ! i \<noteq> Ended" "p_running (pl_proc u) = p_running (lt_proc s)" "pl_refused u = pl_refused (lt_pipe s)"
      for u ls
    using not_joined [OF _ i that(1)] inv that(2,3) by (simp add: lt_inv_def phase_ok_def)
  have same: "slot_frame i (lt_pipe s) (lt_pipe s)"
    unfolding slot_frame_def
    by (rule conjI, rule exI [of _ "pl_workers (lt_pipe s) ! i"])
      (use inv i in \<open>auto simp: lt_inv_def threads_ok_def list_all_length lt_proc_def\<close>)
  have stay: "lt_inv (s\<lparr>lt_loops := (lt_loops s)[i := l]\<rparr>)"
    if "lt_loops s ! i \<noteq> Ended" "l \<noteq> In_round \<Longrightarrow> at_stage i Waiting (lt_pipe s)" for l
    using threads_ok_worker [OF _ i same that(2)] early [OF that(1), of "lt_pipe s"] inv by (simp add: lt_inv_def lt_proc_def)
  have w: "lt_loops s ! i \<noteq> In_round \<Longrightarrow> at_stage i Waiting (lt_pipe s)"
    using inv i by (simp add: lt_inv_def threads_ok_def)
  show ?thesis using assms(3)
  proof cases
    case (wl_work u)
    note fr = worker_step_frame [OF wl_work(3)]
    let ?l = "if at_stage i Waiting u then At_head else In_round"
    have "threads_ok (s\<lparr>lt_pipe := u, lt_loops := (lt_loops s)[i := ?l]\<rparr>)"
      by (rule threads_ok_worker [OF _ i fr]) (use inv in \<open>auto simp: lt_inv_def split: if_splits\<close>)
    then show ?thesis unfolding wl_work(1) lt_inv_def
      using early [of u] wl_work(2) fr by (simp add: slot_frame_def lt_proc_def)
  qed (use stay w in auto)
qed

lemma lt_inv_poll:
  assumes "lt_inv s" and "poll_loop ext s t"
  shows "lt_inv t"
  using assms(2)
proof cases
  case (po_poll u)
  from po_poll(3) obtain k m where u: "u = (lt_pipe s)\<lparr>pl_proc := (lt_proc s)\<lparr>p_kafka := k, p_metrics := m\<rparr>\<rparr>"
    "p_producer (lt_proc s) \<noteq> None"
    by (auto simp: lt_proc_def elim: poll_stepE)
  have "stage_ok ((lt_proc s)\<lparr>p_kafka := k, p_metrics := m\<rparr>) = stage_ok (lt_proc s)" by (rule stage_ok_other) simp
  with u assms(1) po_poll(1,2) show ?thesis
    by (auto simp: lt_inv_def threads_ok_def phase_ok_def joined_def main_slot_def storage_running_def)
qed (use assms(1) in \<open>auto simp: lt_inv_def threads_ok_def phase_ok_def joined_def main_slot_def\<close>)

text \<open>The flush thread takes the buffer or goes on with its batch.\<close>

lemma flusher_step_frame:
  assumes "flusher_step ext s t"
  shows "pl_workers t = pl_workers s" "pl_refused t = pl_refused s" "p_running (pl_proc t) = p_running (pl_proc s)"
    "p_producer (pl_proc t) = p_producer (pl_proc s)" "p_queue (pl_proc t) = p_queue (pl_proc s)"
    "storage_running (pl_proc t) = storage_running (pl_proc s)"
    "p_storage (pl_proc t) = None \<longleftrightarrow> p_storage (pl_proc s) = None"
    "buffered (p_storage (pl_proc s)) = {#} \<Longrightarrow> buffered (p_storage (pl_proc t)) = {#}"
  using assms
  by (auto elim!: flusher_stepE simp: storage_running_def buffered_def swap_locked_def split: if_splits)

lemma lt_inv_flush:
  assumes inv: "lt_inv s" and "flush_loop ext s t"
  shows "lt_inv t"
  using assms(2)
proof cases
  case (fl_flush u)
  note fr = flusher_step_frame [OF fl_flush(3)]
  have "stage_ok (pl_proc u) = stage_ok (pl_proc (lt_pipe s))" using fr(4) by (rule stage_ok_other)
  with fr fl_flush(1,2) inv show ?thesis
    by (auto simp: lt_inv_def threads_ok_def phase_ok_def joined_def main_slot_def lt_proc_def at_stage_def)
next
  case (fl_empty st st')
  then have "st' = st" by (auto simp: swap_locked_def split: if_splits)
  with fl_empty inv stage_ok_other [of "(lt_proc s)\<lparr>p_storage := Some st\<rparr>" "lt_proc s"] show ?thesis
    by (auto simp: lt_inv_def threads_ok_def phase_ok_def joined_def main_slot_def storage_running_def)
qed (use inv in \<open>auto simp: lt_inv_def threads_ok_def phase_ok_def joined_def main_slot_def\<close>)

lemma lt_inv_idle:
  assumes inv: "lt_inv s" and "lt_idle s t"
  shows "lt_inv t"
  using assms(2)
proof cases
  case (id_empty st st')
  then have "st' = st" by (auto simp: swap_locked_def split: if_splits)
  with id_empty inv stage_ok_other [of "(lt_proc s)\<lparr>p_storage := Some st\<rparr>" "lt_proc s"] show ?thesis
    by (auto simp: lt_inv_def threads_ok_def phase_ok_def joined_def main_slot_def storage_running_def)
qed (use inv in \<open>auto simp: lt_inv_def threads_ok_def phase_ok_def joined_def main_slot_def storage_running_def\<close>)

lemma drain_step_stage:
  assumes "drain_step ext i s t"
  shows "phase_stage Draining (pl_workers t ! i)"
proof -
  have "\<exists>st. at_stage i st s" using assms by cases blast+
  then have "i < length (pl_workers s)" by (auto simp: at_stage_def)
  with assms show ?thesis by cases (simp_all add: move_def)
qed

lemma swap_step_result:
  assumes "swap_step i s t"
  shows "pl_workers t ! i = Waiting \<or> (\<exists>f. pl_workers t ! i = Flushing f)" "p_queue (pl_proc t) = p_queue (pl_proc s)"
    "buffered (p_storage (pl_proc t)) = {#}"
  using assms
  by (auto elim!: swap_step.cases simp: move_def at_stage_def buffered_def swap_locked_def after_flush_def split: if_splits)

lemma after_flush_phase [simp]: "phase_stage (Flush_batch c) (after_flush r)"
  by (simp add: after_flush_def split: option.splits)

lemma stop_kafka_producer: "stop_kafka ext p = Inr p' \<Longrightarrow> p_producer p' = p_producer p"
  by (auto simp: stop_kafka_def Let_def split: option.splits prod.splits sum.splits)

text \<open>When all loops have ended no slot but the last can be at work.\<close>

lemma joined_waiting:
  assumes "threads_ok s" and "joined s" and "pl_workers (lt_pipe s) ! main_slot s = Waiting"
  shows "list_all (\<lambda>st. st = Waiting) (pl_workers (lt_pipe s))"
  unfolding list_all_length
proof (intro allI impI)
  fix i assume "i < length (pl_workers (lt_pipe s))"
  with assms show "pl_workers (lt_pipe s) ! i = Waiting"
    by (cases "i = main_slot s") (auto simp: threads_ok_def joined_def list_all_length at_stage_def main_slot_def)
qed

lemma lt_inv_slot:
  assumes inv: "lt_inv s" and fr: "slot_frame (main_slot s) (lt_pipe s) u" and "phase_stage ph (pl_workers u ! main_slot s)"
    and "ph \<noteq> Serving" "lt_phase s \<noteq> Serving" "rank (lt_phase s) \<le> 8"
    and "rank ph \<le> 7 \<Longrightarrow> tsq_queue (p_queue (pl_proc u)) = []"
    and "rank ph \<le> 6 \<Longrightarrow> buffered (p_storage (pl_proc u)) = {#}"
    and "rank ph \<le> 3 \<Longrightarrow> rank (lt_phase s) \<le> 3" and "rank ph \<le> 2 \<Longrightarrow> rank (lt_phase s) \<le> 2"
  shows "lt_inv (s\<lparr>lt_pipe := u, lt_phase := ph\<rparr>)"
  using threads_ok_main [OF _ fr assms(3)] assms
  by (auto simp: lt_inv_def phase_ok_def joined_def slot_frame_def lt_proc_def)

lemma same_phase: "lt_phase s = ph \<Longrightarrow> s\<lparr>lt_pipe := u, lt_phase := ph\<rparr> = s\<lparr>lt_pipe := u\<rparr>"
  by (cases s) simp

lemma lt_inv_stop:
  assumes inv: "lt_inv s" and "stop_thread ext s t"
  shows "lt_inv t"
  using assms(2)
proof cases
  case st_call
  have "stage_ok ((lt_proc s)\<lparr>p_running := False\<rparr>) = stage_ok (lt_proc s)" by (rule stage_ok_other) simp
  with inv st_call show ?thesis by (auto simp: lt_inv_def threads_ok_def phase_ok_def joined_def)
next
  case (st_drain u)
  with lt_inv_slot [OF inv drain_step_frame [OF st_drain(3)] drain_step_stage [OF st_drain(3)]] show ?thesis
    by (simp add: same_phase)
next
  case (st_drained d q)
  then have "tsq_queue (p_queue (lt_proc s)) = []" by (auto simp: try_pop_def split: list.splits)
  with inv st_drained show ?thesis by (auto simp: lt_inv_def threads_ok_def phase_ok_def joined_def at_stage_def)
next
  case (st_swap c u)
  note res = swap_step_result [OF st_swap(3)]
  have "tsq_queue (p_queue (lt_proc s)) = []" using inv st_swap(2) by (cases c) (auto simp: lt_inv_def phase_ok_def)
  with lt_inv_slot [OF inv swap_step_frame [OF st_swap(3)], of "Flush_batch c"] res st_swap show ?thesis
    by (cases c) (auto simp: lt_proc_def)
next
  case (st_flush c u)
  note fr = worker_step_frame [OF slot_flush_worker [OF st_flush(3)]]
  from st_flush(3) have ph: "phase_stage (Flush_batch c) (pl_workers u ! main_slot s)"
    and u: "p_queue (pl_proc u) = p_queue (lt_proc s)" "p_storage (pl_proc u) = p_storage (lt_proc s)"
    by (cases; simp add: move_def at_stage_def lt_proc_def del: phase_stage.simps)+
  have "tsq_queue (p_queue (lt_proc s)) = []" "buffered (p_storage (lt_proc s)) = {#}"
    using inv st_flush(2) by (cases c; simp add: lt_inv_def phase_ok_def)+
  with lt_inv_slot [OF inv fr ph] u st_flush(1,2) show ?thesis by (cases c) (simp_all add: same_phase)
next
  case (st_flushed c)
  with inv show ?thesis by (cases c) (auto simp: lt_inv_def threads_ok_def phase_ok_def joined_def at_stage_def)
next
  case (st_kafka p)
  note k = stop_kafka_keeps(1,2,3) [OF st_kafka(3)] stop_kafka_producer [OF st_kafka(3)]
  have "stage_ok p = stage_ok (lt_proc s)" using k(4) by (rule stage_ok_other)
  with k inv st_kafka show ?thesis
    by (auto simp: lt_inv_def threads_ok_def phase_ok_def joined_def storage_running_def)
next
  case st_destroy
  have "list_all (\<lambda>st. st = Waiting) (pl_workers (lt_pipe s))"
    using inv st_destroy by (intro joined_waiting) (auto simp: lt_inv_def phase_ok_def threads_ok_def)
  then have "list_all (stage_ok (Storage_clear_flag (Processor_release (lt_proc s)))) (pl_workers (lt_pipe s))"
    by (auto simp: list_all_iff)
  with inv st_destroy show ?thesis
    by (auto simp: lt_inv_def threads_ok_def phase_ok_def joined_def storage_running_def Storage_clear_flag_def
        Processor_release_def buffered_def split: option.splits)
qed (use inv in \<open>auto simp: lt_inv_def threads_ok_def phase_ok_def joined_def\<close>)

lemma lt_inv_session:
  assumes "lt_inv s" and "lt_phase s = Serving"
  shows "lt_inv (s\<lparr>lt_pipe := session_push d (lt_pipe s)\<rparr>)" and "lt_inv (s\<lparr>lt_pipe := session_count d (lt_pipe s)\<rparr>)"
proof -
  have "stage_ok (pl_proc (session_push d (lt_pipe s))) = stage_ok (lt_proc s)"
    "stage_ok (bump Total_queue_drop (lt_proc s)) = stage_ok (lt_proc s)"
    by (rule stage_ok_other, simp add: lt_proc_def)+
  with assms show "lt_inv (s\<lparr>lt_pipe := session_push d (lt_pipe s)\<rparr>)" "lt_inv (s\<lparr>lt_pipe := session_count d (lt_pipe s)\<rparr>)"
    by (auto simp: lt_inv_def threads_ok_def phase_ok_def at_stage_def lt_proc_def)
qed

interpretation lti: inductive_invariant lt_init "lt_move ext" lt_inv for ext :: "('r, 'k, 'c) proc_ext"
proof
  show "lt_inv s" if "lt_init s" for s :: "('r, 'k, 'c) lifetime"
    using that
    by (auto simp: lt_init_def pl_init_def lt_inv_def threads_ok_def phase_ok_def list_all_length at_stage_def main_slot_def)
  show "lt_inv t" if "lt_inv s" "lt_move ext s t" for s t
    using that unfolding lt_move_def
    by (blast elim: lt_stepE intro: lt_inv_session lt_inv_worker lt_inv_poll lt_inv_flush lt_inv_stop lt_inv_idle)
qed

section \<open>The counters at every moment\<close>

lemma pl_inv_drain:
  assumes "pl_inv s" and "drain_step ext i s t"
  shows "pl_inv t"
  using drain_step_worker [OF assms(2)]
proof
  assume "worker_step ext i s t"
  with assms(1) show ?thesis by (rule pl_inv_worker)
qed (use assms(1) in \<open>auto simp: pl_inv_def staged_move pl_count_def algebra_simps\<close>)

lemma pl_inv_proc:
  assumes "pl_inv s" and "p_queue p = p_queue (pl_proc s)"
    and "\<And>c. c \<notin> sink_counters \<Longrightarrow> load c (p_metrics p) = load c (p_metrics (pl_proc s))"
  shows "pl_inv (s\<lparr>pl_proc := p\<rparr>)"
  using assms by (simp add: pl_inv_def pl_count_def sink_counters_def)

lemma pl_inv_storage: "pl_inv (s\<lparr>pl_proc := (pl_proc s)\<lparr>p_storage := st\<rparr>\<rparr>) = pl_inv s"
  by (simp add: pl_inv_def pl_count_def)

lemma pl_inv_swap: "pl_inv s \<Longrightarrow> swap_step i s t \<Longrightarrow> pl_inv t"
  by (erule swap_step.cases) (simp_all add: pl_inv_def staged_move pl_count_def)

lemma pl_inv_stop:
  assumes "pl_inv (lt_pipe s)" and "stop_thread ext s t"
  shows "pl_inv (lt_pipe t)"
  using assms(2)
proof cases
  case st_call
  then show ?thesis using pl_inv_proc [OF assms(1), of "(lt_proc s)\<lparr>p_running := False\<rparr>"] by (simp add: lt_proc_def)
next
  case (st_kafka p)
  then show ?thesis using pl_inv_proc [OF assms(1), of p] stop_kafka_keeps(1,4) [OF st_kafka(3)] by (simp add: lt_proc_def)
next
  case st_destroy
  then show ?thesis using pl_inv_proc [OF assms(1), of "Storage_clear_flag (Processor_release (lt_proc s))"]
    by (simp add: lt_proc_def Storage_clear_flag_def Processor_release_def)
qed (use assms(1) in \<open>auto intro: pl_inv_drain pl_inv_swap pl_inv_worker slot_flush_worker\<close>)

lemma pl_inv_lt_step:
  assumes "pl_inv (lt_pipe s)" and "lt_step ext s t"
  shows "pl_inv (lt_pipe t)"
  using assms(2)
proof cases
  case (lt_push d)
  with pl_inv_push [OF assms(1), of d] show ?thesis by simp
next
  case (lt_drop d)
  with pl_inv_drop [OF assms(1), of d] show ?thesis by simp
next
  case (lt_worker i)
  then show ?thesis using assms(1) by (auto elim!: worker_loopE intro: pl_inv_worker)
next
  case lt_poll
  then show ?thesis using assms(1) by (auto elim!: poll_loopE intro: pl_inv_poll)
next
  case lt_flush
  then show ?thesis using assms(1) by (auto elim!: flush_loopE intro: pl_inv_flusher simp: lt_proc_def pl_inv_storage)
next
  case lt_stop
  with pl_inv_stop [OF assms(1)] show ?thesis by blast
qed

interpretation lta: inductive_invariant lt_init "lt_move ext" "\<lambda>s. pl_inv (lt_pipe s)" for ext :: "('r, 'k, 'c) proc_ext"
proof
  show "pl_inv (lt_pipe s)" if "lt_init s" for s :: "('r, 'k, 'c) lifetime"
    using that pli.inv_init [of "lt_pipe s"] by (simp add: lt_init_def)
  show "pl_inv (lt_pipe t)" if "pl_inv (lt_pipe s)" "lt_move ext s t" for s t
    using that unfolding lt_move_def
    by (auto elim!: lt_idleE intro: pl_inv_lt_step simp: lt_proc_def pl_inv_storage)
qed

end
