(* ===== verification/Stop_Progress.thy ===== *)
theory Stop_Progress
  imports Lifetime
begin

text \<open>
  \<open>Processor::stop\<close> and the destructors come to an end, whatever the order of the threads' actions:
  a measure that every action but the idle rounds of the flush thread decreases, and for every
  state before the end a thread that can go on.  The locale \<open>progress\<close> of \<open>Prelude\<close> is interpreted
  on them.
\<close>

section \<open>The shutdown ends\<close>

text \<open>
  The effort left: an upper bound of the actions to come.  A queued message costs at most 17
  (taking it, counting, parsing, checking, four actions for Kafka, saving), a buffered one at most
  7 (taking the buffer and a flush of five actions).
\<close>

fun stage_effort :: "stage \<Rightarrow> nat" where
  "stage_effort Waiting = 0"
| "stage_effort (Popped d) = 16"
| "stage_effort (Received d) = 15"
| "stage_effort (Parsed d evt) = 14"
| "stage_effort (Checked d evt) = 13"
| "stage_effort (Denied d) = 1"
| "stage_effort (Producing d evt a) = 8 + productions_left a"
| "stage_effort (Produced d) = 8"
| "stage_effort (Flushing f) = actions_left f"

definition flush_effort :: "flush option \<Rightarrow> nat" where
  "flush_effort r = (case r of None \<Rightarrow> 0 | Some f \<Rightarrow> actions_left f)"

definition shared_effort :: "('r, 'k, 'c) processor \<Rightarrow> nat" where
  "shared_effort p = 17 * length (tsq_queue (p_queue p)) + 7 * size (buffered (p_storage p))"

definition pl_effort :: "('r, 'k, 'c) pipeline \<Rightarrow> nat" where
  "pl_effort s = shared_effort (pl_proc s) + sum_list (map stage_effort (pl_workers s)) + flush_effort (pl_flusher s)"

fun loop_effort :: "loop \<Rightarrow> nat" where
  "loop_effort At_head = 1"
| "loop_effort In_round = 2"
| "loop_effort Ended = 0"

definition lt_effort :: "('r, 'k, 'c) lifetime \<Rightarrow> nat" where
  "lt_effort s = rank (lt_phase s) + pl_effort (lt_pipe s) + sum_list (map loop_effort (lt_loops s)) + loop_effort (lt_poller s)
     + (if storage_running (lt_proc s) then 2 else loop_effort (lt_flusher s))"

lemma effort_move:
  assumes "at_stage i old s" and "pl_workers s' = pl_workers s" and "pl_flusher s' = pl_flusher s"
    and "shared_effort p + stage_effort st < shared_effort (pl_proc s) + stage_effort old"
  shows "pl_effort (move i st p s') < pl_effort s"
  using sum_list_map_update [of i "pl_workers s" stage_effort st] assms
  by (simp add: pl_effort_def at_stage_def move_def)

lemma after_produce_effort:
  assumes "kafka_act ext evt d a p = Inr (r, p')"
  shows "stage_effort (after_produce d evt r) < 8 + productions_left a"
proof -
  have "productions_left b < productions_left a" if "r = Some b" for b
    using assms that by (auto simp: kafka_act_def split: sum.splits dest: produce_act_decreases)
  moreover have "0 < productions_left a" by (cases a) simp_all
  ultimately show ?thesis by (simp add: after_produce_def split: option.splits)
qed

lemma flush_act_effort: "flush_act ext env f w = (r, w') \<Longrightarrow> flush_effort r < actions_left f"
  using flush_act_decreases [of ext env f w] by (cases f) (auto simp: flush_effort_def split: option.splits)

lemma after_flush_effort [simp]: "stage_effort (after_flush r) = flush_effort r"
  by (simp add: after_flush_def flush_effort_def split: option.splits)

lemma start_flush_effort [simp]: "actions_left (start_flush b) = 5"
  by (simp add: start_flush_def)

lemma save_locked_effort:
  assumes "save_locked d st = (b, st')"
  shows "7 * length (st_buffer st') + flush_effort (map_option start_flush b) < 7 * length (st_buffer st) + 8"
  using assms by (auto simp: save_locked_def flush_effort_def Let_def split: if_splits)

lemma swap_locked_effort:
  assumes "swap_locked st = (b, st')"
  shows "7 * length (st_buffer st') + flush_effort (map_option start_flush b) \<le> 7 * length (st_buffer st)"
    and "b = Some x \<Longrightarrow> 7 * length (st_buffer st') + 5 < 7 * length (st_buffer st)"
  using assms by (auto simp: swap_locked_def flush_effort_def neq_Nil_conv split: if_splits)

lemma worker_step_effort:
  assumes "worker_step ext i s t"
  shows "pl_effort t < pl_effort s"
  using assms
proof cases
  case (pl_deny d evt env p)
  show ?thesis unfolding pl_deny(1)
    by (rule effort_move [OF pl_deny(2)]) (use check_limit_keeps [OF pl_deny(3)] in \<open>simp_all add: shared_effort_def\<close>)
next
  case (pl_admit d evt env p)
  show ?thesis unfolding pl_admit(1)
    by (rule effort_move [OF pl_admit(2)]) (use check_limit_keeps [OF pl_admit(3)] in \<open>simp_all add: shared_effort_def\<close>)
next
  case (pl_produce d evt a r p)
  show ?thesis unfolding pl_produce(1)
    by (rule effort_move [OF pl_produce(2)])
      (use kafka_act_keeps [OF pl_produce(3)] after_produce_effort [OF pl_produce(3)] in \<open>simp_all add: shared_effort_def\<close>)
next
  case (pl_buffer d st st')
  show ?thesis unfolding pl_buffer(1)
    by (rule effort_move [OF pl_buffer(2)])
      (use pl_buffer(3) save_locked_effort [OF pl_buffer(4)] in \<open>simp_all add: shared_effort_def buffered_def flush_effort_def\<close>)
next
  case (pl_full d st b st')
  show ?thesis unfolding pl_full(1)
    by (rule effort_move [OF pl_full(2)])
      (use pl_full(3) save_locked_effort [OF pl_full(4)] in \<open>simp_all add: shared_effort_def buffered_def flush_effort_def\<close>)
next
  case (pl_flush f env r w)
  show ?thesis unfolding pl_flush(1)
    by (rule effort_move [OF pl_flush(2)]) (use flush_act_effort [OF pl_flush(3)] in \<open>simp_all add: shared_effort_def\<close>)
next
  case (pl_pop d q)
  show ?thesis unfolding pl_pop(1)
    by (rule effort_move [OF pl_pop(2)]) (use try_pop_length [OF pl_pop(3)] in \<open>simp_all add: shared_effort_def\<close>)
qed (auto intro!: effort_move simp: shared_effort_def)

lemma drain_step_effort:
  assumes "drain_step ext i s t"
  shows "pl_effort t < pl_effort s"
  using drain_step_worker [OF assms] worker_step_effort
  by (auto intro!: effort_move simp: shared_effort_def)

lemma swap_step_effort:
  assumes "swap_step i s t"
  shows "pl_effort t \<le> pl_effort s"
  using assms
proof cases
  case sw_none
  have "move i Waiting (pl_proc s) s = s"
    using sw_none(2) by (simp add: move_def at_stage_def list_update_same_conv [THEN iffD2])
  with sw_none(1) show ?thesis by simp
next
  case (sw_swap st b st')
  have "shared_effort ((pl_proc s)\<lparr>p_storage := Some st'\<rparr>) + flush_effort (map_option start_flush b)
      < Suc (shared_effort (pl_proc s))"
    using sw_swap(3) swap_locked_effort(1) [OF sw_swap(4)] by (simp add: shared_effort_def buffered_def)
  with sum_list_map_update [of i "pl_workers s" stage_effort "after_flush (map_option start_flush b)"] sw_swap(1,2)
  show ?thesis by (simp add: pl_effort_def at_stage_def move_def)
qed

lemma flusher_step_effort:
  assumes "flusher_step ext s t"
  shows "pl_effort t < pl_effort s"
  using assms
proof cases
  case (pl_swap st b st')
  with swap_locked_effort(2) [OF pl_swap(4)] show ?thesis
    by (simp add: pl_effort_def shared_effort_def buffered_def flush_effort_def)
next
  case (pl_flush_thread f env r w)
  with flush_act_effort [OF pl_flush_thread(3)] show ?thesis
    by (simp add: pl_effort_def shared_effort_def flush_effort_def)
qed

text \<open>
  A processor that is being stopped, in a configuration in which no delivery report crashes the
  process.
\<close>

definition closing :: "('r, 'k, 'c) proc_ext \<Rightarrow> ('r, 'k, 'c) lifetime \<Rightarrow> bool" where
  "closing ext s \<longleftrightarrow> lt_inv s \<and> lt_phase s \<noteq> Serving \<and> reports_safe ext (lt_proc s)"

lemma closing_not_running: "closing ext s \<Longrightarrow> \<not> p_running (lt_proc s)"
  by (simp add: closing_def lt_inv_def phase_ok_def)

lemma loops_effort:
  assumes "i < length ls" and "loop_effort l \<le> loop_effort (ls ! i)"
  shows "sum_list (map loop_effort (ls[i := l])) \<le> sum_list (map loop_effort ls)"
    and "loop_effort l < loop_effort (ls ! i) \<Longrightarrow> sum_list (map loop_effort (ls[i := l])) < sum_list (map loop_effort ls)"
  using sum_list_map_update [OF assms(1), of loop_effort l] assms(2) by simp_all

lemma worker_loop_effort:
  assumes "closing ext s" and i: "i < length (lt_loops s)" and "worker_loop ext i s t"
  shows "lt_effort t < lt_effort s"
  using assms(3)
proof cases
  case wl_enter
  with closing_not_running [OF assms(1)] show ?thesis by simp
next
  case (wl_work u)
  let ?l = "if at_stage i Waiting u then At_head else In_round"
  have "sum_list (map loop_effort ((lt_loops s)[i := ?l])) \<le> sum_list (map loop_effort (lt_loops s))"
    using wl_work(2) by (intro loops_effort [OF i]) simp
  moreover have "storage_running (pl_proc u) = storage_running (lt_proc s)"
    using worker_step_frame [OF wl_work(3)] by (simp add: slot_frame_def lt_proc_def)
  ultimately show ?thesis using worker_step_effort [OF wl_work(3)] wl_work(1) by (simp add: lt_effort_def)
qed (use loops_effort(2) [OF i] in \<open>simp_all add: lt_effort_def\<close>)

lemma poll_loop_effort:
  assumes "closing ext s" and "poll_loop ext s t"
  shows "lt_effort t < lt_effort s"
  using assms(2)
proof cases
  case po_enter
  with closing_not_running [OF assms(1)] show ?thesis by simp
next
  case (po_poll u)
  from po_poll(3) have "pl_effort u = pl_effort (lt_pipe s)" "storage_running (pl_proc u) = storage_running (lt_proc s)"
    by (auto elim!: poll_stepE simp: pl_effort_def shared_effort_def storage_running_def lt_proc_def)
  with po_poll(1,2) show ?thesis by (simp add: lt_effort_def)
qed (simp add: lt_effort_def)

lemma flush_loop_effort:
  assumes "flush_loop ext s t"
  shows "lt_effort t < lt_effort s"
  using assms
proof cases
  case (fl_empty st st')
  then have "st' = st" by (auto simp: swap_locked_def split: if_splits)
  with fl_empty show ?thesis
    by (auto simp: lt_effort_def pl_effort_def shared_effort_def storage_running_def lt_proc_def)
next
  case (fl_flush u)
  with flusher_step_effort [OF fl_flush(3)] flusher_step_frame(5) [OF fl_flush(3)] show ?thesis
    by (simp add: lt_effort_def lt_proc_def)
qed (simp add: lt_effort_def)

lemma lt_idle_effort:
  assumes "lt_idle s t"
  shows "lt_effort t \<le> lt_effort s"
  using assms
proof cases
  case (id_empty st st')
  then have "st' = st" by (auto simp: swap_locked_def split: if_splits)
  with id_empty show ?thesis
    by (auto simp: lt_effort_def pl_effort_def shared_effort_def storage_running_def lt_proc_def)
qed (simp add: lt_effort_def)

lemma stop_thread_effort:
  assumes "closing ext s" and "stop_thread ext s t"
  shows "lt_effort t < lt_effort s"
  using assms(2)
proof cases
  case st_call
  with assms(1) show ?thesis by (simp add: closing_def)
next
  case (st_drain u)
  with drain_step_effort [OF st_drain(3)] drain_step_frame [OF st_drain(3)] show ?thesis
    by (simp add: lt_effort_def slot_frame_def lt_proc_def)
next
  case (st_swap c u)
  with swap_step_effort [OF st_swap(3)] swap_step_frame [OF st_swap(3)] show ?thesis
    by (simp add: lt_effort_def slot_frame_def lt_proc_def)
next
  case (st_flush c u)
  note w = slot_flush_worker [OF st_flush(3)]
  from worker_step_effort [OF w] worker_step_frame [OF w] st_flush(1) show ?thesis
    by (simp add: lt_effort_def slot_frame_def lt_proc_def)
next
  case (st_flushed c)
  with rank_return [of c] show ?thesis by (simp add: lt_effort_def)
next
  case (st_kafka p)
  with stop_kafka_keeps(1,3) [OF st_kafka(3)] show ?thesis
    by (simp add: lt_effort_def pl_effort_def shared_effort_def storage_running_def lt_proc_def)
next
  case st_destroy
  have "loop_effort (lt_flusher s) \<le> 2" by (cases "lt_flusher s") simp_all
  with st_destroy show ?thesis
    by (auto simp: lt_effort_def pl_effort_def shared_effort_def storage_running_def lt_proc_def Storage_clear_flag_def
        Processor_release_def buffered_def split: option.splits)
qed (simp_all add: lt_effort_def)

lemma lt_step_effort:
  assumes "closing ext s" and "lt_step ext s t"
  shows "lt_effort t < lt_effort s"
  using assms(2)
proof cases
  case (lt_push d)
  with assms(1) show ?thesis by (simp add: closing_def)
next
  case (lt_drop d)
  with assms(1) show ?thesis by (simp add: closing_def)
next
  case (lt_worker i)
  with worker_loop_effort [OF assms(1)] show ?thesis by blast
next
  case lt_poll
  with poll_loop_effort [OF assms(1)] show ?thesis by blast
next
  case lt_flush
  with flush_loop_effort show ?thesis by blast
next
  case lt_stop
  with stop_thread_effort [OF assms(1)] show ?thesis by blast
qed

subsection \<open>Some thread can always go on\<close>

lemma kafka_act_safe:
  assumes "reports_safe ext p" and "stage_ok p (Producing d evt a)"
  shows "\<exists>r p'. kafka_act ext evt d a p = Inr (r, p')"
proof -
  have "px_opaque ext = Opaque_metrics \<or> a \<noteq> Local_full" using assms by (auto simp: reports_safe_def)
  from produce_act_safe [OF this] obtain r where
    "produce_act (px_kafka ext) (px_opaque ext) (p_producer p) (user_id evt) d a (p_kafka p, p_metrics p) = Inr r"
    by blast
  then show ?thesis by (cases r) (simp add: kafka_act_def)
qed

context delivery_code
begin

lemma delivery_enabled:
  assumes "at_stage i st s" and "(\<exists>d evt a. st = Producing d evt a) \<or> (\<exists>d. st = Produced d) \<or> (\<exists>f. st = Flushing f)"
    and "reports_safe ext (pl_proc s)" and "stage_ok (pl_proc s) st"
  shows "\<exists>t. step s t"
  using assms(2)
proof (elim disjE exE)
  fix d evt a assume st: "st = Producing d evt a"
  with kafka_act_safe [OF assms(3)] assms(4) obtain r p where "kafka_act ext evt d a (pl_proc s) = Inr (r, p)" by blast
  with act_produce assms(1) st show ?thesis by blast
next
  fix d assume st: "st = Produced d"
  show ?thesis
  proof (cases "p_storage (pl_proc s)")
    case None
    with act_no_store assms(1) st show ?thesis by blast
  next
    case (Some sto)
    obtain b sto' where "save_locked d sto = (b, sto')" by fastforce
    with act_buffer act_full assms(1) st Some show ?thesis by (cases b) blast+
  qed
next
  fix f assume st: "st = Flushing f"
  obtain r w where "flush_act (px_store ext) (it_dl sample_env) f (store_world_of (pl_proc s)) = (r, w)" by fastforce
  with act_flush assms(1) st show ?thesis by blast
qed

end

interpretation drc: delivery_code ext i "drain_step ext i" for ext :: "('r, 'k, 'c) proc_ext" and i
  by unfold_locales (rule dr_produce dr_no_store dr_buffer dr_full dr_flush, assumption+)+

lemma worker_step_enabled:
  assumes a: "at_stage i st s" and "st \<noteq> Waiting" and "reports_safe ext (pl_proc s)" and "stage_ok (pl_proc s) st"
  shows "\<exists>t. worker_step ext i s t"
proof (cases st)
  case (Popped d)
  with a pl_receive show ?thesis by blast
next
  case (Received d)
  with a show ?thesis by (cases "parse_event (px_store ext) d") (blast intro: pl_parse_fail pl_parse)+
next
  case (Parsed d evt)
  with a show ?thesis by (cases "validate (it_time sample_env) evt") (blast intro: pl_invalid pl_valid)+
next
  case (Checked d evt)
  obtain ok p where "check_limit ext sample_env evt (pl_proc s) = (ok, p)" by fastforce
  with a Checked show ?thesis by (cases ok) (auto intro: pl_deny pl_admit)
next
  case (Denied d)
  with a pl_limited show ?thesis by blast
qed (use assms wkc.delivery_enabled [OF a, of ext] in simp_all)

lemma drain_step_enabled:
  assumes a: "at_stage i st s" and "st \<noteq> Waiting" and "reports_safe ext (pl_proc s)" and "stage_ok (pl_proc s) st"
    and "phase_stage Draining st"
  shows "\<exists>t. drain_step ext i s t"
proof (cases st)
  case (Received d)
  with a show ?thesis by (cases "parse_event (px_store ext) d") (blast intro: dr_parse_fail dr_parse)+
next
  case (Parsed d evt)
  with a show ?thesis by (cases "validate (it_time sample_env) evt") (blast intro: dr_invalid dr_valid)+
next
  case (Popped d)
  with a dr_receive show ?thesis by blast
qed (use assms drc.delivery_enabled [OF a, of ext] in simp_all)

lemma pop_or_empty: "tsq_queue q = [] \<or> (\<exists>d q'. try_pop [] q = (True, d, q'))"
  by (cases "tsq_queue q") (simp_all add: try_pop_def)

lemma stage_ok_slot:
  assumes "closing ext s" and "at_stage i st (lt_pipe s)"
  shows "stage_ok (pl_proc (lt_pipe s)) st"
  using assms stage_ok_at [of "lt_proc s" "lt_pipe s"] by (simp add: closing_def lt_inv_def threads_ok_def lt_proc_def)

lemma worker_goes_on:
  assumes c: "closing ext s" and i: "i < length (lt_loops s)" and "lt_loops s ! i \<noteq> Ended"
  shows "\<exists>t. worker_loop ext i s t"
proof (cases "lt_loops s ! i")
  case At_head
  with closing_not_running [OF c] show ?thesis by (blast intro: wl_leave)
next
  case In_round
  define st where "st = pl_workers (lt_pipe s) ! i"
  have a: "at_stage i st (lt_pipe s)"
    using c i by (simp add: st_def at_stage_def closing_def lt_inv_def threads_ok_def)
  show ?thesis
  proof (cases "st = Waiting")
    case True
    with a In_round pop_or_empty [of "p_queue (lt_proc s)"] show ?thesis
      unfolding lt_proc_def by (blast intro: wl_timeout [unfolded lt_proc_def] wl_work pl_pop)
  next
    case False
    have "reports_safe ext (pl_proc (lt_pipe s))" using c by (simp add: closing_def lt_proc_def)
    from worker_step_enabled [OF a False this stage_ok_slot [OF c a]] In_round show ?thesis by (blast intro: wl_work)
  qed
qed (use assms in simp)

lemma poller_goes_on:
  assumes c: "closing ext s" and "lt_poller s \<noteq> Ended"
  shows "\<exists>t. poll_loop ext s t"
proof (cases "lt_poller s")
  case At_head
  with closing_not_running [OF c] show ?thesis by (blast intro: po_leave)
next
  case In_round
  have pr: "p_producer (pl_proc (lt_pipe s)) \<noteq> None"
    using c assms(2) by (simp add: closing_def lt_inv_def threads_ok_def lt_proc_def)
  then have "px_opaque ext = Opaque_metrics" using c by (auto simp: closing_def reports_safe_def lt_proc_def)
  with kafka_poll_safe obtain k m where
    "kafka_poll (px_kafka ext) (px_opaque ext) (p_kafka (pl_proc (lt_pipe s)), p_metrics (pl_proc (lt_pipe s))) = Inr (k, m)"
    by (metis surj_pair)
  with pl_poll [OF pr] In_round show ?thesis by (blast intro: po_poll)
qed (use assms in simp)

lemma flusher_goes_on:
  assumes c: "closing ext s" and "lt_flusher s \<noteq> Ended" and "\<not> storage_running (lt_proc s)"
  shows "\<exists>t. flush_loop ext s t"
proof (cases "lt_flusher s")
  case At_head
  with assms(3) show ?thesis by (blast intro: fl_leave)
next
  case In_round
  obtain st where st: "p_storage (lt_proc s) = Some st"
    using c assms(2) by (auto simp: closing_def lt_inv_def threads_ok_def)
  show ?thesis
  proof (cases "pl_flusher (lt_pipe s)")
    case None
    obtain b st' where "swap_locked st = (b, st')" by fastforce
    with None st In_round assms(3) show ?thesis
      by (cases b) (blast intro: fl_empty, blast intro: fl_flush pl_swap [OF _ st [unfolded lt_proc_def]])
  next
    case (Some f)
    obtain r w where "flush_act (px_store ext) (it_dl sample_env) f (store_world_of (pl_proc (lt_pipe s))) = (r, w)"
      by fastforce
    with Some In_round show ?thesis by (blast intro: fl_flush pl_flush_thread)
  qed
qed (use assms in simp)

lemma main_at: "threads_ok s \<Longrightarrow> at_stage (main_slot s) (pl_workers (lt_pipe s) ! main_slot s) (lt_pipe s)"
  by (simp add: threads_ok_def at_stage_def main_slot_def)

lemma joining_goes_on:
  assumes c: "closing ext s" and "lt_phase s = Joining"
  shows "\<exists>t. lt_step ext s t"
proof (cases "joined s")
  case True
  with assms(2) have "stop_thread ext s (s\<lparr>lt_phase := Draining\<rparr>)" by (intro st_joined) (simp_all add: joined_def)
  then show ?thesis by (blast intro: lt_stop)
next
  case False
  then consider i where "i < length (lt_loops s)" "lt_loops s ! i \<noteq> Ended" | "lt_poller s \<noteq> Ended"
    by (auto simp: joined_def list_all_length)
  then show ?thesis by cases (blast dest: worker_goes_on [OF c] poller_goes_on [OF c] intro: lt_worker lt_poll)+
qed

lemma draining_goes_on:
  assumes c: "closing ext s" and ph: "lt_phase s = Draining"
  shows "\<exists>t. lt_step ext s t"
proof -
  let ?st = "pl_workers (lt_pipe s) ! main_slot s"
  have ok: "threads_ok s" and rs: "reports_safe ext (pl_proc (lt_pipe s))"
    using c by (simp_all add: closing_def lt_inv_def lt_proc_def)
  note a = main_at [OF ok]
  have "\<exists>t. stop_thread ext s t"
  proof (cases "?st = Waiting")
    case True
    with a have w: "at_stage (main_slot s) Waiting (lt_pipe s)" by simp
    show ?thesis
    proof (cases "tsq_queue (p_queue (lt_proc s)) = []")
      case True
      then have "try_pop [] (p_queue (lt_proc s)) = (False, [], p_queue (lt_proc s))" by (simp add: try_pop_def)
      with st_drained [OF ph w] show ?thesis by blast
    next
      case False
      with pop_or_empty [of "p_queue (lt_proc s)"] dr_pop [OF w, folded lt_proc_def] st_drain [OF ph] show ?thesis by blast
    qed
  next
    case False
    have "phase_stage Draining ?st" using ok ph by (simp add: threads_ok_def)
    from drain_step_enabled [OF a False rs stage_ok_slot [OF c a] this] st_drain [OF ph] show ?thesis by blast
  qed
  then show ?thesis by (blast intro: lt_stop)
qed

lemma swap_step_enabled:
  assumes "at_stage i Waiting s"
  shows "\<exists>t. swap_step i s t"
proof (cases "p_storage (pl_proc s)")
  case None
  with sw_none [OF assms] show ?thesis by blast
next
  case (Some st)
  obtain b st' where "swap_locked st = (b, st')" by fastforce
  with sw_swap [OF assms Some] show ?thesis by blast
qed

lemma stop_goes_on:
  assumes c: "closing ext s" and ph: "rank (lt_phase s) < 8" "lt_phase s \<noteq> Destroyed" "lt_phase s \<noteq> Join_flusher"
  shows "\<exists>t. stop_thread ext s t"
proof -
  have ok: "threads_ok s" using c by (simp add: closing_def lt_inv_def)
  note a = main_at [OF ok]
  show ?thesis
  proof (cases "lt_phase s")
    case (Swap_buffer cl)
    with ok a have "at_stage (main_slot s) Waiting (lt_pipe s)" by (simp add: threads_ok_def)
    from swap_step_enabled [OF this] st_swap [OF Swap_buffer] show ?thesis by blast
  next
    case (Flush_batch cl)
    then have "pl_workers (lt_pipe s) ! main_slot s = Waiting \<or> (\<exists>f. pl_workers (lt_pipe s) ! main_slot s = Flushing f)"
      using ok by (simp add: threads_ok_def)
    then show ?thesis
    proof (elim disjE exE)
      fix f assume "pl_workers (lt_pipe s) ! main_slot s = Flushing f"
      with a have f: "at_stage (main_slot s) (Flushing f) (lt_pipe s)" by simp
      obtain r w where "flush_act (px_store ext) (it_dl sample_env) f (store_world_of (pl_proc (lt_pipe s))) = (r, w)"
        by fastforce
      with st_flush [OF Flush_batch] sl_flush [OF f] show ?thesis by blast
    qed (use a st_flushed [OF Flush_batch] in auto)
  next
    case Kafka_stop
    from c have "reports_safe ext (lt_proc s)" by (simp add: closing_def)
    with stop_kafka_safe st_kafka [OF Kafka_stop] show ?thesis by blast
  next
    case Stopped
    then show ?thesis by (blast intro: st_destroy)
  qed (use ph in simp_all)
qed

lemma closing_goes_on:
  assumes c: "closing ext s" and ph: "lt_phase s \<noteq> Destroyed"
  shows "\<exists>t. lt_step ext s t"
proof -
  have "lt_phase s = Joining \<or> lt_phase s = Draining \<or> lt_phase s = Join_flusher
      \<or> rank (lt_phase s) < 8 \<and> lt_phase s \<noteq> Join_flusher"
    using c by (cases "lt_phase s" rule: rank.cases) (simp_all add: closing_def)
  then show ?thesis
  proof (elim disjE conjE)
    assume j: "lt_phase s = Join_flusher"
    show ?thesis
    proof (cases "lt_flusher s = Ended")
      case True
      with st_flusher_joined [OF j] show ?thesis by (blast intro: lt_stop)
    next
      case False
      have "\<not> storage_running (lt_proc s)" using c j by (simp add: closing_def lt_inv_def phase_ok_def)
      with flusher_goes_on [OF c False] show ?thesis by (blast intro: lt_flush)
    qed
  next
    assume "rank (lt_phase s) < 8" "lt_phase s \<noteq> Join_flusher"
    with stop_goes_on [OF c] ph show ?thesis by (blast intro: lt_stop)
  qed (use c in \<open>blast intro: joining_goes_on draining_goes_on\<close>)+
qed

text \<open>The producer is only ever given up, and the processor does not start serving again.\<close>

lemma lt_step_producer:
  assumes "lt_move ext s t"
  shows "p_producer (lt_proc t) = p_producer (lt_proc s) \<or> p_producer (lt_proc t) = None"
    and "lt_phase s \<noteq> Serving \<Longrightarrow> lt_phase t \<noteq> Serving"
proof -
  have "p_producer (lt_proc t) = p_producer (lt_proc s) \<or> p_producer (lt_proc t) = None"
    "lt_phase s \<noteq> Serving \<Longrightarrow> lt_phase t \<noteq> Serving" if "stop_thread ext s t"
    using that
    by (cases; auto simp: slot_frame_def lt_proc_def Storage_clear_flag_def Processor_release_def
        dest: drain_step_frame swap_step_frame stop_kafka_producer dest!: slot_flush_worker worker_step_frame elim: return_to.elims)+
  moreover have "p_producer (lt_proc t) = p_producer (lt_proc s)" "lt_phase t = lt_phase s"
    if "worker_loop ext i s t" for i
    using that by (cases; auto simp: slot_frame_def lt_proc_def dest: worker_step_frame)+
  moreover have "p_producer (lt_proc t) = p_producer (lt_proc s)" "lt_phase t = lt_phase s" if "poll_loop ext s t"
    using that by (cases; auto simp: lt_proc_def elim: poll_stepE)+
  moreover have "p_producer (lt_proc t) = p_producer (lt_proc s)" "lt_phase t = lt_phase s" if "flush_loop ext s t"
    using that by (cases; auto simp: lt_proc_def dest: flusher_step_frame)+
  moreover have "p_producer (lt_proc t) = p_producer (lt_proc s)" "lt_phase t = lt_phase s" if "lt_idle s t"
    using that by (cases; auto)+
  moreover have "p_producer (pl_proc (session_push d (lt_pipe s))) = p_producer (lt_proc s)"
    "p_producer (pl_proc (session_count d (lt_pipe s))) = p_producer (lt_proc s)" for d by (simp_all add: lt_proc_def)
  ultimately show "p_producer (lt_proc t) = p_producer (lt_proc s) \<or> p_producer (lt_proc t) = None"
    "lt_phase s \<noteq> Serving \<Longrightarrow> lt_phase t \<noteq> Serving"
    using assms unfolding lt_move_def by (auto elim!: lt_stepE)
qed

lemma closing_kept: "closing ext s \<Longrightarrow> lt_move ext s t \<Longrightarrow> closing ext t"
  using lti.inv_step [of s ext t] lt_step_producer [of ext s t] by (auto simp: closing_def reports_safe_def)

interpretation ltp: progress "lt_step ext" lt_idle "closing ext" lt_effort "\<lambda>s. lt_phase s = Destroyed"
  for ext :: "('r, 'k, 'c) proc_ext"
  by unfold_locales
    (auto simp: lt_move_def intro: closing_kept lt_step_effort lt_idle_effort closing_goes_on)

end
