(* ===== verification/Stop_Outcome.thy ===== *)
theory Stop_Outcome
  imports Stop_Progress
begin

text \<open>
  What \<open>Processor::stop\<close> and the destructors leave behind.  Left alone, the actions of the stopping
  thread are the sequential \<open>stop\<close> of \<open>Processor\<close>; with all threads running, \<open>stop\<close> leaves at most
  the batch of the flush thread, and when the processor is gone every message has met its fate.
\<close>

section \<open>The stopping thread alone\<close>

lemmas drain_then = move_then [where step = "drain_step ext i" for ext i]
lemmas drain_finish = finish_step [where step = "drain_step ext i" for ext i]

lemma drain_event_steps:
  assumes a: "at_stage i (Popped d) s" and r: "drain_event ext env d (pl_proc s) = Inr p'"
  shows "ends_with (drain_step ext i) i s p'"
proof (rule drain_then [OF a dr_receive [OF a] refl refl refl])
  let ?s = "move i (Received d) (bump Total_received (pl_proc s)) s"
  assume b: "at_stage i (Received d) ?s"
  show "ends_with (drain_step ext i) i ?s p'"
  proof (cases "parse_event (px_store ext) d")
    case None
    with r have "p' = bump Total_parse_fail (pl_proc ?s)" by (simp add: drain_event_def Let_def)
    with drain_finish [OF b dr_parse_fail [OF b None]] show ?thesis by simp
  next
    case (Some evt)
    show ?thesis
    proof (rule drain_then [OF b dr_parse [OF b Some] refl refl refl])
      let ?t = "move i (Parsed d evt) (bump Total_parsed (pl_proc ?s)) ?s"
      assume c: "at_stage i (Parsed d evt) ?t"
      show "ends_with (drain_step ext i) i ?t p'"
      proof (cases "validate (it_time env) evt")
        case True
        show ?thesis
          by (rule drain_then [OF c dr_valid [OF c True]])
            (use r Some True in \<open>auto simp: drain_event_def Let_def intro: drc.deliver_steps\<close>)
      next
        case False
        with r Some have "p' = bump Total_invalid (pl_proc ?t)" by (simp add: drain_event_def Let_def)
        with drain_finish [OF c dr_invalid [OF c False]] show ?thesis by simp
      qed
    qed
  qed
qed

lemma drain_steps:
  assumes "at_stage i Waiting s" and "drain ext envs n (pl_proc s) = Inr p'"
  shows "ends_with (drain_step ext i) i s p' \<and> tsq_queue (p_queue p') = []"
  using assms
proof (induction "length (tsq_queue (p_queue (pl_proc s)))" arbitrary: s n)
  case 0
  then show ?case by (auto simp: drain.simps [of ext envs n] try_pop_def intro: ends_now)
next
  case (Suc m)
  from Suc.hyps(2) pop_or_empty [of "p_queue (pl_proc s)"] obtain d q
    where pop: "try_pop [] (p_queue (pl_proc s)) = (True, d, q)" by fastforce
  let ?p = "(pl_proc s)\<lparr>p_queue := q\<rparr>"
  let ?s = "move i (Popped d) ?p (s\<lparr>pl_popped := Suc (pl_popped s)\<rparr>)"
  from Suc.prems(2) pop obtain p1 where p1: "drain_event ext (envs n) d ?p = Inr p1" and rest: "drain ext envs (Suc n) p1 = Inr p'"
    by (auto simp: drain.simps [of ext envs n] split: sum.splits)
  have at: "at_stage i (Popped d) ?s" using Suc.prems(1) by (simp add: at_stage_def move_def)
  have step: "drain_step ext i s ?s" by (rule dr_pop [OF Suc.prems(1) pop])
  from drain_event_steps [OF at, of ext "envs n" p1] p1 obtain t where t: "(drain_step ext i)\<^sup>*\<^sup>* ?s t" "pl_proc t = p1"
    "pl_workers t = (pl_workers s)[i := Waiting]" "pl_flusher t = pl_flusher s" "pl_pushed t = pl_pushed s"
    by (auto simp: ends_with_def move_def)
  have "m = length (tsq_queue (p_queue (pl_proc t)))"
    using Suc.hyps(2) try_pop_length [OF pop] drain_event_keeps(1) [OF p1] t(2) by simp
  moreover have "at_stage i Waiting t" using Suc.prems(1) t(3) by (simp add: at_stage_def)
  ultimately obtain u where u: "(drain_step ext i)\<^sup>*\<^sup>* t u" "pl_proc u = p'" "pl_workers u = (pl_workers t)[i := Waiting]"
    "pl_flusher u = pl_flusher t" "pl_pushed u = pl_pushed t" "tsq_queue (p_queue p') = []"
    using Suc.hyps(1) [of t "Suc n"] rest t(2) by (auto simp: ends_with_def)
  have "(drain_step ext i)\<^sup>*\<^sup>* s u" using step t(1) u(1) by (meson converse_rtranclp_into_rtranclp rtranclp_trans)
  with u t show ?case unfolding ends_with_def by (intro conjI exI [of _ u]) simp_all
qed

text \<open>Steps of the slot are steps of the stopping thread in its phase.\<close>

lemma lift_drain:
  assumes "(drain_step ext (main_slot s))\<^sup>*\<^sup>* (lt_pipe s) u" and "lt_phase s = Draining"
  shows "(stop_thread ext)\<^sup>*\<^sup>* s (s\<lparr>lt_pipe := u\<rparr>)"
  using assms(1)
proof (induction rule: rtranclp_induct)
  case base
  show ?case by simp
next
  case (step u v)
  have "stop_thread ext (s\<lparr>lt_pipe := u\<rparr>) (s\<lparr>lt_pipe := u\<rparr>\<lparr>lt_pipe := v\<rparr>)"
    using step.hyps(2) assms(2) by (intro st_drain) simp_all
  with step.IH show ?case by (simp add: rtranclp.rtrancl_into_rtrancl)
qed

lemma lift_flush:
  assumes "(slot_flush ext (main_slot s))\<^sup>*\<^sup>* (lt_pipe s) u" and "lt_phase s = Flush_batch c"
  shows "(stop_thread ext)\<^sup>*\<^sup>* s (s\<lparr>lt_pipe := u\<rparr>)"
  using assms(1)
proof (induction rule: rtranclp_induct)
  case base
  show ?case by simp
next
  case (step u v)
  have "stop_thread ext (s\<lparr>lt_pipe := u\<rparr>) (s\<lparr>lt_pipe := u\<rparr>\<lparr>lt_pipe := v\<rparr>)"
    using step.hyps(2) assms(2) by (intro st_flush) simp_all
  with step.IH show ?case by (simp add: rtranclp.rtrancl_into_rtrancl)
qed

interpretation slc: flush_code ext i "slot_flush ext i" for ext :: "('r, 'k, 'c) proc_ext" and i
  by unfold_locales (rule sl_flush, assumption+)

text \<open>\<open>flush_and_stop\<close>: the swap and the flush of what was in the buffer.\<close>

lemma flush_and_stop_steps:
  fixes ext :: "('r, 'k, 'c) proc_ext"
  assumes ph: "lt_phase s = Swap_buffer c" and a: "at_stage (main_slot s) Waiting (lt_pipe s)"
  shows "\<exists>u. (stop_thread ext)\<^sup>*\<^sup>* s (s\<lparr>lt_pipe := u, lt_phase := return_to c\<rparr>) \<and>
    pl_proc u = stop_storage ext env (lt_proc s) \<and> pl_workers u = pl_workers (lt_pipe s) \<and>
    pl_flusher u = pl_flusher (lt_pipe s) \<and> pl_pushed u = pl_pushed (lt_pipe s)"
proof -
  let ?i = "main_slot s" and ?p = "lt_proc s"
  have w: "(pl_workers (lt_pipe s))[?i := Waiting] = pl_workers (lt_pipe s)"
    using a by (simp add: at_stage_def list_update_same_conv [THEN iffD2])
  have "\<exists>t. swap_step ?i (lt_pipe s) t \<and> ends_with (slot_flush ext ?i) ?i t (stop_storage ext env ?p) \<and>
      pl_workers t = (pl_workers (lt_pipe s))[?i := pl_workers t ! ?i] \<and> pl_flusher t = pl_flusher (lt_pipe s) \<and>
      pl_pushed t = pl_pushed (lt_pipe s)"
  proof (cases "p_storage ?p")
    case None
    let ?t = "move ?i Waiting (pl_proc (lt_pipe s)) (lt_pipe s)"
    have "swap_step ?i (lt_pipe s) ?t" using sw_none [OF a] None by (simp add: lt_proc_def)
    moreover have "ends_with (slot_flush ext ?i) ?i ?t (stop_storage ext env ?p)"
      using a None by (intro ends_now) (simp_all add: stop_storage_def lt_proc_def)
    ultimately show ?thesis using a by (intro exI [of _ ?t]) (simp add: move_def at_stage_def)
  next
    case (Some st)
    obtain b st' where sw: "swap_locked st = (b, st')" by fastforce
    let ?q = "?p\<lparr>p_storage := Some st'\<rparr>"
    let ?t = "move ?i (after_flush (map_option start_flush b)) ?q (lt_pipe s)"
    have "swap_step ?i (lt_pipe s) ?t" using sw_swap [OF a _ sw] Some by (simp add: lt_proc_def)
    moreover have "ends_with (slot_flush ext ?i) ?i ?t (stop_storage ext env ?p)"
    proof (cases b)
      case None
      have "stop_storage ext env ?p = ?q"
        using Some sw None by (simp add: stop_storage_def flush_and_stop_def flush_opt_def put_store_def store_world_of_def)
      with None a show ?thesis by (intro ends_now) (simp_all add: after_flush_def)
    next
      case b: (Some batch)
      then have "batch \<noteq> []" using sw by (auto simp: swap_locked_def split: if_splits)
      then have "stop_storage ext env ?p =
          put_world (flush_run (px_store ext) (it_dl env) (start_flush batch) (store_world_of ?q)) ?q"
        using Some sw b
        by (simp add: flush_run_start stop_storage_def flush_and_stop_def flush_opt_def put_store_def store_world_of_def put_world_def)
      moreover have "at_stage ?i (Flushing (start_flush batch)) ?t" using a b by (simp add: after_flush_def)
      ultimately show ?thesis using slc.flush_steps [of ?i "start_flush batch" ?t ext env] b by simp
    qed
    ultimately show ?thesis using a by (intro exI [of _ ?t]) (simp add: move_def at_stage_def)
  qed
  then obtain t u where t: "swap_step ?i (lt_pipe s) t" "pl_workers t = (pl_workers (lt_pipe s))[?i := pl_workers t ! ?i]"
      "pl_flusher t = pl_flusher (lt_pipe s)" "pl_pushed t = pl_pushed (lt_pipe s)"
    and u: "(slot_flush ext ?i)\<^sup>*\<^sup>* t u" "pl_proc u = stop_storage ext env ?p" "pl_workers u = (pl_workers t)[?i := Waiting]"
      "pl_flusher u = pl_flusher t" "pl_pushed u = pl_pushed t"
    by (auto simp: ends_with_def)
  have uw: "pl_workers u = pl_workers (lt_pipe s)" using u(3) t(2) w by (metis list_update_overwrite)
  let ?s1 = "s\<lparr>lt_pipe := t, lt_phase := Flush_batch c\<rparr>"
  have 1: "stop_thread ext s ?s1" by (rule st_swap [OF ph t(1)])
  have 2: "(stop_thread ext)\<^sup>*\<^sup>* ?s1 (?s1\<lparr>lt_pipe := u\<rparr>)" using u(1) by (intro lift_flush) simp_all
  have 3: "stop_thread ext (?s1\<lparr>lt_pipe := u\<rparr>) (?s1\<lparr>lt_pipe := u\<rparr>\<lparr>lt_phase := return_to c\<rparr>)"
    using a uw by (intro st_flushed) (simp_all add: at_stage_def)
  have "(stop_thread ext)\<^sup>*\<^sup>* s (s\<lparr>lt_pipe := u, lt_phase := return_to c\<rparr>)"
    using 1 2 3 by (simp add: converse_rtranclp_into_rtranclp rtranclp.rtrancl_into_rtrancl)
  with u uw t show ?thesis by auto
qed

lemma stop_steps:
  assumes ph: "lt_phase s = Joining" and j: "joined s" and a: "at_stage (main_slot s) Waiting (lt_pipe s)"
    and r: "\<not> p_running (lt_proc s)" and st: "stop ext envs env (lt_proc s) = Inr p'"
  shows "\<exists>t. (stop_thread ext)\<^sup>*\<^sup>* s t \<and> lt_phase t = Stopped \<and> lt_proc t = p' \<and> lt_flusher t = lt_flusher s \<and>
    pl_flusher (lt_pipe t) = pl_flusher (lt_pipe s)"
proof -
  have "(lt_proc s)\<lparr>p_running := False\<rparr> = lt_proc s" using r by simp
  with st obtain p1 where p1: "drain ext envs 0 (lt_proc s) = Inr p1" and k: "stop_kafka ext (stop_storage ext env p1) = Inr p'"
    by (auto simp: stop_def split: sum.splits)
  from drain_steps [OF a, of ext envs 0 p1] p1 obtain u where u: "(drain_step ext (main_slot s))\<^sup>*\<^sup>* (lt_pipe s) u"
    "pl_proc u = p1" "pl_workers u = (pl_workers (lt_pipe s))[main_slot s := Waiting]" "pl_flusher u = pl_flusher (lt_pipe s)"
    and e: "tsq_queue (p_queue p1) = []"
    by (auto simp: ends_with_def lt_proc_def)
  let ?s1 = "s\<lparr>lt_phase := Draining\<rparr>"
  let ?s2 = "?s1\<lparr>lt_pipe := u\<rparr>"
  let ?s3 = "?s2\<lparr>lt_phase := Swap_buffer From_stop\<rparr>"
  have 1: "stop_thread ext s ?s1" using ph j by (intro st_joined) (simp_all add: joined_def)
  have 2: "(stop_thread ext)\<^sup>*\<^sup>* ?s1 ?s2" using u(1) by (intro lift_drain) simp_all
  have w: "at_stage (main_slot ?s3) Waiting (lt_pipe ?s3)" using a u(3) by (simp add: at_stage_def)
  have "try_pop [] (p_queue (lt_proc ?s2)) = (False, [], p_queue p1)" using e u(2) by (simp add: try_pop_def)
  with w have 3: "stop_thread ext ?s2 ?s3" by (intro st_drained) simp_all
  obtain v where v: "(stop_thread ext)\<^sup>*\<^sup>* ?s3 (?s3\<lparr>lt_pipe := v, lt_phase := Kafka_stop\<rparr>)"
    "pl_proc v = stop_storage ext env p1" "pl_flusher v = pl_flusher u"
    using flush_and_stop_steps [of ?s3 From_stop ext env] w u(2) by auto
  let ?s4 = "?s3\<lparr>lt_pipe := v, lt_phase := Kafka_stop\<rparr>"
  have 4: "stop_thread ext ?s4 (put_proc p' (?s4\<lparr>lt_phase := Stopped\<rparr>))"
    using k v(2) by (intro st_kafka) simp_all
  have "(stop_thread ext)\<^sup>*\<^sup>* s ?s3" using 1 2 3 by (simp add: converse_rtranclp_into_rtranclp rtranclp.rtrancl_into_rtrancl)
  with v(1) 4 have "(stop_thread ext)\<^sup>*\<^sup>* s (put_proc p' (?s4\<lparr>lt_phase := Stopped\<rparr>))"
    by (meson rtranclp_trans rtranclp.rtrancl_into_rtrancl)
  with v(3) u(4) show ?thesis by (intro exI [of _ "put_proc p' (?s4\<lparr>lt_phase := Stopped\<rparr>)"]) simp
qed

section \<open>The end\<close>

lemma lt_pushed:
  assumes "lt_move ext s t" and "lt_phase s \<noteq> Serving"
  shows "pl_pushed (lt_pipe t) = pl_pushed (lt_pipe s)"
proof -
  have "pl_pushed (lt_pipe t) = pl_pushed (lt_pipe s)" if "stop_thread ext s t"
    using that
    by cases (auto simp: slot_frame_def dest: drain_step_frame swap_step_frame dest!: slot_flush_worker worker_step_frame)
  moreover have "pl_pushed (lt_pipe t) = pl_pushed (lt_pipe s)" if "worker_loop ext i s t" for i
    using that by cases (auto simp: slot_frame_def dest: worker_step_frame)
  moreover have "pl_pushed (lt_pipe t) = pl_pushed (lt_pipe s)" if "poll_loop ext s t"
    using that by cases (auto elim: poll_stepE)
  moreover have "pl_pushed (lt_pipe t) = pl_pushed (lt_pipe s)" if "flush_loop ext s t"
    using that by cases (auto elim: flusher_stepE)
  moreover have "pl_pushed (lt_pipe t) = pl_pushed (lt_pipe s)" if "lt_idle s t"
    using that by cases auto
  ultimately show ?thesis using assms unfolding lt_move_def by (auto elim!: lt_stepE)
qed

lemma stopped_slots:
  assumes "lt_inv s" and "rank (lt_phase s) \<le> 8" and "phase_stage (lt_phase s) = (\<lambda>st. st = Waiting)"
  shows "list_all (\<lambda>st. st = Waiting) (pl_workers (lt_pipe s))"
  using assms by (intro joined_waiting) (auto simp: lt_inv_def phase_ok_def threads_ok_def)

lemma phase_stage_waiting [simp]:
  "phase_stage Stopped = (\<lambda>st. st = Waiting)" "phase_stage Destroyed = (\<lambda>st. st = Waiting)"
  by auto

lemma destroyed_rest:
  assumes "lt_inv s" and "lt_phase s = Destroyed"
  shows "at_rest (lt_pipe s)"
proof -
  have "list_all (\<lambda>st. st = Waiting) (pl_workers (lt_pipe s))" using assms by (intro stopped_slots) simp_all
  with assms show ?thesis
    by (auto simp: at_rest_def lt_inv_def phase_ok_def threads_ok_def buffered_def lt_proc_def split: option.splits)
qed

lemma unat_remainder:
  assumes "of_nat n = c + (r :: u64)" and "n < 2 ^ 64" and "unat c \<le> n"
  shows "unat r = n - unat c"
proof -
  have "r = of_nat n - of_nat (unat c)" using assms(1) by simp
  also have "\<dots> = of_nat (n - unat c)" using assms(3) by simp
  finally show ?thesis using assms(2) by (simp add: unsigned_of_nat take_bit_nat_eq_self)
qed

section \<open>Properties\<close>

text \<open>
  C3: the shutdown comes to an end, with all threads running.  From any state after \<open>stop\<close> was
  called, where delivery reports cannot crash the process: there is a way to the end, where all
  threads have returned and the processor is destroyed; before it some thread can always take a
  step that counts, so no join waits forever; and in every infinite run only finitely many steps
  are not idle rounds of the flush thread, at most as many as the effort left.
\<close>

theorem shutdown_terminates:
  assumes "reachable lt_init (lt_move ext) s" and "lt_phase s \<noteq> Serving" and "reports_safe ext (lt_proc s)"
  shows "(\<exists>t. (lt_step ext)\<^sup>*\<^sup>* s t \<and> lt_phase t = Destroyed) \<and>
    (lt_phase s \<noteq> Destroyed \<longrightarrow> (\<exists>t. lt_step ext s t)) \<and>
    (\<forall>f. f 0 = s \<and> (\<forall>n. lt_move ext (f n) (f (Suc n))) \<longrightarrow>
       finite {n. lt_step ext (f n) (f (Suc n))} \<and> card {n. lt_step ext (f n) (f (Suc n))} \<le> lt_effort s)"
proof -
  have c: "closing ext s" using assms lti.reachable_inv by (simp add: closing_def)
  show ?thesis
  proof (intro conjI allI impI)
    show "\<exists>t. (lt_step ext)\<^sup>*\<^sup>* s t \<and> lt_phase t = Destroyed" using ltp.can_finish [OF c] by blast
    show "\<exists>t. lt_step ext s t" if "lt_phase s \<noteq> Destroyed" using closing_goes_on [OF c that] .
    fix f assume "f 0 = s \<and> (\<forall>n. lt_move ext (f n) (f (Suc n)))"
    with c ltp.finitely_many_steps [of ext f]
    show "finite {n. lt_step ext (f n) (f (Suc n))}" "card {n. lt_step ext (f n) (f (Suc n))} \<le> lt_effort s"
      by (auto simp: lt_move_def)
  qed
qed

text \<open>A processor with one worker and a storage; a message arrives, then \<open>stop\<close> is called.\<close>

definition small_life :: "(unit, unit, unit) lifetime" where
  "small_life = \<lparr>lt_pipe = \<lparr>pl_proc = (bare_processor [])\<lparr>p_storage := Some Storage_init\<rparr>, pl_workers = [Waiting, Waiting],
     pl_flusher = None, pl_pushed = {#}, pl_refused = {#}, pl_unstored = {#}, pl_lost = {#}, pl_popped = 0, pl_admitted = 0\<rparr>,
     lt_loops = [At_head], lt_poller = Ended, lt_flusher = At_head, lt_phase = Serving\<rparr>"

definition small_called :: "(unit, unit, unit) lifetime" where
  "small_called = small_life\<lparr>lt_pipe := (lt_pipe small_life)
     \<lparr>pl_proc := (bare_processor [''ev''])\<lparr>p_storage := Some Storage_init, p_running := False\<rparr>, pl_pushed := {#''ev''#}\<rparr>,
     lt_phase := Joining\<rparr>"

lemma small_called_reachable: "reachable lt_init (lt_move bare_ext) small_called"
proof -
  let ?d = "''ev''"
  let ?s = "small_life\<lparr>lt_pipe := session_push ?d (lt_pipe small_life)\<rparr>"
  have "lt_init small_life"
    by (simp add: lt_init_def small_life_def lt_proc_def pl_init_def bare_processor_def Storage_init_def)
  moreover have "lt_move bare_ext small_life ?s"
    unfolding lt_move_def by (rule disjI1, rule lt_push) (simp add: small_life_def)
  moreover have "lt_move bare_ext ?s (put_proc ((lt_proc ?s)\<lparr>p_running := False\<rparr>) (?s\<lparr>lt_phase := Joining\<rparr>))"
    unfolding lt_move_def by (rule disjI1, rule lt_stop, rule st_call)
      (simp_all add: small_life_def bare_processor_def try_push_def)
  ultimately have "reachable lt_init (lt_move bare_ext) (put_proc ((lt_proc ?s)\<lparr>p_running := False\<rparr>) (?s\<lparr>lt_phase := Joining\<rparr>))"
    by (meson reach_init reach_step)
  moreover have "put_proc ((lt_proc ?s)\<lparr>p_running := False\<rparr>) (?s\<lparr>lt_phase := Joining\<rparr>) = small_called"
    by (simp add: small_called_def small_life_def lt_proc_def put_proc_def session_push_def bare_processor_def
        try_push_def Let_def)
  ultimately show ?thesis by simp
qed

lemma small_called_fields:
  "lt_phase small_called = Joining" "pl_pushed (lt_pipe small_called) = {#''ev''#}" "reports_safe bare_ext (lt_proc small_called)"
  by (simp_all add: small_called_def lt_proc_def reports_safe_def bare_ext_def)

theorem shutdown_terminates_witness:
  "lt_phase small_called = Joining \<and> (\<exists>t. (lt_step bare_ext)\<^sup>*\<^sup>* small_called t \<and> lt_phase t = Destroyed)"
  using shutdown_terminates [OF small_called_reachable] small_called_fields by simp

text \<open>
  C2: when the processor is gone every message has met its fate.  In every state in which the
  destructors have returned, queue, buffer and threads hold nothing; every message that was not
  dropped at the queue was received, each received one was parsed or is a parse failure, each
  parsed one valid or invalid.  Below \<open>2^64\<close> messages, those that arrived are those counted as dropped,
  unparsable, invalid, rate limited, stored or handed to the dead letter file, and those the code
  lets go of without a counter: \<open>pl_unstored\<close>, which is empty unless there is no storage, and
  \<open>pl_lost\<close>, the batches whose dead letter file could not be opened.  A run of the ledger says
  which messages they are: its six counted places have the sizes of the counters, its two others
  are those two multisets, and each place only holds messages that meet its condition.
\<close>

theorem shutdown_accounts_all:
  assumes "reachable lt_init (lt_move ext) s" and "lt_phase s = Destroyed" and "size (pl_pushed (lt_pipe s)) < 2 ^ 64"
  shows "at_rest (lt_pipe s) \<and>
    unat (pl_count Total_received (lt_pipe s)) = size (pl_pushed (lt_pipe s)) - unat (pl_count Total_queue_drop (lt_pipe s)) \<and>
    unat (pl_count Total_received (lt_pipe s)) =
      unat (pl_count Total_parse_fail (lt_pipe s)) + unat (pl_count Total_parsed (lt_pipe s)) \<and>
    unat (pl_count Total_parsed (lt_pipe s)) =
      unat (pl_count Total_invalid (lt_pipe s)) + unat (pl_count Total_valid (lt_pipe s)) \<and>
    size (pl_pushed (lt_pipe s)) = unat (pl_count Total_queue_drop (lt_pipe s)) + unat (pl_count Total_parse_fail (lt_pipe s))
      + unat (pl_count Total_invalid (lt_pipe s)) + unat (pl_count Total_rate_limited (lt_pipe s))
      + unat (pl_count Total_stored (lt_pipe s)) + unat (pl_count Total_store_dead (lt_pipe s))
      + size (pl_unstored (lt_pipe s)) + size (pl_lost (lt_pipe s)) \<and>
    (pl_unstored (lt_pipe s) = {#} \<or> p_storage (lt_proc s) = None) \<and>
    (\<exists>L. reachable ledger_init (ledger_step (fits ext)) L \<and> ledger_match (lt_pipe s) L \<and> well_placed (fits ext) L \<and>
       (\<forall>c\<in>fate_counters. unat (pl_count c (lt_pipe s)) = size (lg_at L (fate_of c))))"
proof -
  have rest: "at_rest (lt_pipe s)" using lti.reachable_inv [OF assms(1)] assms(2) by (rule destroyed_rest)
  obtain L where L: "reachable ledger_init (ledger_step (fits ext)) L" "ledger_match (lt_pipe s) L"
    using ltl.reachable_match [OF assms(1)] unfolding tracked_def by blast
  note counts = rest_counts [OF L(2) ledger_reach_inv [OF L(1)] rest assms(3)]
  have exact: "\<forall>c\<in>fate_counters. unat (pl_count c (lt_pipe s)) = size (lg_at L (fate_of c))"
    using fate_exact [OF L(2) ledger_reach_inv [OF L(1)] assms(3)] by blast
  have placed: "well_placed (fits ext) L" "pl_unstored (lt_pipe s) = {#} \<or> p_storage (lt_proc s) = None"
    using lgw.reachable_inv [OF L(1)] L(2) by (auto simp: ledger_match_def lt_proc_def)
  have z: "staged P (lt_pipe s) = 0" if "\<not> P Waiting" for P using rest that by (intro staged_waiting) (simp_all add: at_rest_def)
  note i = lta.reachable_inv [OF assms(1), unfolded pl_inv_def] z [of is_popped] z [of is_received] z [of is_parsed]
  have "of_nat (size (pl_pushed (lt_pipe s))) = pl_count Total_queue_drop (lt_pipe s) + pl_count Total_received (lt_pipe s)"
    using i rest by (simp add: at_rest_def)
  from unat_remainder [OF this assms(3)] counts
  have r: "unat (pl_count Total_received (lt_pipe s)) = size (pl_pushed (lt_pipe s)) - unat (pl_count Total_queue_drop (lt_pipe s))"
    by simp
  have eqs: "of_nat (unat (pl_count Total_received (lt_pipe s))) =
      pl_count Total_parse_fail (lt_pipe s) + pl_count Total_parsed (lt_pipe s)"
    "of_nat (unat (pl_count Total_parsed (lt_pipe s))) =
      pl_count Total_invalid (lt_pipe s) + pl_count Total_valid (lt_pipe s)"
    using i by (simp_all add: add.commute)
  have parsed: "unat (pl_count Total_parsed (lt_pipe s)) =
      unat (pl_count Total_received (lt_pipe s)) - unat (pl_count Total_parse_fail (lt_pipe s))"
    by (rule unat_remainder [OF eqs(1)]) (use r counts assms(3) in linarith)+
  have valid: "unat (pl_count Total_valid (lt_pipe s)) =
      unat (pl_count Total_parsed (lt_pipe s)) - unat (pl_count Total_invalid (lt_pipe s))"
    by (rule unat_remainder [OF eqs(2)]) (use r parsed counts assms(3) in linarith)+
  have "unat (pl_count Total_received (lt_pipe s)) =
      unat (pl_count Total_parse_fail (lt_pipe s)) + unat (pl_count Total_parsed (lt_pipe s))"
    "unat (pl_count Total_parsed (lt_pipe s)) =
      unat (pl_count Total_invalid (lt_pipe s)) + unat (pl_count Total_valid (lt_pipe s))"
    using r parsed valid counts by linarith+
  with rest L counts r exact placed show ?thesis by blast
qed

lemma small_destroyed:
  "\<exists>t. reachable lt_init (lt_move bare_ext) t \<and> lt_phase t = Destroyed \<and> pl_pushed (lt_pipe t) = {#''ev''#}"
proof -
  have c: "closing bare_ext small_called"
    using lti.reachable_inv [OF small_called_reachable] small_called_fields by (simp add: closing_def)
  obtain t where t: "(lt_step bare_ext)\<^sup>*\<^sup>* small_called t" "lt_phase t = Destroyed" using ltp.can_finish [OF c] by blast
  from t(1) have "reachable lt_init (lt_move bare_ext) t \<and> lt_phase t \<noteq> Serving \<and> pl_pushed (lt_pipe t) = {#''ev''#}"
  proof (induction rule: rtranclp_induct)
    case base
    then show ?case using small_called_reachable small_called_fields by simp
  next
    case (step t u)
    then have m: "lt_move bare_ext t u" by (simp add: lt_move_def)
    with step.IH lt_pushed [OF m] lt_step_producer(2) [OF m] show ?case by (auto intro: reach_step)
  qed
  with t(2) show ?thesis by blast
qed

theorem shutdown_accounts_all_witness:
  "\<exists>t. reachable lt_init (lt_move bare_ext) t \<and> lt_phase t = Destroyed \<and> at_rest (lt_pipe t) \<and>
     unat (pl_count Total_received (lt_pipe t)) = 1 - unat (pl_count Total_queue_drop (lt_pipe t))"
proof -
  obtain t where t: "reachable lt_init (lt_move bare_ext) t" "lt_phase t = Destroyed" "pl_pushed (lt_pipe t) = {#''ev''#}"
    using small_destroyed by blast
  from shutdown_accounts_all [OF t(1,2)] t show ?thesis by auto
qed

text \<open>
  C15: the code of \<open>stop\<close> is what its actions add up to.  When the worker threads and the poll
  thread have returned, the stopping thread, left alone, reaches the end of \<open>stop\<close> with exactly
  the result of the sequential definition: the queue drained, the buffer flushed, Kafka flushed.
\<close>

theorem stop_refined:
  assumes "reachable lt_init (lt_move ext) s" and "lt_phase s = Joining" and "joined s"
    and "stop ext envs env (lt_proc s) = Inr p'"
  shows "\<exists>t. (stop_thread ext)\<^sup>*\<^sup>* s t \<and> lt_phase t = Stopped \<and> lt_proc t = p'"
proof -
  have inv: "lt_inv s" by (rule lti.reachable_inv [OF assms(1)])
  then have "at_stage (main_slot s) Waiting (lt_pipe s)" and "\<not> p_running (lt_proc s)"
    using main_at [of s] assms(2) by (simp_all add: lt_inv_def threads_ok_def phase_ok_def)
  from stop_steps [OF assms(2,3) this assms(4)] show ?thesis by blast
qed

definition small_joined :: "(unit, unit, unit) lifetime" where
  "small_joined = small_called\<lparr>lt_loops := [Ended]\<rparr>"

lemma small_joined_reachable: "reachable lt_init (lt_move bare_ext) small_joined" "joined small_joined"
proof -
  have "worker_loop bare_ext 0 small_called (small_called\<lparr>lt_loops := (lt_loops small_called)[0 := Ended]\<rparr>)"
    by (rule wl_leave) (simp_all add: small_called_def small_life_def lt_proc_def)
  then have "lt_move bare_ext small_called small_joined"
    unfolding lt_move_def small_joined_def
    by (intro disjI1 lt_worker [of 0]) (simp_all add: small_called_def small_life_def)
  with small_called_reachable show "reachable lt_init (lt_move bare_ext) small_joined" by (rule reach_step)
  show "joined small_joined" by (simp add: joined_def small_joined_def small_called_def small_life_def)
qed

theorem stop_refined_witness:
  "\<exists>p' t. stop bare_ext (\<lambda>_. sample_env) sample_env (lt_proc small_joined) = Inr p' \<and> tsq_queue (p_queue p') = [] \<and>
     (stop_thread bare_ext)\<^sup>*\<^sup>* small_joined t \<and> lt_phase t = Stopped \<and> lt_proc t = p'"
proof -
  have "balanced (p_metrics (lt_proc small_joined))"
    by (simp add: balanced_def small_joined_def small_called_def lt_proc_def bare_processor_def)
  moreover have "reports_safe bare_ext (lt_proc small_joined)" by (simp add: reports_safe_def bare_ext_def)
  ultimately obtain p' where p': "stop bare_ext (\<lambda>_. sample_env) sample_env (lt_proc small_joined) = Inr p'"
    "tsq_queue (p_queue p') = []" using stop_result by blast
  have "lt_phase small_joined = Joining" by (simp add: small_joined_def small_called_def)
  from stop_refined [OF small_joined_reachable(1) this small_joined_reachable(2) p'(1)] p' show ?thesis by blast
qed

text \<open>
  C16: \<open>stop\<close> leaves nothing but the batch of the flush thread.  When it returns, the queue and
  the buffer are empty and no worker holds a message; a message whose fate is not decided is in
  the batch the flush thread of the storage is writing, which \<open>flush_and_stop\<close>, despite its name,
  does not wait for: the destructor of the storage does.
\<close>

theorem stopped_leaves_flush_thread:
  assumes "reachable lt_init (lt_move ext) s" and "lt_phase s = Stopped"
  shows "tsq_queue (p_queue (lt_proc s)) = [] \<and> list_all (\<lambda>st. st = Waiting) (pl_workers (lt_pipe s)) \<and>
    (\<exists>L. reachable ledger_init (ledger_step (fits ext)) L \<and> ledger_match (lt_pipe s) L \<and>
       (\<forall>p. \<not> final p \<longrightarrow> lg_at L p = (if p = In_flush then thread_batch (pl_flusher (lt_pipe s)) else {#})))"
proof -
  have inv: "lt_inv s" by (rule lti.reachable_inv [OF assms(1)])
  have w: "list_all (\<lambda>st. st = Waiting) (pl_workers (lt_pipe s))" using inv assms(2) by (intro stopped_slots) simp_all
  have q: "tsq_queue (p_queue (lt_proc s)) = []" "buffered (p_storage (lt_proc s)) = {#}" "pl_refused (lt_pipe s) = {#}"
    using inv assms(2) by (simp_all add: lt_inv_def phase_ok_def)
  obtain L where L: "reachable ledger_init (ledger_step (fits ext)) L" "ledger_match (lt_pipe s) L"
    using ltl.reachable_match [OF assms(1)] unfolding tracked_def by blast
  have "lg_at L p = (if p = In_flush then thread_batch (pl_flusher (lt_pipe s)) else {#})" if "\<not> final p" for p
    using that L(2) q waiting_holds [OF w]
    by (cases p) (simp_all add: final_def ledger_match_def held_def flushed_def lt_proc_def)
  with L w q show ?thesis by blast
qed

text \<open>The flush thread takes the only message while \<open>stop\<close> drains the queue.\<close>

lemma small_drained:
  "drain bare_ext (\<lambda>_. sample_env) 0 (lt_proc small_joined) =
     Inr ((lt_proc small_joined)\<lparr>p_queue := \<lparr>tsq_queue = [], tsq_capacity = 10000\<rparr>,
       p_metrics := fetch_add Total_valid 1 (fetch_add Total_parsed 1 (fetch_add Total_received 1 Metrics_init)),
       p_storage := Some (Storage_init\<lparr>st_buffer := [''ev'']\<rparr>)\<rparr>)"
  using sample_valid
  by (simp add: drain.simps [of _ _ 0] drain.simps [of _ _ "Suc 0"] drain_event_def deliver_def kafka_event_def
      produce_to_kafka_def save_event_def save_def save_locked_def put_store_def flush_opt_def store_world_of_def bump_def
      small_joined_def small_called_def lt_proc_def bare_processor_def bare_ext_def try_pop_def Storage_init_def
      BATCH_SIZE_def Let_def)

lemma lt_reach:
  "reachable lt_init (lt_move ext) s \<Longrightarrow> lt_step ext s t \<Longrightarrow> reachable lt_init (lt_move ext) t"
  "reachable lt_init (lt_move ext) s \<Longrightarrow> lt_idle s t \<Longrightarrow> reachable lt_init (lt_move ext) t"
  by (erule reach_step, simp add: lt_move_def)+

lemma stop_reach:
  assumes "(stop_thread ext)\<^sup>*\<^sup>* s t" and "reachable lt_init (lt_move ext) s"
  shows "reachable lt_init (lt_move ext) t"
  using assms by (induction rule: rtranclp_induct) (blast intro: lt_reach(1) lt_stop)+

lemma small_swapped:
  "\<exists>s. reachable lt_init (lt_move bare_ext) s \<and> lt_phase s = Draining \<and> at_stage (main_slot s) Waiting (lt_pipe s) \<and>
     tsq_queue (p_queue (lt_proc s)) = [] \<and> p_producer (lt_proc s) = None \<and>
     pl_flusher (lt_pipe s) = Some (start_flush [''ev''])"
proof -
  let ?R = "reachable lt_init (lt_move bare_ext)"
  let ?s = "small_joined\<lparr>lt_phase := Draining\<rparr>" and ?i = "main_slot small_joined"
  have ph: "lt_phase small_joined = Joining" by (simp add: small_joined_def small_called_def)
  have "stop_thread bare_ext small_joined ?s"
    using ph small_joined_reachable(2) by (intro st_joined) (simp_all add: joined_def)
  then have R1: "?R ?s" using lt_reach(1) [OF small_joined_reachable(1)] lt_stop by blast
  have a: "at_stage ?i Waiting (lt_pipe ?s)"
    by (simp add: at_stage_def main_slot_def small_joined_def small_called_def small_life_def)
  from drain_steps [OF a, of bare_ext "\<lambda>_. sample_env" 0] small_drained obtain u
    where u: "(drain_step bare_ext ?i)\<^sup>*\<^sup>* (lt_pipe ?s) u" "pl_workers u = (pl_workers (lt_pipe ?s))[?i := Waiting]"
      "pl_flusher u = None" "p_storage (pl_proc u) = Some (Storage_init\<lparr>st_buffer := [''ev'']\<rparr>)"
      "tsq_queue (p_queue (pl_proc u)) = []" "p_producer (pl_proc u) = None"
    by (auto simp: ends_with_def lt_proc_def small_joined_def small_called_def small_life_def bare_processor_def)
  let ?t = "?s\<lparr>lt_pipe := u\<rparr>"
  have R2: "?R ?t" using stop_reach [OF lift_drain R1] u(1) by simp
  have "lt_idle ?t (?t\<lparr>lt_flusher := In_round\<rparr>)"
    using u(4) by (intro id_enter) (simp_all add: storage_running_def Storage_init_def lt_proc_def small_joined_def small_called_def small_life_def)
  with R2 have R3: "?R (?t\<lparr>lt_flusher := In_round\<rparr>)" by (rule lt_reach(2))
  define v where "v = u\<lparr>pl_flusher := Some (start_flush [''ev'']), pl_proc := (pl_proc u)\<lparr>p_storage := Some Storage_init\<rparr>\<rparr>"
  have "flusher_step bare_ext u v" unfolding v_def
    by (rule pl_swap [OF u(3,4)]) (simp add: swap_locked_def, simp add: Storage_init_def)
  then have "flush_loop bare_ext (?t\<lparr>lt_flusher := In_round\<rparr>) (?s\<lparr>lt_pipe := v, lt_flusher := In_round\<rparr>)"
    using fl_flush [of "?t\<lparr>lt_flusher := In_round\<rparr>" bare_ext v] by (simp add: v_def)
  then have "?R (?s\<lparr>lt_pipe := v, lt_flusher := In_round\<rparr>)" using lt_reach(1) [OF R3] lt_flush by blast
  then show ?thesis using a u by (intro exI [of _ "?s\<lparr>lt_pipe := v, lt_flusher := In_round\<rparr>"]) (simp add: v_def at_stage_def)
qed

lemma small_mid_flush:
  "\<exists>s. reachable lt_init (lt_move bare_ext) s \<and> lt_phase s = Stopped \<and>
     pl_flusher (lt_pipe s) = Some (start_flush [''ev''])"
proof -
  obtain s where s: "reachable lt_init (lt_move bare_ext) s" "lt_phase s = Draining" "at_stage (main_slot s) Waiting (lt_pipe s)"
    "tsq_queue (p_queue (lt_proc s)) = []" "p_producer (lt_proc s) = None" "pl_flusher (lt_pipe s) = Some (start_flush [''ev''])"
    using small_swapped by blast
  let ?x = "s\<lparr>lt_phase := Swap_buffer From_stop\<rparr>"
  have "try_pop [] (p_queue (lt_proc s)) = (False, [], p_queue (lt_proc s))" using s(4) by (simp add: try_pop_def)
  with s(2,3) have "stop_thread bare_ext s ?x" by (intro st_drained)
  then have R: "reachable lt_init (lt_move bare_ext) ?x" using lt_reach(1) [OF s(1)] lt_stop by blast
  obtain y where y: "(stop_thread bare_ext)\<^sup>*\<^sup>* ?x (?x\<lparr>lt_pipe := y, lt_phase := Kafka_stop\<rparr>)"
    "pl_proc y = stop_storage bare_ext sample_env (lt_proc s)" "pl_flusher y = pl_flusher (lt_pipe s)"
    using flush_and_stop_steps [of ?x From_stop bare_ext sample_env] s(3) by auto
  let ?y = "?x\<lparr>lt_pipe := y, lt_phase := Kafka_stop\<rparr>"
  have "p_producer (pl_proc y) = None" using y(2) s(5) by (simp add: stop_storage_keeps)
  then have "stop_thread bare_ext ?y (put_proc (pl_proc y) (?y\<lparr>lt_phase := Stopped\<rparr>))"
    by (intro st_kafka) (simp_all add: stop_kafka_def)
  then have "reachable lt_init (lt_move bare_ext) (put_proc (pl_proc y) (?y\<lparr>lt_phase := Stopped\<rparr>))"
    using lt_reach(1) [OF stop_reach [OF y(1) R]] lt_stop by blast
  then show ?thesis
    using y(3) s(6) by (intro exI [of _ "put_proc (pl_proc y) (?y\<lparr>lt_phase := Stopped\<rparr>)"]) simp
qed

theorem stopped_leaves_flush_thread_witness:
  "\<exists>s L. reachable lt_init (lt_move bare_ext) s \<and> lt_phase s = Stopped \<and>
     pl_flusher (lt_pipe s) = Some (start_flush [''ev'']) \<and> ledger_match (lt_pipe s) L \<and> lg_at L In_flush = {#''ev''#}"
proof -
  obtain s where s: "reachable lt_init (lt_move bare_ext) s" "lt_phase s = Stopped"
    "pl_flusher (lt_pipe s) = Some (start_flush [''ev''])" using small_mid_flush by blast
  from stopped_leaves_flush_thread [OF s(1,2)] obtain L where L: "ledger_match (lt_pipe s) L"
    "\<forall>p. \<not> final p \<longrightarrow> lg_at L p = (if p = In_flush then thread_batch (pl_flusher (lt_pipe s)) else {#})" by blast
  have "lg_at L In_flush = {#''ev''#}"
    using L(2) [rule_format, of In_flush] s(3) by (simp add: final_def thread_batch_def start_flush_def)
  with s L(1) show ?thesis by blast
qed

end
