(* ===== verification/Unit_Tests.thy ===== *)
theory Unit_Tests
  imports Processor
begin

text \<open>
  The repository's own unit tests (\<open>tests/test_queue.cpp\<close>, \<open>tests/test_validate.cpp\<close>,
  \<open>tests/test_metrics.cpp\<close>), evaluated on the model: what the authors expect of the code is what
  the definitions compute.  The tests of \<open>validate\<close> read the clock when they make their event
  and again inside the check; they pass at any time of this era, also when up to a minute goes by
  in between.
\<close>

section \<open>\<open>test_queue.cpp\<close>\<close>

lemma push_pop_order:
  "let (ok1, q1) = try_push ''hello'' (ThreadSafeQueue 10); (ok2, q2) = try_push ''world'' q1;
       (ok3, d3, q3) = try_pop [] q2; (ok4, d4, q4) = try_pop d3 q3; (ok5, d5, q5) = try_pop d4 q4
   in ok1 \<and> ok2 \<and> ok3 \<and> d3 = ''hello'' \<and> ok4 \<and> d4 = ''world'' \<and> \<not> ok5"
  by (simp add: try_push_def try_pop_def ThreadSafeQueue_def)

lemma capacity_when_full:
  "let (ok1, q1) = try_push ''a'' (ThreadSafeQueue 2); (ok2, q2) = try_push ''b'' q1;
       (ok3, q3) = try_push ''c'' q2; (ok4, d4, q4) = try_pop [] q3
   in ok1 \<and> ok2 \<and> \<not> ok3 \<and> ok4 \<and> d4 = ''a''"
  by (simp add: try_push_def try_pop_def ThreadSafeQueue_def)

lemma timeout_returns_nullopt: "fst (try_pop_for [] [] (ThreadSafeQueue 10)) = None"
  by (simp add: try_pop_for_def wait_for_cases ThreadSafeQueue_def)

text \<open>
  A producer and a consumer at the same time: in any order of their operations in which every
  waiting pop got a value, the consumer received all values, in order.
\<close>

lemma concurrent_push_pop:
  assumes "zs \<in> shuffles (map Push vs) (replicate (length vs) Pop)" and "length vs = 1000"
    and h: "history try_push pop_item zs (ThreadSafeQueue 10000) = (acc, outs, q)" and "length outs = length vs"
  shows "outs = vs" and "tsq_queue q = []"
proof -
  have "pushes (replicate n Pop) = ([] :: bytes list)" for n by (induction n) simp_all
  moreover have "pushes (map Push xs) = xs" for xs :: "bytes list" by (induction xs) simp_all
  ultimately have "pushes zs = vs" using pushes_shuffle [OF assms(1)] by simp
  then have "acc = vs" using tq.history_accepts [OF h] assms(2) by (simp add: ThreadSafeQueue_def)
  with tq.history_fifo [OF h] have "vs = outs @ tsq_queue q" by (simp add: ThreadSafeQueue_def)
  with assms(4) show "outs = vs" "tsq_queue q = []" by simp_all
qed

section \<open>\<open>test_validate.cpp\<close> and \<open>test_metrics.cpp\<close>\<close>

text \<open>\<open>t\<close> is the clock when the event is made, \<open>now\<close> the clock when it is checked.\<close>

definition test_clock :: "i64 \<Rightarrow> i64 \<Rightarrow> bool" where
  "test_clock t now \<longleftrightarrow> 31 * 86400 < sint t \<and> sint t < 10 ^ 12 \<and> sint t \<le> sint now \<and> sint now \<le> sint t + 60"

definition make_event :: "i64 \<Rightarrow> bytes \<Rightarrow> bytes \<Rightarrow> bytes \<Rightarrow> bytes \<Rightarrow> event" where
  "make_event t uid etype plat body = \<lparr>event_id = ''evt_001'', user_id = uid, platform = plat, event_type = etype,
     ts = t * 1000, payload = body\<rparr>"

text \<open>The helpers of the two files.\<close>

definition make_valid_event :: "i64 \<Rightarrow> event" where
  "make_valid_event t = make_event t ''user_42'' ''click'' ''web'' ''{\"page\": \"/home\"}''"

definition make_metrics_event :: "i64 \<Rightarrow> bytes \<Rightarrow> bytes \<Rightarrow> bytes \<Rightarrow> event" where
  "make_metrics_event t uid etype plat = make_event t uid etype plat ''page=home''"

lemma test_clock_ok: "test_clock t now \<Longrightarrow> clock_ok now"
  by (simp add: test_clock_def clock_ok_def)

text \<open>A time stamp some milliseconds away from the clock, computed at 64 bits.\<close>

lemma stamp:
  assumes "test_clock t now" and "\<bar>d\<bar> \<le> 31 * 86400000"
  shows "sint (t * 1000 + word_of_int d) = sint t * 1000 + d"
proof -
  have w: "t * 1000 + word_of_int d = word_of_int (sint t * 1000 + d)" by simp
  show ?thesis unfolding w using assms by (intro sint_word_of_int_id; simp add: test_clock_def; linarith)
qed

lemma test_stamps:
  assumes "test_clock t now"
  shows "sint (t * 1000) = sint t * 1000" "sint (t * 1000 + 2 * 86400000) = sint t * 1000 + 2 * 86400000"
    "sint (t * 1000 - 31 * 86400000) = sint t * 1000 - 31 * 86400000"
    "sint (t * 1000 - 29 * 86400000) = sint t * 1000 - 29 * 86400000"
  using stamp [OF assms, of 0] stamp [OF assms, of "2 * 86400000"] stamp [OF assms, of "- (31 * 86400000)"]
    stamp [OF assms, of "- (29 * 86400000)"]
  by simp_all

lemmas test_defs = fields_in_range_def make_valid_event_def make_metrics_event_def make_event_def

lemma validate_at:
  assumes "test_clock t now"
  shows "validate now e \<longleftrightarrow> fields_in_range e \<and> 0 < sint (ts e) \<and> sint now * 1000 - 30 * 86400000 \<le> sint (ts e) \<and>
    sint (ts e) \<le> sint now * 1000 + 86400000"
  using validate_event_iff [OF test_clock_ok [OF assms], of e] by (simp add: validate_def ts_in_window_def)

lemma valid_event:
  assumes "test_clock t now"
  shows "validate now (make_valid_event t)" "validate now (make_metrics_event t ''user_1'' ''click'' ''ios'')"
  using test_stamps [OF assms] assms by (simp_all add: validate_at [OF assms] test_defs test_clock_def)

lemma user_id_tests:
  assumes "test_clock t now"
  shows "\<not> validate now ((make_valid_event t)\<lparr>user_id := []\<rparr>)"
    "\<not> validate now ((make_valid_event t)\<lparr>user_id := replicate 257 (CHR ''a'')\<rparr>)"
    "validate now ((make_valid_event t)\<lparr>user_id := replicate 256 (CHR ''a'')\<rparr>)"
    "\<not> validate now (make_metrics_event t [] ''click'' ''ios'')"
    "\<not> validate now (make_metrics_event t (replicate 257 (CHR ''a'')) ''click'' ''ios'')"
    "validate now (make_metrics_event t (replicate 256 (CHR ''a'')) ''click'' ''ios'')"
  using test_stamps [OF assms] assms by (simp_all add: validate_at [OF assms] test_defs test_clock_def)

lemma event_type_tests:
  assumes "test_clock t now"
  shows "\<not> validate now ((make_valid_event t)\<lparr>event_type := []\<rparr>)" "\<not> validate now (make_metrics_event t ''user_1'' [] ''ios'')"
  using test_stamps [OF assms] assms by (simp_all add: validate_at [OF assms] test_defs test_clock_def)

lemma payload_tests:
  assumes clock: "test_clock t now" and "e = make_valid_event t \<or> e = make_metrics_event t ''user_1'' ''click'' ''ios''"
  shows "\<not> validate now (e\<lparr>payload := replicate 65537 (CHR ''x'')\<rparr>)"
    and "validate now (e\<lparr>payload := replicate 65536 (CHR ''x'')\<rparr>)"
  using test_stamps [OF clock] assms by (auto simp: validate_at [OF clock] test_defs test_clock_def)

lemma ts_tests:
  assumes clock: "test_clock t now" and "e = make_valid_event t \<or> e = make_metrics_event t ''user_1'' ''click'' ''ios''"
  shows "\<not> validate now (e\<lparr>ts := 0\<rparr>)"
    and "\<not> validate now (e\<lparr>ts := - 1000\<rparr>)"
    and "\<not> validate now (e\<lparr>ts := t * 1000 + 2 * 86400000\<rparr>)"
    and "\<not> validate now (e\<lparr>ts := t * 1000 - 31 * 86400000\<rparr>)"
    and "validate now (e\<lparr>ts := t * 1000 - 29 * 86400000\<rparr>)"
  using test_stamps [OF clock] assms by (auto simp: validate_at [OF clock] test_defs test_clock_def)

lemma platform_tests:
  assumes "test_clock t now"
  shows "\<not> validate now ((make_valid_event t)\<lparr>platform := replicate 65 (CHR ''a'')\<rparr>)"
    "\<not> validate now (make_metrics_event t ''user_1'' ''click'' (replicate 65 (CHR ''a'')))"
  using test_stamps [OF assms] assms by (simp_all add: validate_at [OF assms] test_defs test_clock_def)

text \<open>Two threads that each add one ten thousand times.\<close>

lemma concurrent_increment:
  assumes "zs \<in> shuffles (replicate 10000 (Total_received, 1)) (replicate 10000 (Total_received, 1))"
  shows "load Total_received (run_adds zs Metrics_init) = 2 * 10000"
proof -
  let ?ops = "replicate 10000 (Total_received, 1 :: u64)"
  have "mset zs = mset (?ops @ ?ops)" using assms by (simp add: mset_shuffles)
  then have "run_adds zs Metrics_init = run_adds (?ops @ ?ops) Metrics_init"
    unfolding run_adds_def by (rule mb.fold_adds_perm)
  then show ?thesis by (simp add: load_run_adds sum_list_replicate)
qed

end
