(* ===== verification/Spec2Isabelle.thy ===== *)
theory Spec2Isabelle
  imports Stored_Rows Kafka_Counts Session_Stream Cleanup_Race Queue_Wakeup Stop_Outcome Unit_Tests
begin

text \<open>
  A verification library of \<open>event_collector\<close>, a C++ service that collects events over TCP.

  \<^bold>\<open>The program.\<close>  Clients send Protobuf events, each after a 4-byte little-endian length.
  \<open>Collector\<close> (\<open>src/src/collector/collector.cpp\<close>) accepts connections and makes one \<open>Session\<close>
  for each; the sessions' completion handlers run on the threads of one \<open>io_context\<close>, read the
  messages and push them into a bounded \<open>ThreadSafeQueue\<close> (\<open>include/queue.h\<close>).  The worker
  threads of \<open>Processor\<close> (\<open>src/src/processor/processor.cpp\<close>) pop them, parse and validate
  them, ask the Redis rate limiter, hand them to Kafka and save them in \<open>Storage\<close>
  (\<open>storage.cpp\<close>), which writes batches to ClickHouse and, when that fails three times, to a
  dead letter file.  Twelve atomic counters (\<open>include/metrics.h\<close>) follow every event;
  \<open>Monitor\<close> (\<open>monitor.cpp\<close>) exports them over HTTP.  \<open>main\<close> reads the settings, builds the parts
  in order, runs the I/O threads and stops the processor.

  \<^bold>\<open>Theories.\<close>  Each follows its source file function by function.
  \<^item> \<open>Prelude\<close>: machine types, decimal text, lines, reachability with the locale
    \<open>inductive_invariant\<close> that every state machine below interprets, \<open>simulation\<close> for refinements and
    \<open>progress\<close> for termination, list and word lemmas.
  \<^item> \<open>Metrics\<close>: the counters; the locale \<open>counter_bank\<close> states what additions in any order leave.
  \<^item> \<open>Event_Queue\<close>: \<open>ThreadSafeQueue\<close>; the locale \<open>bounded_fifo\<close> is its contract, interpreted on
    \<open>try_push\<close> and \<open>try_pop\<close>; \<open>wait_for\<close> spells out the waits of \<open>try_pop_for\<close>.
  \<^item> \<open>Queue_Wakeup\<close>: the condition variable of the queue as a step relation over waiting threads.
  \<^item> \<open>Validation\<close>: \<open>validate_event\<close> at 64 bits.
  \<^item> \<open>Rate_Limiter\<close>: \<open>allow\<close>, with the Lua script over the commands INCR and EXPIRE.
  \<^item> \<open>Cpp_Numbers\<close>: \<open>std::stoi\<close>, \<open>std::stoull\<close> and \<open>std::to_string\<close>, with their exceptions.
  \<^item> \<open>Dead_Letter\<close>: \<open>write_dead_letter\<close> on a file system with limited room, and a reader of its file.
  \<^item> \<open>Storage\<close>: the operations of \<open>Storage\<close>, \<open>do_flush\<close> with its columns and retries, and the
    machine \<open>store_step\<close> in which savers and flushers interleave.
  \<^item> \<open>Kafka_Producer\<close>: the producer's set-up, \<open>produce_to_kafka\<close>, \<open>dr_msg_cb\<close>.
  \<^item> \<open>Processor\<close>: one round of \<open>worker\<close> (\<open>work_event\<close>), its loop, and \<open>stop\<close>.
  \<^item> \<open>Flush_Steps\<close>, \<open>Kafka_Steps\<close>: \<open>do_flush\<close> and \<open>produce_to_kafka\<close> one action at a time, for threads
    that do them at the same time.
  \<^item> \<open>Pipeline\<close>: workers, flush thread and poll thread at once, one observable action per step
    (\<open>work_step\<close>), and the sessions that push (\<open>pl_step\<close>).
  \<^item> \<open>Vetting\<close>: what threads hold beyond the checks has been parsed and validated.
  \<^item> \<open>Ledger\<close>: the abstract specification, where each message is, which places it may move to and the
    condition of each place (\<open>fits\<close>).  \<open>ledger_match\<close> ties every place to the program: to the contents of
    queue, workers, buffer and flushes, to a counter, or, for the two fates the code does not count,
    to the messages \<open>Pipeline\<close> records where the code lets go of them (\<open>pl_unstored\<close>, \<open>pl_lost\<close>).
    The locale \<open>simulation\<close> of \<open>Prelude\<close> is interpreted on \<open>pl_step\<close> and \<open>ledger_step\<close>.
  \<^item> \<open>Exact_Counts\<close>: the counters as numbers; below \<open>2^64\<close> messages none wraps around or decreases.
  \<^item> \<open>Lifetime\<close>: the processor from \<open>start\<close> to its destruction (\<open>lt_step\<close>), with the loops of its threads,
    the flags they test, the thread that calls \<open>stop\<close>, the joins and the destructors; it refines the
    ledger too.  \<open>Stop_Progress\<close>: a measure and the absence of deadlock, for the locale \<open>progress\<close>.
    \<open>Stop_Outcome\<close>: what \<open>stop\<close> and the destructors leave, and that the actions of \<open>stop\<close> are \<open>stop\<close>.
  \<^item> \<open>Framing\<close>: the header's bytes at both ends.
  \<^item> \<open>Session\<close>: the completion handlers as functions from the state to the new state and the list
    of operations they ask for, the body handler also in two parts.  \<open>Session_Stream\<close>: a session fed with a byte stream.
  \<^item> \<open>Collector\<close>: the accept handler and the machine \<open>coll_step\<close> of all handlers.
    \<open>Cleanup_Race\<close>: the connection count with each atomic operation a step of its own.
  \<^item> \<open>Monitor\<close>: the response, its readers, the accept loop \<open>mon_step\<close>.
  \<^item> \<open>Startup\<close>: settings, constructors, \<open>main\<close> up to its threads, with the ways it can end.
    \<open>Shutdown\<close>: the signal handler, the work of the \<open>io_context\<close>, the end of \<open>main\<close>.
  \<^item> \<open>Server_Run\<close>: the composition of all of the above into one machine (\<open>sr_step\<close>): I/O handlers,
    scrapes that load one counter per step, sessions that push and count a drop in two steps,
    processor threads.  It refines \<open>pl_step\<close>, and so the
    ledger, and keeps the invariants of the I/O side.
  \<^item> \<open>Kafka_Counts\<close>: the two counters of Kafka in the running server; all twelve counters only grow.
  \<^item> \<open>Stored_Rows\<close>: the table of \<open>init/clickhouse-schema.sql\<close> and the rows the running server writes.
  \<^item> \<open>Unit_Tests\<close>: the tests of \<open>tests/\<close> on the model, at any time of the clock.
  \<^item> This theory: the path of a client's events through session, queue and processor.

  \<^bold>\<open>How code becomes definitions.\<close>  Objects are records, a \<open>std::string\<close> is a list of bytes,
  integers keep their width (\<open>u64\<close>, \<open>i32\<close>; additions wrap), operations return the updated
  state.  Exceptions, crashes and failed starts are values of sum types.  A critical section
  under a mutex and an atomic operation are one step; everything that can happen between two
  of them is a step of another thread in the machines.  (Only the connection count is coarser in
  \<open>coll_step\<close> and \<open>sr_step\<close>, where the check and the addition of an accept, and the exchange and the
  subtraction of \<open>cleanup\<close>, are one step; \<open>Cleanup_Race\<close> takes these apart.)  The loop of \<open>worker\<close>, which runs until a
  flag changes, takes the list of its rounds as an argument, so a statement about all lists is
  one about all lengths of a run; in \<open>Lifetime\<close> the loops of all threads test their flags step by
  step; every other loop (\<open>drain\<close>, \<open>feed\<close>, the retries) is shown to terminate.  There is no fuel.

  \<^bold>\<open>Parameters and what is assumed of them.\<close>  The Protobuf parser, ClickHouse's insert, Kafka's
  produce, poll, flush and purge, and Redis are arguments (records of functions on states of
  any type).  Hypotheses state only documented behaviour: INCR returns one more than before
  and leaves times to live alone, EXPIRE with a positive number of seconds on a key that exists
  sets its time to live (\<open>incr_counts\<close>, \<open>incr_keeps_ttl\<close>, \<open>expire_sets\<close>), setting a timer's
  expiry cancels its pending wait (\<open>timer_documented\<close>), the callback of librdkafka gets the
  opaque pointer of the configuration (\<open>opaque_from_conf\<close>), \<open>io_context::run\<close> returns only when
  no work is left.  The clock, the error codes of Asio and the answers of the disk are inputs
  of each step.

  \<^bold>\<open>What the properties show.\<close>
  \<^item> End to end: under every interleaving each message is in exactly one place whose condition it
    meets, the six counters are the sizes of their places, and no message is let go but where the
    code says so (\<open>server_refines_ledger\<close>); every message sent is received once or counted as
    a drop whenever the shutdown completes (\<open>sent_events_accounted\<close>, \<open>stream_delivers_messages\<close>, \<open>header_roundtrip\<close>,
    \<open>bad_length_disconnects\<close>); ClickHouse is given well-typed rows of valid events only
    (\<open>stored_rows_typed\<close>).
  \<^item> Queue: first in first out, bounded, a waiting pop is atomic, no wake-up is lost.
  \<^item> Workers: each event has one outcome, rejected events stay out of the sinks, counters account
    for every event at every moment, the sequential round is what the atomic steps add up to.
  \<^item> Storage: a flush stores or logs its batch; no saved event is duplicated or forgotten, and the
    contents of the dead letter files hold those said to be there (\<open>saved_events_conserved\<close>); exactly
    when the dead letter file reads back (\<open>dead_letter_reads_back\<close>), and what its counter claims
    beyond what a full disk took.
  \<^item> Rate limiter: exactly the limit passes per window, rejection only on a count, every counter
    expires within the window.
  \<^item> Connections: the count is exact under races, bounded by 20000; a slot leaked by an exception in
    \<open>Session::start\<close> never comes back (\<open>leaked_slots_stay\<close>); one accept is always
    registered (in the proof of \<open>shutdown_never_completes\<close>), a session without a read has given its
    slot back; the idle timeout covers only the time before the first message.
  \<^item> Monitor: an HTTP client and a Prometheus reader get back exactly the counters' values, and
    a scrape of the running server is never ahead of the truth.
  \<^item> Start and end: what each setting means, every way \<open>main\<close> ends before it serves; that \<open>stop\<close> and the
    destructors come to an end under every interleaving (\<open>shutdown_terminates\<close>), leave nothing but a
    batch of the flush thread (\<open>stopped_leaves_flush_thread\<close>) and in the end nothing at all, every
    message counted or recorded as let go (\<open>shutdown_accounts_all\<close>); and that after a signal \<open>run\<close> does not return,
    so \<open>main\<close> does not reach \<open>stop\<close>.
  \<^item> Kafka: that a delivery report dereferences the null opaque pointer the set-up leaves, so the
    success counter of a server that runs is zero, and that none of the twelve counters decreases
    (\<open>running_counters\<close>).

  \<^bold>\<open>Not modelled.\<close>  Logging (output only); the bytes of an HTTP request (the code does not look
  at them); failures to create a thread and allocation failures outside the accept handler;
  the memory model (atomics are sequentially consistent by default in the source); unlocked
  concurrent use of the ClickHouse client and of a socket by two handlers, which the
  libraries do not define.  Python clients, containers and alert rules
  hold no logic of the service; generated Protobuf code is a parameter.
\<close>

section \<open>From the socket to the counters\<close>

definition shared_of :: "i32 \<Rightarrow> ('r, 'k, 'c) processor \<Rightarrow> shared" where
  "shared_of active p = \<lparr>sh_queue = p_queue p, sh_metrics = p_metrics p, sh_active = active\<rparr>"

lemma session_result:
  assumes "frames ds = Some bs" and "list_all legal_body ds" and "wf_queue (p_queue p)"
    and "sh = snd (feed bs (session_accept (shared_of active p)))"
  shows "tsq_queue (sh_queue sh) = take (unat (tsq_capacity (p_queue p))) (tsq_queue (p_queue p) @ ds)"
    and "load Total_queue_drop (sh_metrics sh) = load Total_queue_drop (p_metrics p)
      + of_nat (length ds - (unat (tsq_capacity (p_queue p)) - length (tsq_queue (p_queue p))))"
    and "c \<noteq> Total_queue_drop \<Longrightarrow> load c (sh_metrics sh) = load c (p_metrics p)"
proof -
  let ?sh = "shared_of (active + 1) p"
  have q: "sh_queue sh = sh_queue (fold push_body ds ?sh)" and m: "sh_metrics sh = sh_metrics (fold push_body ds ?sh)"
    using feed_accepted [OF assms(1,2), of "shared_of active p"] assms(4) by (auto simp: shared_of_def)
  note f = fold_push_body [of ?sh ds]
  show "tsq_queue (sh_queue sh) = take (unat (tsq_capacity (p_queue p))) (tsq_queue (p_queue p) @ ds)"
    "load Total_queue_drop (sh_metrics sh) = load Total_queue_drop (p_metrics p)
      + of_nat (length ds - (unat (tsq_capacity (p_queue p)) - length (tsq_queue (p_queue p))))"
    using f assms(3) q m by (simp_all add: shared_of_def)
  show "load c (sh_metrics sh) = load c (p_metrics p)" if "c \<noteq> Total_queue_drop"
    using fold_push_body_frame [OF that, of ds ?sh] m by (simp add: shared_of_def)
qed

text \<open>
  C4: every event a client sends is accounted for.  A client sends any messages of legal size
  on one connection; then the processor is stopped.  Whenever the shutdown completes, each message
  has been received by the processor, exactly once, or counted as a queue drop: the two counters
  together have grown by the number of messages sent plus those already queued, the queue is empty
  and the counters are balanced.  The shutdown does complete if Kafka is off or the delivery
  callback has its pointer; with Kafka on the code leaves that pointer null, and a delivery report
  served while stopping crashes the process instead (\<open>delivery_report_crashes\<close>).
\<close>

theorem sent_events_accounted:
  assumes "frames ds = Some bs" and "list_all legal_body ds" and "wf_queue (p_queue p)" and "balanced (p_metrics p)"
  shows "let result = stop ext envs env (with_shared (snd (feed bs (session_accept (shared_of active p)))) p) in
    (\<forall>p'. result = Inr p' \<longrightarrow> tsq_queue (p_queue p') = [] \<and> balanced (p_metrics p') \<and>
      load Total_received (p_metrics p') +
        load Total_queue_drop (sh_metrics (snd (feed bs (session_accept (shared_of active p))))) =
      load Total_received (p_metrics p) + load Total_queue_drop (p_metrics p)
        + of_nat (length (tsq_queue (p_queue p)) + length ds)) \<and>
    (px_opaque ext = Opaque_metrics \<or> p_producer p = None \<longrightarrow> (\<exists>p'. result = Inr p'))"
proof -
  define sh where "sh = snd (feed bs (session_accept (shared_of active p)))"
  let ?p = "with_shared sh p"
  note r = session_result [OF assms(1-3) sh_def]
  have b: "balanced (p_metrics ?p)" using assms(4) r(3) by (simp add: balanced_def with_shared_def)
  have "\<exists>p'. stop ext envs env ?p = Inr p'" if "px_opaque ext = Opaque_metrics \<or> p_producer p = None"
    using that by (intro stop_returns) (simp add: reports_safe_def with_shared_def)
  moreover have "tsq_queue (p_queue p') = [] \<and> balanced (p_metrics p') \<and>
      load Total_received (p_metrics p') + load Total_queue_drop (sh_metrics sh) =
      load Total_received (p_metrics p) + load Total_queue_drop (p_metrics p)
        + of_nat (length (tsq_queue (p_queue p)) + length ds)" if "stop ext envs env ?p = Inr p'" for p'
  proof -
    let ?n = "length (tsq_queue (p_queue p))" and ?c = "unat (tsq_capacity (p_queue p))"
    have "length (tsq_queue (p_queue ?p)) + (length ds - (?c - ?n)) = ?n + length ds"
      using assms(3) by (simp add: with_shared_def r(1) wf_queue_def)
    with stop_done [OF that b] r(2) r(3) [of Total_received] show ?thesis
      by (simp add: with_shared_def algebra_simps flip: of_nat_add)
  qed
  ultimately show ?thesis unfolding Let_def sh_def [symmetric] by blast
qed

theorem sent_events_accounted_witness:
  "\<exists>bs p'. frames [''ev'', ''junk''] = Some bs \<and>
     stop bare_ext (\<lambda>_. sample_env) sample_env
       (with_shared (snd (feed bs (session_accept (shared_of 0 (bare_processor []))))) (bare_processor [])) = Inr p' \<and>
     balanced (p_metrics p')"
proof -
  obtain bs where f: "frames [''ev'', ''junk''] = Some bs" by (simp add: frame_def pack_le32_def)
  have l: "list_all legal_body [''ev'', ''junk'']" by (simp add: legal_body_def)
  have w: "wf_queue (p_queue (bare_processor []))" by (simp add: bare_processor_def wf_queue_def)
  have r: "px_opaque bare_ext = Opaque_metrics" by (simp add: bare_ext_def)
  have b: "balanced (p_metrics (bare_processor []))" by (simp add: balanced_def bare_processor_def)
  from sent_events_accounted [OF f l w b, of bare_ext "\<lambda>_. sample_env" sample_env 0] f r show ?thesis
    unfolding Let_def by blast
qed

end
